(* ===== verification/Prelude.thy ===== *)
theory Prelude
  imports Main "HOL-Library.Word" "HOL-Library.Monad_Syntax" "HOL-Library.Multiset"
begin

text \<open>
  Shared vocabulary of the development: the machine integer types of the C sources, byte
  buffers with checked access, C strings, and the generic list lemmas the components use.
  A read or write outside a buffer, a null dereference or a use of freed memory has no
  result in C; throughout the development such a computation is \<^const>\<open>None\<close>.
\<close>

unbundle bit_operations_syntax

type_synonym u8 = "8 word"
type_synonym u16 = "16 word"
type_synonym u32 = "32 word"
type_synonym u64 = "64 word"

named_theorems csf_defs "definitions that the component proofs unfold"

text \<open>Status codes of \<^verbatim>\<open>include/utils.h\<close>.\<close>

definition CSF_OK :: int where "CSF_OK = 0"
definition CSF_ERR :: int where "CSF_ERR = -1"

lemmas csf_status_defs = CSF_OK_def CSF_ERR_def

section \<open>C conversions\<close>

text \<open>The value of an out-of-range integer after conversion to a 32-bit \<^verbatim>\<open>int\<close>.\<close>

definition to_int32 :: "int \<Rightarrow> int" where
  "to_int32 i = signed_take_bit 31 i"

lemma to_int32_id [simp]: "- (2 ^ 31) \<le> i \<Longrightarrow> i < 2 ^ 31 \<Longrightarrow> to_int32 i = i"
  by (simp add: to_int32_def signed_take_bit_int_eq_self)

section \<open>Byte buffers\<close>

type_synonym buf = "char list"

abbreviation NUL :: char where "NUL \<equiv> CHR 0x00"

definition rd :: "buf \<Rightarrow> nat \<Rightarrow> char option" where
  "rd b i = (if i < length b then Some (b ! i) else None)"

definition wr :: "buf \<Rightarrow> nat \<Rightarrow> char \<Rightarrow> buf option" where
  "wr b i c = (if i < length b then Some (b[i := c]) else None)"

lemma rd_Some [simp]: "i < length b \<Longrightarrow> rd b i = Some (b ! i)"
  by (simp add: rd_def)

lemma wr_Some [simp]: "i < length b \<Longrightarrow> wr b i c = Some (b[i := c])"
  by (simp add: wr_def)

text \<open>The C string held in a buffer: its bytes before the first NUL.\<close>

definition cstr :: "buf \<Rightarrow> string" where
  "cstr b = takeWhile (\<lambda>c. c \<noteq> NUL) b"

lemma cstr_append_NUL [simp]: "NUL \<notin> set s \<Longrightarrow> cstr (s @ NUL # r) = s"
  unfolding cstr_def by (subst takeWhile_append2) auto

section \<open>Lists\<close>

lemma remove1_filter: "distinct xs \<Longrightarrow> remove1 x xs = filter (\<lambda>y. y \<noteq> x) xs"
  by (induction xs) (auto intro: filter_True [symmetric])

end
