(* ===== verification/Tailq.thy ===== *)
theory Tailq
  imports Prelude
begin

text \<open>
  The tail queues of \<^verbatim>\<open>include/queue.h\<close> (the \<^verbatim>\<open>TAILQ_*\<close> macros) on an explicit
  heap of link fields, and their refinement to lists.  A head has a first pointer and the
  address of the last next-pointer; an entry has a next pointer and the address of the
  next-pointer that refers to it.  Those addresses (\<^verbatim>\<open>struct type **\<close>) are the datatype
  \<open>loc\<close>.  Heads and elements are numbered.
\<close>

section \<open>Link fields\<close>

text \<open>A pointer to an element; \<open>Minus1\<close> is the value that \<^verbatim>\<open>TAILQ_ENTRY_INIT\<close> stores.\<close>

datatype eptr = Null | Ptr nat | Minus1

text \<open>The address of a pointer to an element.\<close>

datatype loc = HeadFirst nat | ElemNext nat | LNull | LMinus1

record tqheap =
  tqh_first :: "nat \<Rightarrow> eptr"
  tqh_last :: "nat \<Rightarrow> loc"
  tqe_next :: "nat \<Rightarrow> eptr"
  tqe_prev :: "nat \<Rightarrow> loc"

text \<open>Reading and writing through the address of a pointer.\<close>

definition load_loc :: "tqheap \<Rightarrow> loc \<Rightarrow> eptr option" where
  "load_loc hp l = (case l of HeadFirst h \<Rightarrow> Some (tqh_first hp h)
     | ElemNext e \<Rightarrow> Some (tqe_next hp e) | _ \<Rightarrow> None)"

definition store_loc :: "tqheap \<Rightarrow> loc \<Rightarrow> eptr \<Rightarrow> tqheap option" where
  "store_loc hp l p = (case l of
       HeadFirst h \<Rightarrow> Some (hp\<lparr>tqh_first := (tqh_first hp)(h := p)\<rparr>)
     | ElemNext e \<Rightarrow> Some (hp\<lparr>tqe_next := (tqe_next hp)(e := p)\<rparr>)
     | _ \<Rightarrow> None)"

text \<open>
  The head and the entry structure have the same layout: the second field behind the address
  of a first field is the last address of a head or the back address of an entry.
\<close>

definition second_field :: "tqheap \<Rightarrow> loc \<Rightarrow> loc option" where
  "second_field hp l = (case l of HeadFirst h \<Rightarrow> Some (tqh_last hp h)
     | ElemNext e \<Rightarrow> Some (tqe_prev hp e) | _ \<Rightarrow> None)"

section \<open>The macros\<close>

definition TAILQ_EMPTY :: "tqheap \<Rightarrow> nat \<Rightarrow> bool" where
  "TAILQ_EMPTY hp h \<longleftrightarrow> tqh_first hp h = Null"

definition TAILQ_FIRST :: "tqheap \<Rightarrow> nat \<Rightarrow> eptr" where
  "TAILQ_FIRST hp h = tqh_first hp h"

definition TAILQ_NEXT :: "tqheap \<Rightarrow> nat \<Rightarrow> eptr" where
  "TAILQ_NEXT hp e = tqe_next hp e"

definition TAILQ_INIT :: "nat \<Rightarrow> tqheap \<Rightarrow> tqheap" where
  "TAILQ_INIT h hp = hp\<lparr>tqh_first := (tqh_first hp)(h := Null),
                       tqh_last := (tqh_last hp)(h := HeadFirst h)\<rparr>"

definition TAILQ_INSERT_TAIL :: "nat \<Rightarrow> nat \<Rightarrow> tqheap \<Rightarrow> tqheap option" where
  "TAILQ_INSERT_TAIL h e hp = do {
     let hp1 = hp\<lparr>tqe_next := (tqe_next hp)(e := Null)\<rparr>;
     let hp2 = hp1\<lparr>tqe_prev := (tqe_prev hp1)(e := tqh_last hp1 h)\<rparr>;
     hp3 \<leftarrow> store_loc hp2 (tqh_last hp2 h) (Ptr e);
     Some (hp3\<lparr>tqh_last := (tqh_last hp3)(h := ElemNext e)\<rparr>)
   }"

definition TAILQ_INSERT_HEAD :: "nat \<Rightarrow> nat \<Rightarrow> tqheap \<Rightarrow> tqheap option" where
  "TAILQ_INSERT_HEAD h e hp = do {
     let hp1 = hp\<lparr>tqe_next := (tqe_next hp)(e := tqh_first hp h)\<rparr>;
     hp2 \<leftarrow> (case tqe_next hp1 e of
         Null \<Rightarrow> Some (hp1\<lparr>tqh_last := (tqh_last hp1)(h := ElemNext e)\<rparr>)
       | Ptr f \<Rightarrow> Some (hp1\<lparr>tqe_prev := (tqe_prev hp1)(f := ElemNext e)\<rparr>)
       | Minus1 \<Rightarrow> None);
     let hp3 = hp2\<lparr>tqh_first := (tqh_first hp2)(h := Ptr e)\<rparr>;
     Some (hp3\<lparr>tqe_prev := (tqe_prev hp3)(e := HeadFirst h)\<rparr>)
   }"

definition TAILQ_INSERT_BEFORE :: "nat \<Rightarrow> nat \<Rightarrow> tqheap \<Rightarrow> tqheap option" where
  "TAILQ_INSERT_BEFORE le e hp = do {
     let hp1 = hp\<lparr>tqe_prev := (tqe_prev hp)(e := tqe_prev hp le)\<rparr>;
     let hp2 = hp1\<lparr>tqe_next := (tqe_next hp1)(e := Ptr le)\<rparr>;
     hp3 \<leftarrow> store_loc hp2 (tqe_prev hp2 le) (Ptr e);
     Some (hp3\<lparr>tqe_prev := (tqe_prev hp3)(le := ElemNext e)\<rparr>)
   }"

definition TAILQ_INSERT_AFTER :: "nat \<Rightarrow> nat \<Rightarrow> nat \<Rightarrow> tqheap \<Rightarrow> tqheap option" where
  "TAILQ_INSERT_AFTER h le e hp = do {
     let hp1 = hp\<lparr>tqe_next := (tqe_next hp)(e := tqe_next hp le)\<rparr>;
     hp2 \<leftarrow> (case tqe_next hp1 e of
         Null \<Rightarrow> Some (hp1\<lparr>tqh_last := (tqh_last hp1)(h := ElemNext e)\<rparr>)
       | Ptr f \<Rightarrow> Some (hp1\<lparr>tqe_prev := (tqe_prev hp1)(f := ElemNext e)\<rparr>)
       | Minus1 \<Rightarrow> None);
     let hp3 = hp2\<lparr>tqe_next := (tqe_next hp2)(le := Ptr e)\<rparr>;
     Some (hp3\<lparr>tqe_prev := (tqe_prev hp3)(e := ElemNext le)\<rparr>)
   }"

definition TAILQ_REMOVE :: "nat \<Rightarrow> nat \<Rightarrow> tqheap \<Rightarrow> tqheap option" where
  "TAILQ_REMOVE h e hp = do {
     hp1 \<leftarrow> (case tqe_next hp e of
         Null \<Rightarrow> Some (hp\<lparr>tqh_last := (tqh_last hp)(h := tqe_prev hp e)\<rparr>)
       | Ptr f \<Rightarrow> Some (hp\<lparr>tqe_prev := (tqe_prev hp)(f := tqe_prev hp e)\<rparr>)
       | Minus1 \<Rightarrow> None);
     store_loc hp1 (tqe_prev hp1 e) (tqe_next hp1 e)
   }"

definition TAILQ_CONCAT :: "nat \<Rightarrow> nat \<Rightarrow> tqheap \<Rightarrow> tqheap option" where
  "TAILQ_CONCAT h1 h2 hp =
     (if TAILQ_EMPTY hp h2 then Some hp else do {
        hp1 \<leftarrow> store_loc hp (tqh_last hp h1) (tqh_first hp h2);
        hp2 \<leftarrow> (case tqh_first hp1 h2 of
            Ptr f \<Rightarrow> Some (hp1\<lparr>tqe_prev := (tqe_prev hp1)(f := tqh_last hp1 h1)\<rparr>)
          | _ \<Rightarrow> None);
        let hp3 = hp2\<lparr>tqh_last := (tqh_last hp2)(h1 := tqh_last hp2 h2)\<rparr>;
        Some (TAILQ_INIT h2 hp3)
      })"

definition TAILQ_LAST :: "tqheap \<Rightarrow> nat \<Rightarrow> eptr option" where
  "TAILQ_LAST hp h = do { l \<leftarrow> second_field hp (tqh_last hp h); load_loc hp l }"

definition TAILQ_PREV :: "tqheap \<Rightarrow> nat \<Rightarrow> eptr option" where
  "TAILQ_PREV hp e = do { l \<leftarrow> second_field hp (tqe_prev hp e); load_loc hp l }"

definition TAILQ_ENTRY_INIT :: "nat \<Rightarrow> tqheap \<Rightarrow> tqheap" where
  "TAILQ_ENTRY_INIT e hp = hp\<lparr>tqe_next := (tqe_next hp)(e := Minus1),
                             tqe_prev := (tqe_prev hp)(e := LMinus1)\<rparr>"

definition TAILQ_ENTRY_EMPTY :: "tqheap \<Rightarrow> nat \<Rightarrow> bool" where
  "TAILQ_ENTRY_EMPTY hp e \<longleftrightarrow> tqe_next hp e = Minus1 \<and> tqe_prev hp e = LMinus1"

text \<open>
  \<^verbatim>\<open>TAILQ_FOREACH\<close>: the elements the loop visits, with at most \<open>n\<close> iterations
  (a corrupted queue can be cyclic).
\<close>

fun tq_walk :: "nat \<Rightarrow> tqheap \<Rightarrow> eptr \<Rightarrow> nat list option" where
  "tq_walk n hp Null = Some []"
| "tq_walk 0 hp (Ptr e) = None"
| "tq_walk (Suc n) hp (Ptr e) = map_option ((#) e) (tq_walk n hp (TAILQ_NEXT hp e))"
| "tq_walk n hp Minus1 = None"

definition TAILQ_FOREACH :: "nat \<Rightarrow> tqheap \<Rightarrow> nat \<Rightarrow> nat list option" where
  "TAILQ_FOREACH n hp h = tq_walk n hp (TAILQ_FIRST hp h)"

lemmas tailq_macros = TAILQ_EMPTY_def TAILQ_FIRST_def TAILQ_NEXT_def TAILQ_INIT_def
  TAILQ_INSERT_TAIL_def TAILQ_INSERT_HEAD_def TAILQ_INSERT_BEFORE_def TAILQ_INSERT_AFTER_def
  TAILQ_REMOVE_def TAILQ_CONCAT_def TAILQ_LAST_def TAILQ_PREV_def
  load_loc_def store_loc_def second_field_def

section \<open>Representation of a list\<close>

text \<open>
  \<open>tq_chain hp l xs r\<close>: starting at the pointer with address \<open>l\<close>, the next-pointers
  lead through the elements \<open>xs\<close> to the pointer with address \<open>r\<close>, and each element's
  back address is the address of the pointer that refers to it.
\<close>

fun tq_chain :: "tqheap \<Rightarrow> loc \<Rightarrow> nat list \<Rightarrow> loc \<Rightarrow> bool" where
  "tq_chain hp l [] r \<longleftrightarrow> l = r"
| "tq_chain hp l (x # xs) r \<longleftrightarrow>
     load_loc hp l = Some (Ptr x) \<and> tqe_prev hp x = l \<and> tq_chain hp (ElemNext x) xs r"

definition tq_rep :: "tqheap \<Rightarrow> nat \<Rightarrow> nat list \<Rightarrow> bool" where
  "tq_rep hp h xs \<longleftrightarrow> distinct xs \<and> tq_chain hp (HeadFirst h) xs (tqh_last hp h)
     \<and> load_loc hp (tqh_last hp h) = Some Null"

lemma tq_chain_append:
  "tq_chain hp l (xs @ ys) r \<longleftrightarrow> (\<exists>m. tq_chain hp l xs m \<and> tq_chain hp m ys r)"
  by (induction xs arbitrary: l) auto

lemma tq_chain_end:
  "tq_chain hp l xs r \<Longrightarrow> r = (if xs = [] then l else ElemNext (last xs))"
  by (induction xs arbitrary: l) auto

lemma tq_last_eq:
  "tq_rep hp h xs \<Longrightarrow> tqh_last hp h = (if xs = [] then HeadFirst h else ElemNext (last xs))"
  unfolding tq_rep_def using tq_chain_end by blast

text \<open>The pointers a chain reads: its start and the next-pointers of its elements but the last.\<close>

lemma tq_chain_cong:
  assumes "tq_chain hp l xs r"
    and "xs \<noteq> [] \<Longrightarrow> load_loc hp' l = load_loc hp l"
    and "\<forall>x \<in> set (butlast xs). tqe_next hp' x = tqe_next hp x"
    and "\<forall>x \<in> set xs. tqe_prev hp' x = tqe_prev hp x"
  shows "tq_chain hp' l xs r"
  using assms
proof (induction xs arbitrary: l)
  case Nil
  then show ?case by simp
next
  case (Cons x xs)
  have "tq_chain hp' (ElemNext x) xs r"
    using Cons.prems by (intro Cons.IH) (auto simp: load_loc_def split: if_splits)
  then show ?case using Cons.prems by simp
qed

text \<open>The address of the pointer behind a prefix \<open>as\<close> of the queue with head \<open>h\<close>.\<close>

definition loc_after :: "nat \<Rightarrow> nat list \<Rightarrow> loc" where
  "loc_after h as = (if as = [] then HeadFirst h else ElemNext (last as))"

lemma tq_chain_loc_after: "tq_chain hp (HeadFirst h) as r \<Longrightarrow> r = loc_after h as"
  using tq_chain_end by (fastforce simp: loc_after_def)

lemma tq_rep_last: "tq_rep hp h xs \<Longrightarrow> tqh_last hp h = loc_after h xs"
  by (auto simp: tq_rep_def dest: tq_chain_loc_after)

lemma tq_rep_snoc_view:
  "tq_rep hp h xs \<longleftrightarrow> distinct xs \<and> tqh_last hp h = loc_after h xs
     \<and> tq_chain hp (HeadFirst h) xs (loc_after h xs) \<and> load_loc hp (loc_after h xs) = Some Null"
  unfolding tq_rep_def using tq_chain_loc_after by metis

lemma tq_chain_split:
  "tq_chain hp (HeadFirst h) (as @ bs) r \<longleftrightarrow>
     tq_chain hp (HeadFirst h) as (loc_after h as) \<and> tq_chain hp (loc_after h as) bs r"
  by (auto simp: tq_chain_append dest: tq_chain_loc_after)

text \<open>The effect of a store through a valid address.\<close>

definition put_loc :: "tqheap \<Rightarrow> loc \<Rightarrow> eptr \<Rightarrow> tqheap" where
  "put_loc hp l p = (case l of
       HeadFirst h \<Rightarrow> hp\<lparr>tqh_first := (tqh_first hp)(h := p)\<rparr>
     | ElemNext e \<Rightarrow> hp\<lparr>tqe_next := (tqe_next hp)(e := p)\<rparr>
     | _ \<Rightarrow> hp)"

lemma store_loc_after [simp]:
  "store_loc hp (loc_after h as) p = Some (put_loc hp (loc_after h as) p)"
  by (simp add: loc_after_def store_loc_def put_loc_def)

lemma load_put_loc [simp]:
  "load_loc (put_loc hp (loc_after h as) p) l =
     (if l = loc_after h as then Some p else load_loc hp l)"
  by (auto simp: loc_after_def put_loc_def load_loc_def split: loc.splits)

lemma put_loc_fields [simp]:
  "tqe_prev (put_loc hp l p) = tqe_prev hp" "tqh_last (put_loc hp l p) = tqh_last hp"
  by (auto simp: put_loc_def split: loc.splits)

lemma put_loc_next [simp]:
  "x \<notin> set as \<Longrightarrow> tqe_next (put_loc hp (loc_after h as) p) x = tqe_next hp x"
  "last as \<noteq> x \<Longrightarrow> tqe_next (put_loc hp (loc_after h as) p) x = tqe_next hp x"
  "tqe_next (put_loc hp (HeadFirst h) p) x = tqe_next hp x"
  by (auto simp: put_loc_def loc_after_def)

lemma put_loc_first [simp]:
  "h \<noteq> k \<Longrightarrow> tqh_first (put_loc hp (loc_after h as) p) k = tqh_first hp k"
  "as \<noteq> [] \<Longrightarrow> tqh_first (put_loc hp (loc_after h as) p) k = tqh_first hp k"
  by (auto simp: put_loc_def loc_after_def)

lemma loc_after_simps [simp]:
  "loc_after h [] = HeadFirst h" "loc_after h (as @ [x]) = ElemNext x"
  "loc_after h as = ElemNext x \<longleftrightarrow> as \<noteq> [] \<and> last as = x"
  "loc_after h as = HeadFirst k \<longleftrightarrow> as = [] \<and> h = k"
  by (auto simp: loc_after_def)

lemma load_loc_simps [simp]:
  "load_loc hp (HeadFirst h) = Some (tqh_first hp h)" "load_loc hp (ElemNext e) = Some (tqe_next hp e)"
  by (simp_all add: load_loc_def)

lemma load_loc_upd [simp]:
  "load_loc (hp\<lparr>tqh_last := a\<rparr>) l = load_loc hp l" "load_loc (hp\<lparr>tqe_prev := b\<rparr>) l = load_loc hp l"
  by (simp_all add: load_loc_def split: loc.splits)

lemma distinct_butlast_last: "distinct as \<Longrightarrow> x \<in> set (butlast as) \<Longrightarrow> last as \<noteq> x"
  by (cases as rule: rev_cases) auto

text \<open>A store behind the chain of \<open>as\<close> leaves that chain alone.\<close>

lemma tq_chain_put:
  assumes "tq_chain hp (HeadFirst h) as (loc_after h as)" and "distinct as"
  shows "tq_chain (put_loc hp (loc_after h as) p) (HeadFirst h) as (loc_after h as)"
  using assms by (intro tq_chain_cong [OF assms(1)]) (auto dest: distinct_butlast_last)

lemma tq_chain_put_disjoint:
  assumes "tq_chain hp (ElemNext e) bs r" and "\<forall>x \<in> set (e # bs). x \<notin> set as"
  shows "tq_chain (put_loc hp (loc_after h as) p) (ElemNext e) bs r"
  using assms by (intro tq_chain_cong [OF assms(1)]) (auto dest: in_set_butlastD)

lemma tq_chain_last_upd [simp]:
  "tq_chain (hp\<lparr>tqh_last := f\<rparr>) l xs r = tq_chain hp l xs r"
  by (induction xs arbitrary: l) auto

lemma tq_chain_prev_upd:
  "x \<notin> set xs \<Longrightarrow> tq_chain (hp\<lparr>tqe_prev := (tqe_prev hp)(x := m)\<rparr>) l xs r = tq_chain hp l xs r"
  by (induction xs arbitrary: l) auto

lemma tq_chain_next_upd:
  "x \<notin> set xs \<Longrightarrow> l \<noteq> ElemNext x \<Longrightarrow>
    tq_chain (hp\<lparr>tqe_next := (tqe_next hp)(x := p)\<rparr>) l xs r = tq_chain hp l xs r"
  by (induction xs arbitrary: l) (auto simp: load_loc_def split: loc.splits)

text \<open>A queue is unaffected by changes to the fields of other heads and of elements outside it.\<close>

lemma tq_rep_frame:
  assumes rep: "tq_rep hp h xs"
    and fh: "tqh_first hp' h = tqh_first hp h" and lh: "tqh_last hp' h = tqh_last hp h"
    and el: "\<forall>x \<in> set xs. tqe_next hp' x = tqe_next hp x \<and> tqe_prev hp' x = tqe_prev hp x"
  shows "tq_rep hp' h xs"
proof -
  have c: "tq_chain hp (HeadFirst h) xs (loc_after h xs)" and d: "distinct xs"
    and l: "tqh_last hp h = loc_after h xs" and n: "load_loc hp (loc_after h xs) = Some Null"
    using rep unfolding tq_rep_snoc_view by blast+
  have "tq_chain hp' (HeadFirst h) xs (loc_after h xs)"
  proof (rule tq_chain_cong [OF c])
    show "load_loc hp' (HeadFirst h) = load_loc hp (HeadFirst h)" using fh by simp
    show "\<forall>x \<in> set (butlast xs). tqe_next hp' x = tqe_next hp x"
      using el in_set_butlastD by fast
    show "\<forall>x \<in> set xs. tqe_prev hp' x = tqe_prev hp x" using el by blast
  qed
  moreover have "load_loc hp' (loc_after h xs) = Some Null"
  proof (cases "xs = []")
    case True
    then show ?thesis using n fh by simp
  next
    case False
    then have "tqe_next hp' (last xs) = tqe_next hp (last xs)" using el last_in_set by blast
    then show ?thesis using n False by (simp add: loc_after_def)
  qed
  ultimately show ?thesis using d l lh unfolding tq_rep_snoc_view by simp
qed

lemma tq_repI:
  assumes "distinct (as @ e # bs)" and "tq_chain hp (HeadFirst h) as (loc_after h as)"
    and "load_loc hp (loc_after h as) = Some (Ptr e)" and "tqe_prev hp e = loc_after h as"
    and "tq_chain hp (ElemNext e) bs (tqh_last hp h)" and "load_loc hp (tqh_last hp h) = Some Null"
  shows "tq_rep hp h (as @ e # bs)"
  unfolding tq_rep_def tq_chain_split tq_chain.simps using assms by blast

lemma loc_after_neq:
  assumes "distinct (as @ bs)" and "bs \<noteq> []"
  shows "loc_after h (as @ bs) \<noteq> loc_after h as"
proof (cases "as = []")
  case False
  have "last as \<in> set as" "last bs \<in> set bs" using False assms(2) by auto
  then have "last as \<noteq> last bs" using assms(1) by (auto simp del: last_in_set)
  then show ?thesis using assms False by (auto simp: loc_after_def)
qed (use assms in \<open>auto simp: loc_after_def\<close>)

section \<open>The macros implement list operations\<close>

lemma tq_rep_INIT: "tq_rep (TAILQ_INIT h hp) h []"
  by (simp add: tq_rep_def TAILQ_INIT_def load_loc_def)

lemma tq_rep_EMPTY: "tq_rep hp h xs \<Longrightarrow> TAILQ_EMPTY hp h \<longleftrightarrow> xs = []"
  by (cases xs) (auto simp: tq_rep_snoc_view TAILQ_EMPTY_def load_loc_def loc_after_def)

lemma tq_rep_FIRST:
  "tq_rep hp h xs \<Longrightarrow> TAILQ_FIRST hp h = (case xs of [] \<Rightarrow> Null | x # _ \<Rightarrow> Ptr x)"
  by (cases xs) (auto simp: tq_rep_snoc_view TAILQ_FIRST_def load_loc_def loc_after_def)

lemma tq_rep_NEXT:
  assumes "tq_rep hp h (as @ x # bs)"
  shows "TAILQ_NEXT hp x = (case bs of [] \<Rightarrow> Null | b # _ \<Rightarrow> Ptr b)"
  using assms unfolding tq_rep_snoc_view TAILQ_NEXT_def
  by (cases bs) (auto simp: tq_chain_append loc_after_def load_loc_def)

lemma tq_rep_LAST:
  assumes "tq_rep hp h xs"
  shows "TAILQ_LAST hp h = Some (if xs = [] then Null else Ptr (last xs))"
proof (cases xs rule: rev_cases)
  case Nil
  then show ?thesis
    using assms
    by (simp add: tq_rep_snoc_view TAILQ_LAST_def second_field_def load_loc_def loc_after_def)
next
  case (snoc ys z)
  then show ?thesis
    using assms by (auto simp: tq_rep_snoc_view TAILQ_LAST_def second_field_def tq_chain_append
        loc_after_def)
qed

lemma tq_walk_chain:
  "tq_chain hp l xs r \<Longrightarrow> load_loc hp r = Some Null \<Longrightarrow> load_loc hp l = Some p \<Longrightarrow> length xs \<le> n \<Longrightarrow>
    tq_walk n hp p = Some xs"
proof (induction xs arbitrary: l p n)
  case Nil
  then show ?case by simp
next
  case (Cons x xs)
  obtain m where n: "n = Suc m" using Cons.prems(4) by (cases n) auto
  have p: "p = Ptr x" using Cons.prems(1,3) by simp
  have "tq_walk m hp (tqe_next hp x) = Some xs"
    using Cons.prems n by (intro Cons.IH [of "ElemNext x"]) auto
  then show ?case unfolding n p by (simp add: TAILQ_NEXT_def)
qed

lemma tq_rep_FOREACH:
  "tq_rep hp h xs \<Longrightarrow> length xs \<le> n \<Longrightarrow> TAILQ_FOREACH n hp h = Some xs"
  unfolding TAILQ_FOREACH_def TAILQ_FIRST_def tq_rep_def
  by (rule tq_walk_chain) (auto simp: load_loc_def)

text \<open>
  Updates that stay inside the fields of the head \<open>h\<close> and of the elements \<open>E\<close>.
\<close>

definition tq_only :: "nat set \<Rightarrow> nat set \<Rightarrow> tqheap \<Rightarrow> tqheap \<Rightarrow> bool" where
  "tq_only H E hp hp' \<longleftrightarrow>
     (\<forall>h. h \<notin> H \<longrightarrow> tqh_first hp' h = tqh_first hp h \<and> tqh_last hp' h = tqh_last hp h) \<and>
     (\<forall>e. e \<notin> E \<longrightarrow> tqe_next hp' e = tqe_next hp e \<and> tqe_prev hp' e = tqe_prev hp e)"

lemma tq_only_frame:
  "tq_only H E hp hp' \<Longrightarrow> tq_rep hp h xs \<Longrightarrow> h \<notin> H \<Longrightarrow> set xs \<inter> E = {} \<Longrightarrow> tq_rep hp' h xs"
  by (rule tq_rep_frame) (auto simp: tq_only_def)

lemma tq_INSERT_TAIL:
  assumes "tq_rep hp h xs" and "e \<notin> set xs"
  shows "\<exists>hp'. TAILQ_INSERT_TAIL h e hp = Some hp' \<and> tq_rep hp' h (xs @ [e])
           \<and> tq_only {h} (insert e (set xs)) hp hp'"
proof -
  let ?l = "loc_after h xs"
  let ?hp2 = "hp\<lparr>tqe_next := (tqe_next hp)(e := Null), tqe_prev := (tqe_prev hp)(e := ?l)\<rparr>"
  let ?hp' = "(put_loc ?hp2 ?l (Ptr e))\<lparr>tqh_last := (tqh_last hp)(h := ElemNext e)\<rparr>"
  have last: "tqh_last hp h = ?l" using assms(1) by (rule tq_rep_last)
  then have r: "TAILQ_INSERT_TAIL h e hp = Some ?hp'"
    by (simp add: TAILQ_INSERT_TAIL_def)
  let ?hp1 = "hp\<lparr>tqe_next := (tqe_next hp)(e := Null)\<rparr>"
  have "tq_chain hp (HeadFirst h) xs ?l"
    using assms(1) unfolding tq_rep_snoc_view by blast
  then have "tq_chain ?hp1 (HeadFirst h) xs ?l"
    using assms(2) by (simp add: tq_chain_next_upd)
  then have "tq_chain ?hp2 (HeadFirst h) xs ?l"
    using assms(2) tq_chain_prev_upd [of e xs ?hp1 ?l] by simp
  then have "tq_chain (put_loc ?hp2 ?l (Ptr e)) (HeadFirst h) xs ?l"
    using assms(1) by (intro tq_chain_put) (auto simp: tq_rep_def)
  then have "tq_rep ?hp' h (xs @ e # [])"
    using assms by (intro tq_repI) (auto simp: tq_rep_def)
  moreover have "tq_only {h} (insert e (set xs)) hp ?hp'"
    by (auto simp: tq_only_def)
  ultimately show ?thesis using r by auto
qed

lemma tq_REMOVE:
  assumes "tq_rep hp h (as @ e # bs)"
  shows "\<exists>hp'. TAILQ_REMOVE h e hp = Some hp' \<and> tq_rep hp' h (as @ bs)
           \<and> tq_only {h} (set (as @ e # bs)) hp hp'"
proof -
  let ?m = "loc_after h as"
  have d: "distinct (as @ e # bs)" and ca: "tq_chain hp (HeadFirst h) as ?m"
    and pe: "tqe_prev hp e = ?m" and cb: "tq_chain hp (ElemNext e) bs (tqh_last hp h)"
    and n: "load_loc hp (tqh_last hp h) = Some Null"
    using assms by (auto simp: tq_rep_def tq_chain_split)
  have l: "tqh_last hp h = loc_after h (as @ e # bs)" using assms by (rule tq_rep_last)
  have nx: "tqe_next hp e = (case bs of [] \<Rightarrow> Null | b # _ \<Rightarrow> Ptr b)"
    using tq_rep_NEXT [OF assms] by (simp add: TAILQ_NEXT_def)
  show ?thesis
  proof (cases bs)
    case Nil
    let ?hp' = "put_loc (hp\<lparr>tqh_last := (tqh_last hp)(h := ?m)\<rparr>) ?m Null"
    have r: "TAILQ_REMOVE h e hp = Some ?hp'"
      using nx pe Nil by (simp add: TAILQ_REMOVE_def)
    have "tq_rep ?hp' h (as @ bs)"
      using Nil d ca by (simp add: tq_rep_snoc_view tq_chain_put)
    moreover have "tq_only {h} (set (as @ e # bs)) hp ?hp'"
      by (auto simp: tq_only_def)
    ultimately show ?thesis using r by blast
  next
    case (Cons b bs')
    let ?hp1 = "hp\<lparr>tqe_prev := (tqe_prev hp)(b := ?m)\<rparr>"
    let ?hp' = "put_loc ?hp1 ?m (Ptr b)"
    have "b \<noteq> e" using d Cons by auto
    then have r: "TAILQ_REMOVE h e hp = Some ?hp'"
      using nx pe Cons by (simp add: TAILQ_REMOVE_def)
    have "tq_chain ?hp1 (HeadFirst h) as ?m"
      using ca d Cons by (simp add: tq_chain_prev_upd)
    then have "tq_chain ?hp' (HeadFirst h) as ?m"
      using d by (intro tq_chain_put) auto
    moreover have "tq_chain ?hp' (ElemNext b) bs' (tqh_last hp h)"
      using cb d Cons by (intro tq_chain_put_disjoint) (auto simp: tq_chain_prev_upd)
    moreover have "load_loc ?hp' (tqh_last hp h) = Some Null"
      using n l loc_after_neq [OF d] by simp
    ultimately have "tq_rep ?hp' h (as @ b # bs')"
      using d Cons by (intro tq_repI) simp_all
    then have "tq_rep ?hp' h (as @ bs)" using Cons by simp
    moreover have "tq_only {h} (set (as @ e # bs)) hp ?hp'"
      using Cons by (auto simp: tq_only_def)
    ultimately show ?thesis using r by blast
  qed
qed

lemma tq_CONCAT:
  assumes "tq_rep hp h xs" and "tq_rep hp k ys" and "h \<noteq> k" and "set xs \<inter> set ys = {}"
  shows "\<exists>hp'. TAILQ_CONCAT h k hp = Some hp' \<and> tq_rep hp' h (xs @ ys) \<and> tq_rep hp' k []
           \<and> tq_only {h, k} (set xs \<union> set ys) hp hp'"
proof (cases ys)
  case Nil
  then show ?thesis using assms tq_rep_EMPTY [OF assms(2)]
    by (auto simp: TAILQ_CONCAT_def tq_only_def)
next
  case (Cons y ys')
  let ?l = "loc_after h xs"
  let ?hp1 = "put_loc hp ?l (Ptr y)"
  let ?hp2 = "?hp1\<lparr>tqe_prev := (tqe_prev hp)(y := ?l)\<rparr>"
  let ?hp3 = "?hp2\<lparr>tqh_last := (tqh_last hp)(h := tqh_last hp k)\<rparr>"
  let ?hp' = "TAILQ_INIT k ?hp3"
  have f: "tqh_first hp k = Ptr y" and lh: "tqh_last hp h = ?l"
    and lk: "tqh_last hp k = loc_after k ys" and dx: "distinct xs" and dy: "distinct ys"
    and cx: "tq_chain hp (HeadFirst h) xs ?l" and cy: "tq_chain hp (ElemNext y) ys' (tqh_last hp k)"
    and n: "load_loc hp (tqh_last hp k) = Some Null"
    using assms(1,2) tq_rep_last [OF assms(1)] tq_rep_last [OF assms(2)] Cons
    by (auto simp: tq_rep_def)
  have lk': "tqh_last hp k = ElemNext (last ys)" using lk Cons by (simp add: loc_after_def)
  have r: "TAILQ_CONCAT h k hp = Some ?hp'"
    using f lh assms(3) by (simp add: TAILQ_CONCAT_def TAILQ_EMPTY_def)
  have dis: "y \<notin> set xs" "\<forall>x \<in> set ys. x \<notin> set xs" using assms(4) Cons by auto
  have "tq_chain ?hp2 (HeadFirst h) xs ?l"
    using cx dx dis(1) tq_chain_prev_upd [of y xs ?hp1 ?l] by (simp add: tq_chain_put)
  moreover have "tq_chain ?hp2 (ElemNext y) ys' (tqh_last hp k)"
    using cy dy dis Cons tq_chain_prev_upd [of y ys' ?hp1 ?l]
    by (simp add: tq_chain_put_disjoint)
  moreover have "load_loc ?hp2 (tqh_last hp k) = Some Null"
    using n lk' dis(2) last_in_set [of ys] last_in_set [of xs] Cons by auto
  ultimately have "tq_rep ?hp3 h (xs @ ys)"
    using dx dy assms(4) Cons by (simp add: tq_rep_def tq_chain_split)
  then have "tq_rep ?hp' h (xs @ ys)"
    by (rule tq_rep_frame) (use assms(3) in \<open>auto simp: TAILQ_INIT_def\<close>)
  moreover have "tq_only {h, k} (set xs \<union> set ys) hp ?hp'"
    using Cons by (auto simp: tq_only_def TAILQ_INIT_def)
  ultimately show ?thesis using r tq_rep_INIT by blast
qed

lemma tq_INSERT_BEFORE:
  assumes rep: "tq_rep hp h (as @ y # bs)" and e: "e \<notin> set (as @ y # bs)"
  shows "\<exists>hp'. TAILQ_INSERT_BEFORE y e hp = Some hp' \<and> tq_rep hp' h (as @ e # y # bs)
           \<and> tq_only {h} (insert e (set (as @ y # bs))) hp hp'"
proof -
  let ?m = "loc_after h as"
  let ?hp1 = "hp\<lparr>tqe_next := (tqe_next hp)(e := Ptr y)\<rparr>"
  let ?hp2 = "?hp1\<lparr>tqe_prev := (tqe_prev hp)(e := ?m)\<rparr>"
  let ?hp3 = "put_loc ?hp2 ?m (Ptr e)"
  let ?hp' = "?hp3\<lparr>tqe_prev := (tqe_prev ?hp2)(y := ElemNext e)\<rparr>"
  have d: "distinct (as @ y # bs)" and ca: "tq_chain hp (HeadFirst h) as ?m"
    and py: "tqe_prev hp y = ?m" and cb: "tq_chain hp (ElemNext y) bs (tqh_last hp h)"
    and n: "load_loc hp (tqh_last hp h) = Some Null"
    using rep by (auto simp: tq_rep_def tq_chain_split)
  have l: "tqh_last hp h = loc_after h (as @ y # bs)" using rep by (rule tq_rep_last)
  have ne: "e \<noteq> y" "e \<notin> set as" "e \<notin> set bs" "y \<notin> set as" "y \<notin> set bs"
    "\<forall>x \<in> set (y # bs). x \<notin> set as" using d e by auto
  have r: "TAILQ_INSERT_BEFORE y e hp = Some ?hp'"
    using py ne(1) by (cases "as = []") (simp_all add: TAILQ_INSERT_BEFORE_def put_loc_def loc_after_def store_loc_def)
  have "tq_chain ?hp2 (HeadFirst h) as ?m"
    using ca ne tq_chain_prev_upd [of e as ?hp1 ?m] by (simp add: tq_chain_next_upd)
  then have "tq_chain ?hp3 (HeadFirst h) as ?m" using d by (intro tq_chain_put) auto
  then have "tq_chain ?hp' (HeadFirst h) as ?m"
    using ne tq_chain_prev_upd [of y as ?hp3 "ElemNext e"] by simp
  moreover have "tq_chain ?hp2 (ElemNext y) bs (tqh_last hp h)"
    using cb ne tq_chain_prev_upd [of e bs ?hp1 ?m] by (simp add: tq_chain_next_upd)
  then have "tq_chain ?hp3 (ElemNext y) bs (tqh_last hp h)"
    using ne(6) by (rule tq_chain_put_disjoint)
  then have "tq_chain ?hp' (ElemNext y) bs (tqh_last hp h)"
    using ne tq_chain_prev_upd [of y bs ?hp3 "ElemNext e"] by simp
  moreover have "load_loc ?hp' (tqh_last hp h) = Some Null"
  proof -
    let ?z = "last (y # bs)"
    have z: "?z \<in> set (y # bs)" by (rule last_in_set) simp
    have l': "tqh_last hp h = ElemNext ?z" using l by (simp add: loc_after_def)
    have "?z \<notin> set as" "?z \<noteq> e" using z ne(6) e by auto
    then show ?thesis using n unfolding l' by (simp del: last.simps)
  qed
  ultimately have "tq_rep ?hp' h (as @ e # y # bs)"
    using d ne by (intro tq_repI) auto
  moreover have "tq_only {h} (insert e (set (as @ y # bs))) hp ?hp'"
    by (auto simp: tq_only_def)
  ultimately show ?thesis using r by blast
qed

lemma tq_INSERT_AFTER:
  assumes rep: "tq_rep hp h (as @ y # bs)" and e: "e \<notin> set (as @ y # bs)"
  shows "\<exists>hp'. TAILQ_INSERT_AFTER h y e hp = Some hp' \<and> tq_rep hp' h (as @ y # e # bs)
           \<and> tq_only {h} (insert e (set (as @ y # bs))) hp hp'"
proof (cases bs)
  case Nil
  let ?hp1 = "hp\<lparr>tqe_next := (tqe_next hp)(e := Null)\<rparr>"
  let ?hp' = "hp\<lparr>tqe_next := (tqe_next hp)(e := Null, y := Ptr e), tqh_last := (tqh_last hp)(h := ElemNext e),
                  tqe_prev := (tqe_prev hp)(e := ElemNext y)\<rparr>"
  have "tqe_next hp y = Null" using tq_rep_NEXT [OF rep] Nil by (simp add: TAILQ_NEXT_def)
  moreover have "e \<noteq> y" using e by auto
  ultimately have r: "TAILQ_INSERT_AFTER h y e hp = Some ?hp'"
    by (simp add: TAILQ_INSERT_AFTER_def)
  have l: "tqh_last hp h = ElemNext y" using tq_rep_last [OF rep] Nil by simp
  have "TAILQ_INSERT_TAIL h e hp = Some ?hp'"
    using l \<open>e \<noteq> y\<close> by (simp add: TAILQ_INSERT_TAIL_def store_loc_def fun_upd_twist)
  then show ?thesis using tq_INSERT_TAIL [OF rep e] r Nil by simp
next
  case (Cons b bs')
  let ?hp' = "hp\<lparr>tqe_next := (tqe_next hp)(e := Ptr b, y := Ptr e),
                  tqe_prev := (tqe_prev hp)(b := ElemNext e, e := ElemNext y)\<rparr>"
  have nx: "tqe_next hp y = Ptr b" using tq_rep_NEXT [OF rep] Cons by (simp add: TAILQ_NEXT_def)
  have ne: "e \<noteq> y" "e \<noteq> b" using e Cons by auto
  have r: "TAILQ_INSERT_AFTER h y e hp = Some ?hp'"
    using nx ne by (simp add: TAILQ_INSERT_AFTER_def)
  have rep': "tq_rep hp h ((as @ [y]) @ b # bs')" using rep Cons by simp
  have pb: "tqe_prev hp b = ElemNext y"
    using rep' by (simp add: tq_rep_def tq_chain_append)
  have "TAILQ_INSERT_BEFORE b e hp = Some ?hp'"
    using pb ne by (simp add: TAILQ_INSERT_BEFORE_def store_loc_def fun_upd_twist)
  then show ?thesis using tq_INSERT_BEFORE [OF rep', of e] r e Cons by simp
qed

lemma tq_INSERT_HEAD:
  assumes rep: "tq_rep hp h xs" and e: "e \<notin> set xs"
  shows "\<exists>hp'. TAILQ_INSERT_HEAD h e hp = Some hp' \<and> tq_rep hp' h (e # xs)
           \<and> tq_only {h} (insert e (set xs)) hp hp'"
proof (cases xs)
  case Nil
  have f: "tqh_first hp h = Null" using tq_rep_FIRST [OF rep] Nil by (simp add: TAILQ_FIRST_def)
  have l: "tqh_last hp h = HeadFirst h" using tq_rep_last [OF rep] Nil by simp
  have "TAILQ_INSERT_HEAD h e hp = TAILQ_INSERT_TAIL h e hp"
    using f l by (simp add: TAILQ_INSERT_HEAD_def TAILQ_INSERT_TAIL_def store_loc_def)
  then show ?thesis using tq_INSERT_TAIL [OF rep e] Nil by simp
next
  case (Cons y ys)
  have f: "tqh_first hp h = Ptr y" using tq_rep_FIRST [OF rep] Cons by (simp add: TAILQ_FIRST_def)
  have p: "tqe_prev hp y = HeadFirst h" using rep Cons by (simp add: tq_rep_def)
  have "y \<noteq> e" using e Cons by auto
  then have "TAILQ_INSERT_HEAD h e hp = TAILQ_INSERT_BEFORE y e hp"
    using f p by (simp add: TAILQ_INSERT_HEAD_def TAILQ_INSERT_BEFORE_def store_loc_def fun_upd_twist)
  then show ?thesis using tq_INSERT_BEFORE [of hp h "[]" y ys e] rep e Cons by simp
qed

section \<open>Many queues on one heap\<close>

text \<open>
  The queues of the program live on one heap and hold disjoint sets of elements, since an
  element has a single link field.  \<open>Q\<close> maps each head in use to its list.
\<close>

type_synonym ('h, 'e) queues = "'h \<rightharpoonup> 'e list"

definition unlinked :: "'e \<Rightarrow> ('h, 'e) queues \<Rightarrow> bool" where
  "unlinked e Q \<longleftrightarrow> (\<forall>h xs. Q h = Some xs \<longrightarrow> e \<notin> set xs)"

definition tqs_rep :: "tqheap \<Rightarrow> (nat, nat) queues \<Rightarrow> bool" where
  "tqs_rep hp Q \<longleftrightarrow> (\<forall>h xs. Q h = Some xs \<longrightarrow> tq_rep hp h xs) \<and>
     (\<forall>h k xs ys. Q h = Some xs \<longrightarrow> Q k = Some ys \<longrightarrow> h \<noteq> k \<longrightarrow> set xs \<inter> set ys = {})"

text \<open>One queue operation, on any implementation and on lists.\<close>

datatype ('h, 'e) qcmd =
    InsTail 'h 'e | InsHead 'h 'e | InsBefore 'h 'e 'e | InsAfter 'h 'e 'e | Remove 'h 'e | Concat 'h 'h

text \<open>
  The list meaning; it has no result where the macros' contract is broken: an unknown head, an
  element that is already linked somewhere, or the removal of an element that is not linked there.
\<close>

fun list_cmd :: "('h, 'e) qcmd \<Rightarrow> ('h, 'e) queues \<Rightarrow> ('h, 'e) queues option" where
  "list_cmd (InsTail h e) Q = (case Q h of None \<Rightarrow> None
     | Some xs \<Rightarrow> if unlinked e Q then Some (Q(h \<mapsto> xs @ [e])) else None)"
| "list_cmd (InsHead h e) Q = (case Q h of None \<Rightarrow> None
     | Some xs \<Rightarrow> if unlinked e Q then Some (Q(h \<mapsto> e # xs)) else None)"
| "list_cmd (InsBefore h y e) Q = (case Q h of None \<Rightarrow> None
     | Some xs \<Rightarrow> if unlinked e Q \<and> y \<in> set xs
         then Some (Q(h \<mapsto> takeWhile (\<lambda>x. x \<noteq> y) xs @ e # dropWhile (\<lambda>x. x \<noteq> y) xs)) else None)"
| "list_cmd (InsAfter h y e) Q = (case Q h of None \<Rightarrow> None
     | Some xs \<Rightarrow> if unlinked e Q \<and> y \<in> set xs
         then Some (Q(h \<mapsto> takeWhile (\<lambda>x. x \<noteq> y) xs @ y # e # tl (dropWhile (\<lambda>x. x \<noteq> y) xs)))
         else None)"
| "list_cmd (Remove h e) Q = (case Q h of None \<Rightarrow> None
     | Some xs \<Rightarrow> if e \<in> set xs then Some (Q(h \<mapsto> remove1 e xs)) else None)"
| "list_cmd (Concat h k) Q = (case (Q h, Q k) of
       (Some xs, Some ys) \<Rightarrow> if h \<noteq> k then Some (Q(h \<mapsto> xs @ ys, k \<mapsto> [])) else None
     | _ \<Rightarrow> None)"

fun list_cmds :: "('h, 'e) qcmd list \<Rightarrow> ('h, 'e) queues \<Rightarrow> ('h, 'e) queues option" where
  "list_cmds [] Q = Some Q"
| "list_cmds (c # cs) Q = (case list_cmd c Q of None \<Rightarrow> None | Some Q' \<Rightarrow> list_cmds cs Q')"

fun tq_cmd :: "(nat, nat) qcmd \<Rightarrow> tqheap \<Rightarrow> tqheap option" where
  "tq_cmd (InsTail h e) hp = TAILQ_INSERT_TAIL h e hp"
| "tq_cmd (InsHead h e) hp = TAILQ_INSERT_HEAD h e hp"
| "tq_cmd (InsBefore h y e) hp = TAILQ_INSERT_BEFORE y e hp"
| "tq_cmd (InsAfter h y e) hp = TAILQ_INSERT_AFTER h y e hp"
| "tq_cmd (Remove h e) hp = TAILQ_REMOVE h e hp"
| "tq_cmd (Concat h k) hp = TAILQ_CONCAT h k hp"

fun run_cmds :: "('c \<Rightarrow> 'heap \<Rightarrow> 'heap option) \<Rightarrow> 'c list \<Rightarrow> 'heap \<Rightarrow> 'heap option" where
  "run_cmds f [] hp = Some hp"
| "run_cmds f (c # cs) hp = (case f c hp of None \<Rightarrow> None | Some hp' \<Rightarrow> run_cmds f cs hp')"

text \<open>
  The contract of an implementation of linked queues: every operation that is meaningful on the
  lists succeeds on the heap and keeps the representation.
\<close>

locale linked_queues =
  fixes rep :: "'heap \<Rightarrow> ('h, 'e) queues \<Rightarrow> bool"
    and cmd :: "('h, 'e) qcmd \<Rightarrow> 'heap \<Rightarrow> 'heap option"
    and first :: "'heap \<Rightarrow> 'h \<Rightarrow> 'e option"
    and walk :: "nat \<Rightarrow> 'heap \<Rightarrow> 'h \<Rightarrow> 'e list option"
  assumes cmd_sim: "rep hp Q \<Longrightarrow> list_cmd c Q = Some Q' \<Longrightarrow> \<exists>hp'. cmd c hp = Some hp' \<and> rep hp' Q'"
    and first_rep: "rep hp Q \<Longrightarrow> Q h = Some xs \<Longrightarrow> first hp h = (if xs = [] then None else Some (hd xs))"
    and walk_rep: "rep hp Q \<Longrightarrow> Q h = Some xs \<Longrightarrow> length xs \<le> n \<Longrightarrow> walk n hp h = Some xs"
begin

lemma run_sim:
  "rep hp Q \<Longrightarrow> list_cmds cs Q = Some Q' \<Longrightarrow> \<exists>hp'. run_cmds cmd cs hp = Some hp' \<and> rep hp' Q'"
proof (induction cs arbitrary: hp Q)
  case Nil
  then show ?case by simp
next
  case (Cons c cs)
  then obtain Q1 where "list_cmd c Q = Some Q1" "list_cmds cs Q1 = Some Q'"
    by (auto split: option.splits)
  then show ?case using Cons.IH [of _ Q1] cmd_sim [OF Cons.prems(1)] by fastforce
qed

text \<open>A queue filled at the tail is read back in the order of insertion.\<close>

lemma fifo_cmds:
  "Q h = Some xs \<Longrightarrow> distinct es \<Longrightarrow> (\<forall>e \<in> set es. unlinked e Q) \<Longrightarrow>
    list_cmds (map (InsTail h) es) Q = Some (Q(h \<mapsto> xs @ es))"
proof (induction es arbitrary: Q xs)
  case Nil
  then show ?case by (simp add: fun_upd_idem)
next
  case (Cons e es)
  have "list_cmds (map (InsTail h) es) (Q(h \<mapsto> xs @ [e])) = Some (Q(h \<mapsto> xs @ [e], h \<mapsto> (xs @ [e]) @ es))"
    using Cons.prems by (intro Cons.IH) (auto simp: unlinked_def)
  then show ?case using Cons.prems by (auto simp: fun_eq_iff)
qed

lemma fifo:
  assumes "rep hp Q" and "Q h = Some xs" and "distinct es" and "\<forall>e \<in> set es. unlinked e Q"
  shows "\<exists>hp'. run_cmds cmd (map (InsTail h) es) hp = Some hp' \<and>
           walk (length (xs @ es)) hp' h = Some (xs @ es)"
proof -
  obtain hp' where "run_cmds cmd (map (InsTail h) es) hp = Some hp'" "rep hp' (Q(h \<mapsto> xs @ es))"
    using run_sim [OF assms(1) fifo_cmds [OF assms(2-4)]] by blast
  then show ?thesis using walk_rep [of hp' _ h "xs @ es"] by simp
qed

end

section \<open>The macros implement linked queues\<close>

lemma tqs_repD:
  "tqs_rep hp Q \<Longrightarrow> Q h = Some xs \<Longrightarrow> tq_rep hp h xs"
  "tqs_rep hp Q \<Longrightarrow> Q h = Some xs \<Longrightarrow> Q k = Some ys \<Longrightarrow> h \<noteq> k \<Longrightarrow> set xs \<inter> set ys = {}"
  unfolding tqs_rep_def by blast+

text \<open>
  A single-queue operation lifts to the whole heap: it stays inside its queue and an element
  that is linked nowhere.
\<close>

lemma tqs_rep_upd:
  assumes rep: "tqs_rep hp Q" and h: "Q h = Some xs" and new: "tq_rep hp' h ys"
    and only: "tq_only {h} E hp hp'" and E: "\<forall>e \<in> E. e \<in> set xs \<or> unlinked e Q"
    and ys: "set ys \<subseteq> E"
  shows "tqs_rep hp' (Q(h \<mapsto> ys))"
proof -
  have dis: "set zs \<inter> E = {}" if "Q k = Some zs" "k \<noteq> h" for k zs
    using E tqs_repD(2) [OF rep h that(1)] that unfolding unlinked_def by fastforce
  have "tq_rep hp' k zs" if "(Q(h \<mapsto> ys)) k = Some zs" for k zs
  proof (cases "k = h")
    case True
    then show ?thesis using that new by simp
  next
    case False
    then show ?thesis
      using that tq_only_frame [OF only] tqs_repD(1) [OF rep] dis by simp
  qed
  moreover have "set zs \<inter> set ws = {}"
    if "(Q(h \<mapsto> ys)) k = Some zs" "(Q(h \<mapsto> ys)) l = Some ws" "k \<noteq> l" for k l zs ws
    using that ys dis tqs_repD(2) [OF rep] by (fastforce split: if_splits)
  ultimately show ?thesis unfolding tqs_rep_def by blast
qed

lemma split_at_elem:
  assumes "y \<in> set xs"
  shows "xs = takeWhile (\<lambda>x. x \<noteq> y) xs @ y # tl (dropWhile (\<lambda>x. x \<noteq> y) xs)"
proof -
  have "dropWhile (\<lambda>x. x \<noteq> y) xs \<noteq> []" using assms by (simp add: dropWhile_eq_Nil_conv)
  moreover from this have "hd (dropWhile (\<lambda>x. x \<noteq> y) xs) = y" using hd_dropWhile by blast
  ultimately show ?thesis by (metis list.collapse takeWhile_dropWhile_id)
qed

lemma tqs_INSERT_TAIL:
  assumes "tqs_rep hp Q" and "Q h = Some xs" and "unlinked e Q"
  shows "\<exists>hp'. TAILQ_INSERT_TAIL h e hp = Some hp' \<and> tqs_rep hp' (Q(h \<mapsto> xs @ [e]))"
proof -
  have "e \<notin> set xs" using assms by (auto simp: unlinked_def)
  then obtain hp' where "TAILQ_INSERT_TAIL h e hp = Some hp'" "tq_rep hp' h (xs @ [e])"
    "tq_only {h} (insert e (set xs)) hp hp'" using tq_INSERT_TAIL tqs_repD(1) [OF assms(1,2)] by blast
  then show ?thesis using tqs_rep_upd [OF assms(1,2)] assms(3) by fastforce
qed

lemma tqs_INSERT_HEAD:
  assumes "tqs_rep hp Q" and "Q h = Some xs" and "unlinked e Q"
  shows "\<exists>hp'. TAILQ_INSERT_HEAD h e hp = Some hp' \<and> tqs_rep hp' (Q(h \<mapsto> e # xs))"
proof -
  have "e \<notin> set xs" using assms by (auto simp: unlinked_def)
  then obtain hp' where "TAILQ_INSERT_HEAD h e hp = Some hp'" "tq_rep hp' h (e # xs)"
    "tq_only {h} (insert e (set xs)) hp hp'" using tq_INSERT_HEAD tqs_repD(1) [OF assms(1,2)] by blast
  then show ?thesis using tqs_rep_upd [OF assms(1,2)] assms(3) by fastforce
qed

lemma tqs_INSERT_BEFORE:
  assumes "tqs_rep hp Q" and "Q h = Some (as @ y # bs)" and "unlinked e Q"
  shows "\<exists>hp'. TAILQ_INSERT_BEFORE y e hp = Some hp' \<and> tqs_rep hp' (Q(h \<mapsto> as @ e # y # bs))"
proof -
  have "e \<notin> set (as @ y # bs)" using assms(2,3) unfolding unlinked_def by blast
  then obtain hp' where "TAILQ_INSERT_BEFORE y e hp = Some hp'" "tq_rep hp' h (as @ e # y # bs)"
    "tq_only {h} (insert e (set (as @ y # bs))) hp hp'"
    using tq_INSERT_BEFORE tqs_repD(1) [OF assms(1,2)] by blast
  then show ?thesis using tqs_rep_upd [OF assms(1,2)] assms(3) by fastforce
qed

lemma tqs_INSERT_AFTER:
  assumes "tqs_rep hp Q" and "Q h = Some (as @ y # bs)" and "unlinked e Q"
  shows "\<exists>hp'. TAILQ_INSERT_AFTER h y e hp = Some hp' \<and> tqs_rep hp' (Q(h \<mapsto> as @ y # e # bs))"
proof -
  have "e \<notin> set (as @ y # bs)" using assms(2,3) unfolding unlinked_def by blast
  then obtain hp' where "TAILQ_INSERT_AFTER h y e hp = Some hp'" "tq_rep hp' h (as @ y # e # bs)"
    "tq_only {h} (insert e (set (as @ y # bs))) hp hp'"
    using tq_INSERT_AFTER tqs_repD(1) [OF assms(1,2)] by blast
  then show ?thesis using tqs_rep_upd [OF assms(1,2)] assms(3) by fastforce
qed

lemma tqs_REMOVE:
  assumes "tqs_rep hp Q" and "Q h = Some xs" and "e \<in> set xs"
  shows "\<exists>hp'. TAILQ_REMOVE h e hp = Some hp' \<and> tqs_rep hp' (Q(h \<mapsto> remove1 e xs))"
proof -
  obtain as bs where xs: "xs = as @ e # bs" and r: "remove1 e xs = as @ bs"
    using assms(3) by (metis in_set_remove1 remove1.simps(2) remove1_append split_list_first)
  obtain hp' where "TAILQ_REMOVE h e hp = Some hp'" "tq_rep hp' h (as @ bs)"
    "tq_only {h} (set (as @ e # bs)) hp hp'"
    using tq_REMOVE tqs_repD(1) [OF assms(1,2)] xs by blast
  then show ?thesis using tqs_rep_upd [OF assms(1,2)] xs r by fastforce
qed

lemma tqs_CONCAT:
  assumes rep: "tqs_rep hp Q" and h: "Q h = Some xs" and k: "Q k = Some ys" and hk: "h \<noteq> k"
  shows "\<exists>hp'. TAILQ_CONCAT h k hp = Some hp' \<and> tqs_rep hp' (Q(h \<mapsto> xs @ ys, k \<mapsto> []))"
proof -
  obtain hp' where c: "TAILQ_CONCAT h k hp = Some hp'" and a: "tq_rep hp' h (xs @ ys)"
    and b: "tq_rep hp' k []" and only: "tq_only {h, k} (set xs \<union> set ys) hp hp'"
    using tq_CONCAT tqs_repD [OF rep] h k hk by metis
  let ?Q = "Q(h \<mapsto> xs @ ys, k \<mapsto> [])"
  have dis: "set zs \<inter> (set xs \<union> set ys) = {}" if "Q l = Some zs" "l \<noteq> h" "l \<noteq> k" for l zs
    using tqs_repD(2) [OF rep that(1)] h k that by blast
  have "tq_rep hp' l zs" if "?Q l = Some zs" for l zs
    using that a b tq_only_frame [OF only] tqs_repD(1) [OF rep] dis by (auto split: if_splits)
  moreover have "set zs \<inter> set ws = {}" if "?Q i = Some zs" "?Q j = Some ws" "i \<noteq> j" for i j zs ws
    using that dis tqs_repD(2) [OF rep] by (fastforce split: if_splits)
  ultimately show ?thesis using c unfolding tqs_rep_def by blast
qed

lemma tq_cmd_sim:
  assumes rep: "tqs_rep hp Q" and step: "list_cmd c Q = Some Q'"
  shows "\<exists>hp'. tq_cmd c hp = Some hp' \<and> tqs_rep hp' Q'"
proof (cases c)
  case (InsTail h e)
  then show ?thesis using tqs_INSERT_TAIL [OF rep] step by (auto split: option.splits if_splits)
next
  case (InsHead h e)
  then show ?thesis using tqs_INSERT_HEAD [OF rep] step by (auto split: option.splits if_splits)
next
  case (InsBefore h y e)
  then obtain xs where xs: "Q h = Some xs" "unlinked e Q" "y \<in> set xs"
    and Q': "Q' = Q(h \<mapsto> takeWhile (\<lambda>x. x \<noteq> y) xs @ e # dropWhile (\<lambda>x. x \<noteq> y) xs)"
    using step by (auto split: option.splits if_splits)
  have d: "dropWhile (\<lambda>x. x \<noteq> y) xs = y # tl (dropWhile (\<lambda>x. x \<noteq> y) xs)"
    using split_at_elem [OF xs(3)] takeWhile_dropWhile_id same_append_eq by metis
  show ?thesis using tqs_INSERT_BEFORE [OF rep _ xs(2)] xs(1) split_at_elem [OF xs(3)] d Q' InsBefore
    by (metis tq_cmd.simps(3))
next
  case (InsAfter h y e)
  then obtain xs where xs: "Q h = Some xs" "unlinked e Q" "y \<in> set xs"
    and Q': "Q' = Q(h \<mapsto> takeWhile (\<lambda>x. x \<noteq> y) xs @ y # e # tl (dropWhile (\<lambda>x. x \<noteq> y) xs))"
    using step by (auto split: option.splits if_splits)
  show ?thesis using tqs_INSERT_AFTER [OF rep _ xs(2)] xs(1) split_at_elem [OF xs(3)] Q' InsAfter
    by (metis tq_cmd.simps(4))
next
  case (Remove h e)
  then show ?thesis using tqs_REMOVE [OF rep] step by (auto split: option.splits if_splits)
next
  case (Concat h k)
  then show ?thesis using tqs_CONCAT [OF rep] step by (auto split: option.splits if_splits)
qed

definition tq_first :: "tqheap \<Rightarrow> nat \<Rightarrow> nat option" where
  "tq_first hp h = (case TAILQ_FIRST hp h of Ptr e \<Rightarrow> Some e | _ \<Rightarrow> None)"

interpretation tq: linked_queues tqs_rep tq_cmd tq_first TAILQ_FOREACH
proof
  show "tqs_rep hp Q \<Longrightarrow> list_cmd c Q = Some Q' \<Longrightarrow> \<exists>hp'. tq_cmd c hp = Some hp' \<and> tqs_rep hp' Q'"
    for hp Q c Q' by (rule tq_cmd_sim)
  show "tqs_rep hp Q \<Longrightarrow> Q h = Some xs \<Longrightarrow> tq_first hp h = (if xs = [] then None else Some (hd xs))"
    for hp Q h xs by (cases xs) (simp_all add: tq_first_def tq_rep_FIRST [OF tqs_repD(1)])
  show "tqs_rep hp Q \<Longrightarrow> Q h = Some xs \<Longrightarrow> length xs \<le> n \<Longrightarrow> TAILQ_FOREACH n hp h = Some xs"
    for hp Q h xs n using tqs_repD(1) tq_rep_FOREACH by blast
qed

text \<open>
  C40: the \<^verbatim>\<open>TAILQ\<close> macros refine lists.  Whenever a sequence of insertions (tail, head,
  before, after), removals and concatenations on any number of queues is meaningful on lists,
  the pointer-level macros run it on the shared heap without following an invalid pointer,
  and afterwards every queue is the list the sequence computes: walking it with
  \<^verbatim>\<open>TAILQ_FOREACH\<close> visits exactly those elements in that order.
\<close>

theorem tailq_refines_lists:
  assumes "tqs_rep hp Q" and "list_cmds cs Q = Some Q'"
  shows "\<exists>hp'. run_cmds tq_cmd cs hp = Some hp' \<and> tqs_rep hp' Q' \<and>
           (\<forall>h xs. Q' h = Some xs \<longrightarrow> TAILQ_FOREACH (length xs) hp' h = Some xs)"
  using tq.run_sim [OF assms] tq.walk_rep by blast

definition two_queues :: tqheap where
  "two_queues = TAILQ_INIT 1 (TAILQ_INIT 0
     \<lparr>tqh_first = \<lambda>_. Minus1, tqh_last = \<lambda>_. LNull, tqe_next = \<lambda>_. Minus1, tqe_prev = \<lambda>_. LNull\<rparr>)"

lemma tqs_rep_two_queues: "tqs_rep two_queues [0 \<mapsto> [], 1 \<mapsto> []]"
  by (auto simp: tqs_rep_def two_queues_def tq_rep_def TAILQ_INIT_def split: if_splits)

theorem tailq_refines_lists_witness:
  "\<exists>hp'. run_cmds tq_cmd [InsTail 0 7, InsTail 0 8, InsHead 1 9, InsAfter 1 9 5, Remove 0 7, Concat 0 1]
           two_queues = Some hp' \<and>
     TAILQ_FOREACH 3 hp' 0 = Some [8, 9, 5] \<and> TAILQ_FOREACH 0 hp' 1 = Some []"
proof -
  let ?cs = "[InsTail 0 7, InsTail 0 8, InsHead 1 9, InsAfter 1 9 5, Remove 0 7, Concat 0 1]"
  have "list_cmds ?cs [0 \<mapsto> [], 1 \<mapsto> []] = Some [0 \<mapsto> [8, 9, 5 :: nat], 1 :: nat \<mapsto> []]"
    by (auto simp: unlinked_def fun_eq_iff)
  from tailq_refines_lists [OF tqs_rep_two_queues this] obtain hp'
    where r: "run_cmds tq_cmd ?cs two_queues = Some hp'"
      and w: "\<forall>h xs. [0 \<mapsto> [8, 9, 5], 1 \<mapsto> []] h = Some xs \<longrightarrow> TAILQ_FOREACH (length xs) hp' h = Some xs"
    by blast
  show ?thesis using r w [rule_format, of 0 "[8, 9, 5]"] w [rule_format, of 1 "[]"]
    by (intro exI [of _ hp']) (simp add: numeral_3_eq_3)
qed

end
