(* ===== verification/Conn.thy ===== *)
theory Conn
  imports Prelude
begin

text \<open>
  Connection state and its reference count (\<^verbatim>\<open>include/server.h\<close>), the data layer
  (\<^verbatim>\<open>data.c\<close>), the calls into the protocol module (\<^verbatim>\<open>protocol.c\<close>) and
  \<^verbatim>\<open>conn_state_cleanup\<close> (\<^verbatim>\<open>server.c\<close>).  A freed connection is absent from the
  store, so an access to it has no result.  Calls that leave the program (protocol module,
  libevent, \<^verbatim>\<open>close\<close>) are recorded in a trace; their results are parameters.
\<close>

section \<open>Data\<close>

text \<open>A pointer to data or to a function of a loaded module; \<^const>\<open>None\<close> is \<^verbatim>\<open>NULL\<close>.\<close>

type_synonym ptr = "nat option"

datatype comm_protocol = CSF_TCP | CSF_UDP | CSF_SCTP | CSF_UN

text \<open>The two static operation tables.\<close>

datatype cp_ops = tcp_ops | udp_ops

text \<open>
  \<open>data_sent\<close> and \<open>data_stored\<close> are the offsets of the two pointers into the send buffer;
  an address is an IPv4 address with a port.
\<close>

record conn_info =
  conn_type :: comm_protocol
  fd :: int
  data_buf :: buf
  data_sent :: nat
  data_stored :: nat
  addr :: "u32 \<times> u16"
  addrlen :: u32
  cp_ops_of :: "cp_ops option"

record conn_state =
  ci :: conn_info
  ref_cnt :: u64
  data :: ptr

record proto_config =
  protocol_session_start :: ptr
  protocol_session_entry :: ptr
  protocol_session_end :: ptr
  local_entry :: ptr

datatype event =
    SessionStart nat nat
  | SessionEntry nat ptr ptr buf int
  | SessionEnd nat nat ptr
  | CloseFd int
  | EventDel nat
  | EventAdd nat
  | Responder nat nat ptr int
  | Cleaner nat ptr
  | FreeConn nat
  | FreeRequest nat
  | Broadcast

record world =
  conns :: "nat \<rightharpoonup> conn_state"
  connection_counter :: int
  pc :: proto_config
  trace :: "event list"

definition emit :: "event \<Rightarrow> 'a world_scheme \<Rightarrow> 'a world_scheme" where
  "emit e w = w\<lparr>trace := trace w @ [e]\<rparr>"

section \<open>Reference counting\<close>

definition CS_HOLD :: "nat \<Rightarrow> 'a world_scheme \<Rightarrow> 'a world_scheme option" where
  "CS_HOLD c w = do {
     cs \<leftarrow> conns w c;
     Some (w\<lparr>conns := (conns w)(c \<mapsto> cs\<lparr>ref_cnt := ref_cnt cs + 1\<rparr>)\<rparr>)
   }"

definition CS_RELE :: "nat \<Rightarrow> 'a world_scheme \<Rightarrow> 'a world_scheme option" where
  "CS_RELE c w = do {
     cs \<leftarrow> conns w c;
     let n = ref_cnt cs - 1;
     Some (if n = 0 then emit (FreeConn c) (w\<lparr>conns := (conns w)(c := None)\<rparr>)
           else w\<lparr>conns := (conns w)(c \<mapsto> cs\<lparr>ref_cnt := n\<rparr>)\<rparr>)
   }"

section \<open>The protocol module\<close>

text \<open>
  The functions of the protocol module are named by numbers.  \<open>start\<close> gives the pointer a
  session start returns; \<open>entry\<close> is the effect and the result of a session entry, which may
  submit requests and therefore change the whole state.
\<close>

definition do_protocol_session_start ::
  "(nat \<Rightarrow> nat \<Rightarrow> ptr) \<Rightarrow> nat option \<Rightarrow> 'a world_scheme \<Rightarrow> ptr \<times> 'a world_scheme" where
  "do_protocol_session_start start cip w =
     (case (protocol_session_start (pc w), cip) of
        (Some f, Some c) \<Rightarrow> (start f c, emit (SessionStart f c) w)
      | _ \<Rightarrow> (None, w))"

definition do_protocol_session_entry ::
  "(nat \<Rightarrow> ptr \<Rightarrow> ptr \<Rightarrow> buf \<Rightarrow> int \<Rightarrow> 'a world_scheme \<Rightarrow> int \<times> 'a world_scheme) \<Rightarrow>
   nat option \<Rightarrow> ptr \<Rightarrow> buf \<Rightarrow> int \<Rightarrow> 'a world_scheme \<Rightarrow> int \<times> 'a world_scheme" where
  "do_protocol_session_entry entry csp prot_data bytes len w =
     (case protocol_session_entry (pc w) of
        Some f \<Rightarrow> entry f csp prot_data bytes len (emit (SessionEntry f csp prot_data bytes len) w)
      | None \<Rightarrow> (CSF_OK, w))"

definition do_protocol_session_end :: "nat \<Rightarrow> ptr \<Rightarrow> 'a world_scheme \<Rightarrow> 'a world_scheme" where
  "do_protocol_session_end cip prot_data w =
     (case protocol_session_end (pc w) of
        Some f \<Rightarrow> emit (SessionEnd f cip prot_data) w
      | None \<Rightarrow> w)"

section \<open>The data layer\<close>

definition connection_made ::
  "(nat \<Rightarrow> nat \<Rightarrow> ptr) \<Rightarrow> nat option \<Rightarrow> 'a world_scheme \<Rightarrow> (int \<times> 'a world_scheme) option" where
  "connection_made start csp w = (case csp of
       None \<Rightarrow> Some (CSF_ERR, w)
     | Some c \<Rightarrow> do {
         _ \<leftarrow> conns w c;
         let w1 = w\<lparr>connection_counter := connection_counter w + 1\<rparr>;
         let (d, w2) = do_protocol_session_start start (Some c) w1;
         cs \<leftarrow> conns w2 c;
         Some (CSF_OK, w2\<lparr>conns := (conns w2)(c \<mapsto> cs\<lparr>data := d\<rparr>)\<rparr>)
       })"

text \<open>
  \<^verbatim>\<open>data_received\<close> writes a NUL behind the \<open>len\<close> bytes received, so the buffer has to be
  one byte longer than what was received.
\<close>

definition data_received ::
  "(nat \<Rightarrow> ptr \<Rightarrow> ptr \<Rightarrow> buf \<Rightarrow> int \<Rightarrow> 'a world_scheme \<Rightarrow> int \<times> 'a world_scheme) \<Rightarrow>
   nat option \<Rightarrow> buf option \<Rightarrow> nat \<Rightarrow> 'a world_scheme \<Rightarrow> (int \<times> 'a world_scheme) option" where
  "data_received entry csp dat len w = (case dat of
       None \<Rightarrow> Some (CSF_OK, w)
     | Some b \<Rightarrow> do {
         b' \<leftarrow> wr b len NUL;
         (case csp of
            None \<Rightarrow> Some (do_protocol_session_entry entry None None b' (int len) w)
          | Some c \<Rightarrow> do {
              cs \<leftarrow> conns w c;
              Some (do_protocol_session_entry entry (Some c) (data cs) b' (int len) w)
            })
       })"

definition connection_lost :: "nat option \<Rightarrow> 'a world_scheme \<Rightarrow> (int \<times> 'a world_scheme) option" where
  "connection_lost csp w = (case csp of
       None \<Rightarrow> Some (CSF_OK, w)
     | Some c \<Rightarrow> do {
         cs \<leftarrow> conns w c;
         let w1 = w\<lparr>connection_counter := connection_counter w - 1\<rparr>;
         Some (CSF_OK, do_protocol_session_end c (data cs) w1)
       })"

section \<open>Closing and cleaning up\<close>

text \<open>\<^verbatim>\<open>tcp_conn_close\<close>; a \<^verbatim>\<open>NULL\<close> argument only logs.\<close>

definition tcp_conn_close :: "nat option \<Rightarrow> 'a world_scheme \<Rightarrow> 'a world_scheme option" where
  "tcp_conn_close cip w = (case cip of
       None \<Rightarrow> Some w
     | Some c \<Rightarrow> do {
         cs \<leftarrow> conns w c;
         if conn_type (ci cs) \<noteq> CSF_TCP then Some w
         else Some (emit (CloseFd (fd (ci cs)))
                (w\<lparr>conns := (conns w)(c \<mapsto> cs\<lparr>ci := (ci cs)\<lparr>fd := -1\<rparr>\<rparr>)\<rparr>))
       })"

text \<open>The \<^verbatim>\<open>conn_close\<close> slot of the operation tables; \<^verbatim>\<open>udp_ops\<close> leaves it \<^verbatim>\<open>NULL\<close>.\<close>

definition conn_close ::
  "cp_ops option \<Rightarrow> (nat option \<Rightarrow> 'a world_scheme \<Rightarrow> 'a world_scheme option) option" where
  "conn_close ops = (case ops of Some tcp_ops \<Rightarrow> Some tcp_conn_close | _ \<Rightarrow> None)"

definition conn_state_cleanup :: "nat \<Rightarrow> 'a world_scheme \<Rightarrow> 'a world_scheme option" where
  "conn_state_cleanup c w = do {
     (_, w1) \<leftarrow> connection_lost (Some c) w;
     CS_RELE c (emit (EventDel c) w1)
   }"

section \<open>Properties\<close>

lemma emit_simps [simp]:
  "conns (emit e w) = conns w" "connection_counter (emit e w) = connection_counter w"
  "pc (emit e w) = pc w" "trace (emit e w) = trace w @ [e]"
  by (simp_all add: emit_def)

text \<open>The connection counter follows made and lost connections.\<close>

lemma connection_made_counter:
  "conns w c = Some cs \<Longrightarrow> \<exists>w'. connection_made start (Some c) w = Some (CSF_OK, w') \<and>
     connection_counter w' = connection_counter w + 1 \<and> dom (conns w') = dom (conns w)"
  by (auto simp: connection_made_def do_protocol_session_start_def Let_def split: option.splits)

lemma connection_lost_counter:
  "conns w c = Some cs \<Longrightarrow> \<exists>w'. connection_lost (Some c) w = Some (CSF_OK, w') \<and>
     connection_counter w' = connection_counter w - 1 \<and> conns w' = conns w"
  by (auto simp: connection_lost_def do_protocol_session_end_def Let_def split: option.splits)

text \<open>The effect of the operations on the store of connections.\<close>

lemma CS_RELE_conns:
  assumes "conns w c = Some cs"
  shows "\<exists>w'. CS_RELE c w = Some w' \<and>
     conns w' = (conns w)(c := if ref_cnt cs = 1 then None else Some (cs\<lparr>ref_cnt := ref_cnt cs - 1\<rparr>))"
  using assms by (auto simp: CS_RELE_def Let_def)

lemma CS_HOLD_conns:
  assumes "conns w c = Some cs"
  shows "\<exists>w'. CS_HOLD c w = Some w' \<and> conns w' = (conns w)(c \<mapsto> cs\<lparr>ref_cnt := ref_cnt cs + 1\<rparr>)"
  using assms by (auto simp: CS_HOLD_def)

lemma conn_state_cleanup_conns:
  assumes "conns w c = Some cs"
  shows "\<exists>w'. conn_state_cleanup c w = Some w' \<and>
     conns w' = (conns w)(c := if ref_cnt cs = 1 then None else Some (cs\<lparr>ref_cnt := ref_cnt cs - 1\<rparr>))"
proof -
  obtain w1 where "connection_lost (Some c) w = Some (CSF_OK, w1)" "conns w1 = conns w"
    using connection_lost_counter [OF assms] by blast
  then show ?thesis using CS_RELE_conns [of "emit (EventDel c) w1" c cs] assms
    by (simp add: conn_state_cleanup_def)
qed

lemma tcp_conn_close_conns:
  assumes "conns w c = Some cs"
  shows "\<exists>w' cs'. tcp_conn_close (Some c) w = Some w' \<and> conns w' = (conns w)(c \<mapsto> cs') \<and>
     ref_cnt cs' = ref_cnt cs \<and> data cs' = data cs"
proof (cases "conn_type (ci cs) = CSF_TCP")
  case True
  then show ?thesis using assms by (auto simp: tcp_conn_close_def)
next
  case False
  then show ?thesis using assms
    by (auto simp: tcp_conn_close_def intro!: exI [of _ cs] dest: map_upd_triv [symmetric])
qed

text \<open>
  \<^verbatim>\<open>data_received\<close> stays inside its buffer exactly when the buffer has a byte behind the
  received data, and the protocol module sees those bytes followed by a NUL.
\<close>

definition RECV_DATA_LEN :: nat where "RECV_DATA_LEN = 80 * 1024 - 1"

lemma data_received_terminated:
  assumes "conns w c = Some cs" and "protocol_session_entry (pc w) = Some f"
  shows "data_received entry (Some c) (Some b) len w =
    (if len < length b
     then Some (entry f (Some c) (data cs) (take len b @ NUL # drop (Suc len) b) (int len)
            (emit (SessionEntry f (Some c) (data cs) (take len b @ NUL # drop (Suc len) b) (int len)) w))
     else None)"
  using assms by (simp add: data_received_def wr_def do_protocol_session_entry_def upd_conv_take_nth_drop)

end
