(* ===== verification/Pipeline.thy ===== *)
theory Pipeline
  imports Conn
begin

text \<open>
  The request pipeline: its data (\<^verbatim>\<open>include/pipeline_def.h\<close>), the submission of requests
  (\<^verbatim>\<open>submit_request.c\<close>) and the queues, workers and completion handler of
  \<^verbatim>\<open>pipeline.c\<close>, one definition per function.  A request queue is the list of the
  addresses linked in it (\<^verbatim>\<open>Tailq\<close> shows that the macros implement such lists).  The
  outcome of a \<^verbatim>\<open>pthread_mutex_trylock\<close> and of the other system calls is a parameter.
  An access to a missing object is \<^const>\<open>None\<close>.
\<close>

section \<open>Constants\<close>

definition PIPELINE_SUCCESS :: int where "PIPELINE_SUCCESS = 0"
definition PIPELINE_FAILED :: int where "PIPELINE_FAILED = -1"
definition PIPELINE_CONTINUE :: int where "PIPELINE_CONTINUE = 0"
definition PIPELINE_BREAK :: int where "PIPELINE_BREAK = 1"
definition PIPELINE_REQUEUE :: int where "PIPELINE_REQUEUE = 2"
definition PIPELINE_SIZE :: nat where "PIPELINE_SIZE = 16"
definition MAX_STAGE_JUMP :: u32 where "MAX_STAGE_JUMP = 256"
definition SUBMIT_GENERIC_ERROR :: int where "SUBMIT_GENERIC_ERROR = -1"
definition SUBMIT_QUEUE_FULL :: int where "SUBMIT_QUEUE_FULL = -2"
definition REQUEST_LOOP :: int where "REQUEST_LOOP = -3"
definition RESPONDER_OK :: int where "RESPONDER_OK = 0"
definition RESPONDER_CLEAN :: int where "RESPONDER_CLEAN = 1"
definition RESPONDER_NOT_CLEAN :: int where "RESPONDER_NOT_CLEAN = 2"
definition RESPONDER_DISCONNECT :: int where "RESPONDER_DISCONNECT = 4"
definition RESPONDER_ERROR :: int where "RESPONDER_ERROR = -1"
definition REQUEST_NONE :: u32 where "REQUEST_NONE = 0"
definition REQUEST_FORCE :: u32 where "REQUEST_FORCE = 1"
definition REQUEST_KICK_OUT :: u32 where "REQUEST_KICK_OUT = 2"
definition REQUEST_TIME_OUT :: u32 where "REQUEST_TIME_OUT = 4"

lemmas pipeline_consts = PIPELINE_SUCCESS_def PIPELINE_FAILED_def PIPELINE_CONTINUE_def
  PIPELINE_BREAK_def PIPELINE_REQUEUE_def PIPELINE_SIZE_def MAX_STAGE_JUMP_def
  SUBMIT_GENERIC_ERROR_def SUBMIT_QUEUE_FULL_def REQUEST_LOOP_def
  RESPONDER_OK_def RESPONDER_CLEAN_def RESPONDER_NOT_CLEAN_def RESPONDER_DISCONNECT_def RESPONDER_ERROR_def
  REQUEST_NONE_def REQUEST_FORCE_def REQUEST_KICK_OUT_def REQUEST_TIME_OUT_def

section \<open>Data\<close>

record request =
  request_responder :: ptr
  proctocl_data :: ptr
  data_cleaner :: ptr
  rq_pipeline_id :: u32
  tid :: u64
  nstage :: u32
  clock :: int
  csp :: ptr
  flags :: int
  ret :: int
  err :: int
  cancelled :: u32

record rqcb =
  request_head :: "nat list"
  next_rqcb :: "nat option"
  mod_name :: string
  queue_id :: int
  queue_len :: u32
  thread_num :: u32
  delay :: u32
  request_init :: ptr
  request_deinit :: ptr
  request_handler :: ptr
  rqst_num :: u32
  request_count :: u64

text \<open>
  \<open>aqe_empty\<close>: the \<^verbatim>\<open>active_queue_entry\<close> holds the values that
  \<^verbatim>\<open>TAILQ_ENTRY_INIT\<close> stores, so the block is in no active queue.
\<close>

record pcb =
  counter :: u64
  pipeline_id :: u32
  first_rqcbp :: "nat option"
  aqe_empty :: bool
  tmp_queue_len :: u32
  tmp_request_head :: "nat list"

text \<open>
  The globals of \<^verbatim>\<open>pipeline.c\<close> and \<^verbatim>\<open>submit_request.c\<close>.  The pointers of
  \<^verbatim>\<open>REQUEST_INFO\<close> refer to those globals; its two own values are \<open>ri_queue_size\<close> and
  \<open>ri_timeout\<close>.  \<open>pipe_bytes\<close> is the number of unread bytes in the pipe behind
  \<^verbatim>\<open>done_fd\<close>.
\<close>

record sys = world +
  pipeline_queue_size :: u64
  pipeline_queue_len :: u64
  request_timeout :: int
  pcbs :: "nat \<rightharpoonup> pcb"
  apq :: "nat list"
  rqcbs :: "nat \<rightharpoonup> rqcb"
  done_rqcb :: rqcb
  final_request_head :: "nat list"
  done_signalled :: bool
  pipe_bytes :: nat
  graceful_restart :: bool
  clock_off :: int
  inc :: u64
  ri_queue_size :: u64
  ri_timeout :: int
  requests :: "nat \<rightharpoonup> request"

definition put_rqcb :: "nat \<Rightarrow> rqcb \<Rightarrow> sys \<Rightarrow> sys" where
  "put_rqcb q b s = s\<lparr>rqcbs := (rqcbs s)(q \<mapsto> b)\<rparr>"

definition put_pcb :: "nat \<Rightarrow> pcb \<Rightarrow> sys \<Rightarrow> sys" where
  "put_pcb p c s = s\<lparr>pcbs := (pcbs s)(p \<mapsto> c)\<rparr>"

definition put_request :: "nat \<Rightarrow> request \<Rightarrow> sys \<Rightarrow> sys" where
  "put_request r rq s = s\<lparr>requests := (requests s)(r \<mapsto> rq)\<rparr>"

lemmas put_defs = put_rqcb_def put_pcb_def put_request_def

section \<open>The buffered requests of a pipeline\<close>

text \<open>Move the temporary queue of a pipeline behind the queue of its first stage.\<close>

definition move_buffered :: "nat \<Rightarrow> nat \<Rightarrow> sys \<Rightarrow> sys option" where
  "move_buffered p q s = do {
     c \<leftarrow> pcbs s p;
     b \<leftarrow> rqcbs s q;
     Some (put_pcb p (c\<lparr>tmp_request_head := [], tmp_queue_len := 0\<rparr>)
       (put_rqcb q (b\<lparr>request_head := request_head b @ tmp_request_head c,
                     queue_len := queue_len b + tmp_queue_len c\<rparr>) s))
   }"

text \<open>Unlink a pipeline from the active queue.\<close>

definition apq_remove :: "nat \<Rightarrow> sys \<Rightarrow> sys option" where
  "apq_remove p s = do {
     c \<leftarrow> pcbs s p;
     Some (put_pcb p (c\<lparr>aqe_empty := True\<rparr>) (s\<lparr>apq := remove1 p (apq s)\<rparr>))
   }"

text \<open>One round of \<^verbatim>\<open>kick_request_queue\<close>; \<open>tlk\<close> says whether the trylock succeeds.\<close>

definition kick_one :: "(nat \<Rightarrow> bool) \<Rightarrow> nat \<Rightarrow> sys \<Rightarrow> sys option" where
  "kick_one tlk p s = do {
     c \<leftarrow> pcbs s p;
     if tmp_request_head c = [] then apq_remove p s
     else do {
       q \<leftarrow> first_rqcbp c;
       _ \<leftarrow> rqcbs s q;
       if tlk p then do { s1 \<leftarrow> move_buffered p q s; apq_remove p s1 } else Some s
     }
   }"

fun kick_loop :: "(nat \<Rightarrow> bool) \<Rightarrow> nat list \<Rightarrow> sys \<Rightarrow> sys option" where
  "kick_loop tlk [] s = Some s"
| "kick_loop tlk (p # ps) s = do { s1 \<leftarrow> kick_one tlk p s; kick_loop tlk ps s1 }"

definition kick_request_queue :: "(nat \<Rightarrow> bool) \<Rightarrow> sys \<Rightarrow> sys option" where
  "kick_request_queue tlk s = kick_loop tlk (apq s) s"

section \<open>Submitting a request\<close>

text \<open>The results of the calls that one submission makes.\<close>

record sub_env =
  trylock_ok :: bool
  signal_ok :: bool
  unlock_ok :: bool
  write_ok :: bool

text \<open>Signal the main loop that requests wait for it.\<close>

definition notify_done :: "bool \<Rightarrow> sys \<Rightarrow> sys" where
  "notify_done w s = (if done_signalled s then s
     else s\<lparr>done_signalled := True, pipe_bytes := pipe_bytes s + (if w then 1 else 0)\<rparr>)"

text \<open>\<^verbatim>\<open>REQUEST_KICK_OUT\<close>: the oldest waiting request goes to the final queue.\<close>

definition kick_out :: "nat \<Rightarrow> sys \<Rightarrow> sys option" where
  "kick_out q s = do {
     b \<leftarrow> rqcbs s q;
     r \<leftarrow> (case request_head b of [] \<Rightarrow> None | r # _ \<Rightarrow> Some r);
     rq \<leftarrow> requests s r;
     let s1 = put_request r (rq\<lparr>flags := uint REQUEST_KICK_OUT\<rparr>) s;
     let s2 = put_rqcb q (b\<lparr>request_head := remove1 r (request_head b), queue_len := queue_len b - 1\<rparr>) s1;
     Some (s2\<lparr>pipeline_queue_len := pipeline_queue_len s2 - 1,
             final_request_head := final_request_head s2 @ [r]\<rparr>)
   }"

text \<open>
  \<^verbatim>\<open>REQUEST_TIME_OUT\<close>: every waiting request that is too old goes to the final queue.  The
  result says whether there was one.
\<close>

fun drop_timed_out :: "nat \<Rightarrow> nat list \<Rightarrow> bool \<Rightarrow> sys \<Rightarrow> (bool \<times> sys) option" where
  "drop_timed_out q [] notice s = Some (notice, s)"
| "drop_timed_out q (r # rs) notice s = do {
     rq \<leftarrow> requests s r;
     if clock_off s - clock rq > ri_timeout s then do {
       b \<leftarrow> rqcbs s q;
       let s1 = put_rqcb q (b\<lparr>request_head := remove1 r (request_head b), queue_len := queue_len b - 1\<rparr>) s;
       drop_timed_out q rs True
         (s1\<lparr>pipeline_queue_len := pipeline_queue_len s1 - 1,
            final_request_head := final_request_head s1 @ [r]\<rparr>)
     } else drop_timed_out q rs notice s
   }"

text \<open>
  \<^verbatim>\<open>send_to_pipeline\<close> in the branch where the queue of the first stage is locked: the
  buffered requests go first, then a full queue rejects the request unless it is forced, then
  requests are pushed out, and last the request is appended.
\<close>

definition send_concat :: "nat \<Rightarrow> nat \<Rightarrow> bool \<Rightarrow> sys \<Rightarrow> sys option" where
  "send_concat p q cat s = (if cat then do {
     s' \<leftarrow> move_buffered p q s;
     c \<leftarrow> pcbs s' p;
     if aqe_empty c then Some s' else apq_remove p s'
   } else Some s)"

definition send_push :: "nat \<Rightarrow> u32 \<Rightarrow> sys \<Rightarrow> (bool \<times> sys) option" where
  "send_push q fl s = do {
     b \<leftarrow> rqcbs s q;
     let kick = fl AND REQUEST_FORCE \<noteq> 0 \<and> fl AND REQUEST_KICK_OUT \<noteq> 0
                  \<and> ucast (queue_len b) \<ge> ri_queue_size s;
     s1 \<leftarrow> (if kick then kick_out q s else Some s);
     b1 \<leftarrow> rqcbs s1 q;
     if fl AND REQUEST_TIME_OUT \<noteq> 0 \<and> ri_timeout s1 \<noteq> 0
     then drop_timed_out q (request_head b1) kick s1 else Some (kick, s1)
   }"

definition send_locked :: "sub_env \<Rightarrow> nat \<Rightarrow> nat \<Rightarrow> nat \<Rightarrow> u32 \<Rightarrow> bool \<Rightarrow> sys \<Rightarrow> (int \<times> sys) option" where
  "send_locked env p q r fl cat s = do {
     s1 \<leftarrow> send_concat p q cat s;
     b \<leftarrow> rqcbs s1 q;
     if fl AND REQUEST_FORCE = 0 \<and> ucast (queue_len b) \<ge> ri_queue_size s1
     then Some (SUBMIT_QUEUE_FULL, s1)
     else do {
       (notice, s2) \<leftarrow> send_push q fl s1;
       b2 \<leftarrow> rqcbs s2 q;
       let s3 = put_rqcb q (b2\<lparr>request_head := request_head b2 @ [r], queue_len := queue_len b2 + 1\<rparr>) s2;
       let s4 = s3\<lparr>pipeline_queue_len := pipeline_queue_len s3 + 1\<rparr>;
       if \<not> signal_ok env \<or> \<not> unlock_ok env then Some (SUBMIT_GENERIC_ERROR, s4)
       else Some (0, if notice then notify_done (write_ok env) s4 else s4)
     }
   }"

definition send_to_pipeline ::
  "sub_env \<Rightarrow> nat \<Rightarrow> nat \<Rightarrow> u32 \<Rightarrow> bool \<Rightarrow> sys \<Rightarrow> (int \<times> sys) option" where
  "send_to_pipeline env p r fl cat s = do {
     c \<leftarrow> pcbs s p;
     q \<leftarrow> first_rqcbp c;
     _ \<leftarrow> rqcbs s q;
     if trylock_ok env then send_locked env p q r fl cat s
     else do {
       let c1 = c\<lparr>tmp_request_head := tmp_request_head c @ [r], tmp_queue_len := tmp_queue_len c + 1\<rparr>;
       let s1 = s\<lparr>pipeline_queue_len := pipeline_queue_len s + 1\<rparr>;
       Some (0, if aqe_empty c1
                then put_pcb p (c1\<lparr>aqe_empty := False\<rparr>) (s1\<lparr>apq := apq s1 @ [p]\<rparr>)
                else put_pcb p c1 s1)
     }
   }"

text \<open>
  \<^verbatim>\<open>submit_request\<close>.  \<open>mem\<close> is what \<^verbatim>\<open>smalloc\<close> gives: the address of a block and
  its old contents (blocks are recycled and not cleared), or nothing, in which case the process
  exits.  The fields that the function does not assign keep the old contents.
\<close>

datatype submit_result = Submitted int | ProcessExit

definition new_request :: "request \<Rightarrow> sys \<Rightarrow> ptr \<Rightarrow> ptr \<Rightarrow> ptr \<Rightarrow> request" where
  "new_request blk s dat cleaner responder = blk\<lparr>cancelled := 0, ret := -1, err := 0,
     flags := uint REQUEST_NONE, nstage := 0, clock := clock_off s, proctocl_data := dat,
     data_cleaner := cleaner, request_responder := responder\<rparr>"

definition make_tid :: "u32 \<Rightarrow> u64 \<Rightarrow> u64" where
  "make_tid pid n = push_bit 56 (ucast (pid AND 0x7f)) + n"

definition submit_request ::
  "sub_env \<Rightarrow> (nat \<times> request) option \<Rightarrow> ptr \<Rightarrow> u32 \<Rightarrow> ptr \<Rightarrow> ptr \<Rightarrow> ptr \<Rightarrow> u32 \<Rightarrow> sys \<Rightarrow>
     (submit_result \<times> sys) option" where
  "submit_request env mem p pid dat cleaner responder fl s = (
     if unat pid \<ge> PIPELINE_SIZE then Some (Submitted SUBMIT_GENERIC_ERROR, s)
     else if graceful_restart s then Some (Submitted SUBMIT_GENERIC_ERROR, s)
     else case pcbs s (unat pid) of None \<Rightarrow> Some (Submitted SUBMIT_GENERIC_ERROR, s)
     | Some c \<Rightarrow>
     (case first_rqcbp c of None \<Rightarrow> Some (Submitted SUBMIT_GENERIC_ERROR, s)
     | Some q \<Rightarrow>
       if fl AND REQUEST_FORCE = 0 \<and> pipeline_queue_len s \<ge> ri_queue_size s
       then Some (Submitted SUBMIT_QUEUE_FULL, s)
       else (case mem of None \<Rightarrow> Some (ProcessExit, s)
       | Some (r, blk) \<Rightarrow> do {
           let rq = new_request blk s dat cleaner responder;
           (rq, s) \<leftarrow> (case p of
               Some cs \<Rightarrow> do { s' \<leftarrow> CS_HOLD cs s; Some (rq\<lparr>csp := Some cs\<rparr>, s') }
             | None \<Rightarrow> Some (rq, s));
           let n = inc s + 1;
           let t = make_tid pid n;
           let s1 = put_request r (rq\<lparr>tid := t\<rparr>) (s\<lparr>inc := n\<rparr>);
           (rc, s2) \<leftarrow> send_to_pipeline env (unat pid) r fl (tmp_request_head c \<noteq> []) s1;
           if rc \<noteq> 0 then Some (Submitted SUBMIT_GENERIC_ERROR, s2)
           else do {
             c2 \<leftarrow> pcbs s2 (unat pid);
             let s3 = put_pcb (unat pid) (c2\<lparr>counter := counter c2 + 1\<rparr>) s2;
             b \<leftarrow> rqcbs s3 q;
             Some (Submitted (sint t), put_rqcb q (b\<lparr>request_count := request_count b + 1\<rparr>) s3)
           }
         })))"

definition request_cancel :: "ptr \<Rightarrow> sys \<Rightarrow> sys option" where
  "request_cancel req s = (case req of None \<Rightarrow> Some s
     | Some r \<Rightarrow> do { rq \<leftarrow> requests s r; Some (put_request r (rq\<lparr>cancelled := 1\<rparr>) s) })"

section \<open>Moving a request between stages\<close>

definition to_next_stage :: "bool \<Rightarrow> nat \<Rightarrow> nat \<Rightarrow> sys \<Rightarrow> sys option" where
  "to_next_stage lock_ok q r s = do {
     b \<leftarrow> rqcbs s q;
     if lock_ok then do {
       rq \<leftarrow> requests s r;
       Some (put_request r (rq\<lparr>nstage := nstage rq + 1\<rparr>)
         (put_rqcb q (b\<lparr>request_head := request_head b @ [r], queue_len := queue_len b + 1,
                       request_count := request_count b + 1\<rparr>) s))
     } else Some s
   }"

text \<open>The locked part of \<^verbatim>\<open>to_done_stage\<close>, and the whole function.\<close>

definition done_insert :: "bool \<Rightarrow> nat \<Rightarrow> sys \<Rightarrow> sys option" where
  "done_insert lock_ok r s = (if lock_ok then do {
     _ \<leftarrow> requests s r;
     let b = done_rqcb s;
     Some (s\<lparr>done_rqcb := b\<lparr>request_head := request_head b @ [r], rqst_num := rqst_num b + 1,
                           queue_len := queue_len b + 1\<rparr>\<rparr>)
   } else Some s)"

definition to_done_stage :: "bool \<Rightarrow> bool \<Rightarrow> nat \<Rightarrow> sys \<Rightarrow> sys option" where
  "to_done_stage lock_ok w r s = do { s1 \<leftarrow> done_insert lock_ok r s; Some (notify_done w s1) }"

text \<open>
  \<^verbatim>\<open>submit_next\<close>.  The worker's \<^verbatim>\<open>next_rqcbp\<close> is passed and returned.  The loop check
  of the two middle cases has no \<^verbatim>\<open>break\<close>: the request goes on to its next queue as well.
\<close>

definition loop_check :: "bool \<Rightarrow> bool \<Rightarrow> nat \<Rightarrow> sys \<Rightarrow> sys option" where
  "loop_check lk w r s = do {
     rq \<leftarrow> requests s r;
     if nstage rq > MAX_STAGE_JUMP
     then to_done_stage lk w r (put_request r (rq\<lparr>err := REQUEST_LOOP\<rparr>) s)
     else Some s
   }"

definition submit_next ::
  "bool \<Rightarrow> bool \<Rightarrow> nat option \<Rightarrow> nat \<Rightarrow> nat \<Rightarrow> sys \<Rightarrow> (nat option \<times> sys) option" where
  "submit_next lk w wnext q r s = do {
     rq \<leftarrow> requests s r;
     b \<leftarrow> rqcbs s q;
     if ret rq = PIPELINE_FAILED then do { s' \<leftarrow> to_done_stage lk w r s; Some (wnext, s') }
     else if ret rq = PIPELINE_CONTINUE then do {
       s1 \<leftarrow> loop_check lk w r s;
       let (next, wnext') = (case wnext of Some n \<Rightarrow> (Some n, None) | None \<Rightarrow> (next_rqcb b, None));
       s2 \<leftarrow> (case next of Some n \<Rightarrow> to_next_stage lk n r s1 | None \<Rightarrow> to_done_stage lk w r s1);
       Some (wnext', s2)
     }
     else if ret rq = PIPELINE_BREAK then do { s' \<leftarrow> to_done_stage lk w r s; Some (wnext, s') }
     else if ret rq = PIPELINE_REQUEUE then do {
       s1 \<leftarrow> loop_check lk w r s;
       s2 \<leftarrow> to_next_stage lk q r s1;
       Some (wnext, s2)
     }
     else do { s' \<leftarrow> to_done_stage lk w r s; Some (wnext, s') }
   }"

section \<open>The worker thread\<close>

text \<open>
  The part of the loop that holds the queue's mutex: the thread waits, sees at a wake-up that
  the server is restarting and leaves, sleeps for a delayed queue, or takes the first request
  (together with its age).
\<close>

datatype taken = Waits | Leaves | Sleeps int | Takes nat int

definition worker_take :: "nat \<Rightarrow> sys \<Rightarrow> (taken \<times> sys) option" where
  "worker_take q s = do {
     b \<leftarrow> rqcbs s q;
     (case request_head b of
        [] \<Rightarrow> if graceful_restart s \<and> pipeline_queue_len s = 0 then Some (Leaves, s) else Some (Waits, s)
      | r # _ \<Rightarrow> do {
          rq \<leftarrow> requests s r;
          let cl = clock_off s - clock rq;
          if delay b \<noteq> 0 \<and> cl < uint (delay b) then Some (Sleeps (uint (delay b) - cl), s)
          else Some (Takes r cl,
            put_rqcb q (b\<lparr>request_head := remove1 r (request_head b), queue_len := queue_len b - 1\<rparr>) s)
        })
   }"

text \<open>
  What the stage's handler does with a request: its result, \<^verbatim>\<open>errno\<close>, and the next stage it
  sets with \<^verbatim>\<open>set_next_stage\<close> (if it does).
\<close>

record handler_result =
  hr_ret :: int
  hr_errno :: int
  hr_next :: "nat option"

text \<open>The rest of the loop body for a taken request; the result has the thread's next-stage field.\<close>

definition worker_process ::
  "bool \<Rightarrow> bool \<Rightarrow> (nat \<Rightarrow> request \<Rightarrow> handler_result) \<Rightarrow> bool \<Rightarrow> nat option \<Rightarrow> nat \<Rightarrow> nat \<Rightarrow> int \<Rightarrow> sys
     \<Rightarrow> (nat option \<times> sys) option" where
  "worker_process lk w handler init_ok wnext q r cl s = do {
     rq \<leftarrow> requests s r;
     b \<leftarrow> rqcbs s q;
     if request_timeout s \<noteq> 0 \<and> clock rq \<noteq> 0 \<and> cl > request_timeout s
     then do {
       s' \<leftarrow> to_done_stage lk w r (put_request r (rq\<lparr>flags := uint REQUEST_TIME_OUT\<rparr>) s);
       Some (wnext, s')
     }
     else if cancelled rq = 0 then
       (case request_handler b of
          Some h \<Rightarrow>
            if init_ok then do {
              let hr = handler h rq;
              let wnext1 = (case hr_next hr of Some n \<Rightarrow> Some n | None \<Rightarrow> wnext);
              submit_next lk w wnext1 q r
                (put_request r (rq\<lparr>ret := to_int32 (hr_ret hr), err := hr_errno hr\<rparr>) s)
            } else do { s' \<leftarrow> to_done_stage lk w r s; Some (wnext, s') }
        | None \<Rightarrow> do { s' \<leftarrow> to_done_stage lk w r s; Some (wnext, s') })
     else do {
       s' \<leftarrow> to_done_stage lk w r (put_request r (rq\<lparr>ret := 0, err := 0\<rparr>) s);
       Some (wnext, s')
     }
   }"

section \<open>Completion\<close>

definition get_done_requests :: "bool \<Rightarrow> sys \<Rightarrow> sys" where
  "get_done_requests lock_ok s =
     (if request_head (done_rqcb s) \<noteq> [] \<and> lock_ok
      then s\<lparr>final_request_head := final_request_head s @ request_head (done_rqcb s),
            done_rqcb := (done_rqcb s)\<lparr>request_head := [], queue_len := 0\<rparr>\<rparr>
      else s)"

definition cleanup_request :: "nat \<Rightarrow> sys \<Rightarrow> sys option" where
  "cleanup_request r s = do {
     rq \<leftarrow> requests s r;
     let s1 = s\<lparr>final_request_head := remove1 r (final_request_head s)\<rparr>;
     let s2 = (case data_cleaner rq of Some f \<Rightarrow> emit (Cleaner f (proctocl_data rq)) s1 | None \<Rightarrow> s1);
     s3 \<leftarrow> (case csp rq of Some c \<Rightarrow> CS_RELE c s2 | None \<Rightarrow> Some s2);
     Some (emit (FreeRequest r) (s3\<lparr>requests := (requests s3)(r := None)\<rparr>))
   }"

text \<open>
  One round of the completion loop.  \<open>resp\<close> is the value a responder returns; a cancelled
  request, or one without a responder, keeps the value of \<^verbatim>\<open>rc\<close> from the request before, as
  in the code.
\<close>

definition call_responder ::
  "(nat \<Rightarrow> nat \<Rightarrow> ptr \<Rightarrow> int \<Rightarrow> int) \<Rightarrow> request \<Rightarrow> nat \<Rightarrow> int \<Rightarrow> sys \<Rightarrow> int \<times> sys" where
  "call_responder resp rq c rc s = (case request_responder rq of
     Some f \<Rightarrow> if cancelled rq = 0
       then (to_int32 (resp f c (proctocl_data rq) (flags rq)),
             emit (Responder f c (proctocl_data rq) (flags rq)) s)
       else (rc, s)
   | None \<Rightarrow> (rc, s))"

definition disconnect :: "nat \<Rightarrow> sys \<Rightarrow> sys option" where
  "disconnect c s = do {
     cs \<leftarrow> conns s c;
     s' \<leftarrow> (case conn_close (cp_ops_of (ci cs)) of Some f \<Rightarrow> f (Some c) s | None \<Rightarrow> Some s);
     conn_state_cleanup c s'
   }"

definition respond_one ::
  "(nat \<Rightarrow> nat \<Rightarrow> ptr \<Rightarrow> int \<Rightarrow> int) \<Rightarrow> nat \<Rightarrow> int \<Rightarrow> sys \<Rightarrow> (int \<times> sys) option" where
  "respond_one resp r rc s = do {
     let s = s\<lparr>pipeline_queue_len := pipeline_queue_len s - 1\<rparr>;
     rq \<leftarrow> requests s r;
     (case csp rq of
        None \<Rightarrow> Some (rc, s)
      | Some c \<Rightarrow> do {
          let (rc, s) = call_responder resp rq c rc s;
          s \<leftarrow> (if rc AND RESPONDER_DISCONNECT = RESPONDER_DISCONNECT then disconnect c s else Some s);
          let s = (if rc AND RESPONDER_CLEAN \<noteq> RESPONDER_CLEAN
                   then put_request r (rq\<lparr>data_cleaner := None\<rparr>) s else s);
          s \<leftarrow> cleanup_request r s;
          Some (rc, if graceful_restart s \<and> pipeline_queue_len s = 0 then emit Broadcast s else s)
        })
   }"

fun respond_loop ::
  "(nat \<Rightarrow> nat \<Rightarrow> ptr \<Rightarrow> int \<Rightarrow> int) \<Rightarrow> nat list \<Rightarrow> int \<Rightarrow> sys \<Rightarrow> sys option" where
  "respond_loop resp [] rc s = Some s"
| "respond_loop resp (r # rs) rc s = do {
     (rc', s') \<leftarrow> respond_one resp r rc s;
     respond_loop resp rs rc' s'
   }"

text \<open>The event the main loop delivers, and the handler in the order of the code.\<close>

datatype ev_kind = EV_READ | EV_TIMEOUT

definition read_pipe :: "sys \<Rightarrow> sys" where
  "read_pipe s = (if done_signalled s
     then s\<lparr>pipe_bytes := pipe_bytes s - 16, done_signalled := False\<rparr> else s)"

definition process_done ::
  "(nat \<Rightarrow> nat \<Rightarrow> ptr \<Rightarrow> int \<Rightarrow> int) \<Rightarrow> bool \<Rightarrow> ev_kind \<Rightarrow> sys \<Rightarrow> sys option" where
  "process_done resp lock_ok ev s =
     (if request_head (done_rqcb s) \<noteq> [] \<and> ev \<noteq> EV_TIMEOUT
      then (let s1 = get_done_requests lock_ok s
            in respond_loop resp (final_request_head s1) (RESPONDER_OK OR RESPONDER_CLEAN) s1)
      else Some s)"

definition done_requests_handler ::
  "(nat \<Rightarrow> nat \<Rightarrow> ptr \<Rightarrow> int \<Rightarrow> int) \<Rightarrow> (nat \<Rightarrow> bool) \<Rightarrow> bool \<Rightarrow> ev_kind \<Rightarrow> sys \<Rightarrow> sys option" where
  "done_requests_handler resp tlk lock_ok ev s = do {
     s1 \<leftarrow> kick_request_queue tlk (read_pipe s);
     process_done resp lock_ok ev s1
   }"

end
