(* ===== verification/Queues.thy ===== *)
theory Queues
  imports Tailq
begin

text \<open>
  List-level facts about families of queues that share their elements' link field: which
  elements are linked somewhere, that no element is linked twice, and what the queue operations
  of \<^verbatim>\<open>Tailq\<close> do to both.
\<close>

definition members :: "('h, 'e) queues \<Rightarrow> 'e set" where
  "members Q = {e. \<exists>h xs. Q h = Some xs \<and> e \<in> set xs}"

definition qwf :: "('h, 'e) queues \<Rightarrow> bool" where
  "qwf Q \<longleftrightarrow> (\<forall>h xs. Q h = Some xs \<longrightarrow> distinct xs) \<and>
     (\<forall>h k xs ys. Q h = Some xs \<longrightarrow> Q k = Some ys \<longrightarrow> h \<noteq> k \<longrightarrow> set xs \<inter> set ys = {})"

lemma unlinked_members: "unlinked e Q \<longleftrightarrow> e \<notin> members Q"
  by (auto simp: unlinked_def members_def)

lemma membersI: "Q h = Some xs \<Longrightarrow> e \<in> set xs \<Longrightarrow> e \<in> members Q"
  by (auto simp: members_def)

lemma qwfD:
  "qwf Q \<Longrightarrow> Q h = Some xs \<Longrightarrow> distinct xs"
  "qwf Q \<Longrightarrow> Q h = Some xs \<Longrightarrow> Q k = Some ys \<Longrightarrow> h \<noteq> k \<Longrightarrow> e \<in> set xs \<Longrightarrow> e \<notin> set ys"
  unfolding qwf_def by blast+

text \<open>Replacing one queue, described by what it gains and loses.\<close>

lemma members_upd:
  assumes "qwf Q" and "Q h = Some xs"
  shows "members (Q(h \<mapsto> ys)) = (members Q - set xs) \<union> set ys"
proof -
  have "members (Q(h \<mapsto> ys)) = {e. \<exists>k zs. k \<noteq> h \<and> Q k = Some zs \<and> e \<in> set zs} \<union> set ys"
    by (auto simp: members_def)
  moreover have "{e. \<exists>k zs. k \<noteq> h \<and> Q k = Some zs \<and> e \<in> set zs} = members Q - set xs"
    using assms(2) qwfD(2) [OF assms(1,2)] unfolding members_def by force
  ultimately show ?thesis by simp
qed

lemma qwf_upd:
  assumes "qwf Q" and "Q h = Some xs" and "distinct ys" and "\<And>e. e \<in> set ys \<Longrightarrow> e \<in> set xs \<or> e \<notin> members Q"
  shows "qwf (Q(h \<mapsto> ys))"
  unfolding qwf_def
proof (intro conjI allI impI)
  show "distinct zs" if "(Q(h \<mapsto> ys)) k = Some zs" for k zs
    using that assms(1,3) qwfD(1) by (auto split: if_splits)
  have other: "e \<notin> set zs" if "Q k = Some zs" "k \<noteq> h" "e \<in> set ys" for k zs e
    using assms(4) [OF that(3)] qwfD(2) [OF assms(1,2) that(1)] membersI [of Q k zs e] that by blast
  show "set zs \<inter> set ws = {}"
    if "(Q(h \<mapsto> ys)) k = Some zs" "(Q(h \<mapsto> ys)) l = Some ws" "k \<noteq> l" for k l zs ws
  proof (cases "k = h \<or> l = h")
    case True
    then show ?thesis using that other by (auto split: if_splits)
  next
    case False
    then show ?thesis using that qwfD(2) [OF assms(1), of k zs l ws] by auto
  qed
qed

text \<open>The four operations the pipeline uses.\<close>

lemma insert_tail_queues:
  assumes "qwf Q" and "Q h = Some xs" and "e \<notin> members Q"
  shows "qwf (Q(h \<mapsto> xs @ [e]))" and "members (Q(h \<mapsto> xs @ [e])) = insert e (members Q)"
    and "list_cmd (InsTail h e) Q = Some (Q(h \<mapsto> xs @ [e]))"
proof -
  have sub: "set xs \<subseteq> members Q" using assms(2) by (auto intro: membersI)
  show "qwf (Q(h \<mapsto> xs @ [e]))"
    using assms sub qwfD(1) [OF assms(1,2)] by (intro qwf_upd) auto
  show "members (Q(h \<mapsto> xs @ [e])) = insert e (members Q)"
    using sub by (auto simp: members_upd [OF assms(1,2)])
  show "list_cmd (InsTail h e) Q = Some (Q(h \<mapsto> xs @ [e]))"
    using assms by (simp add: unlinked_members)
qed

lemma remove_queues:
  assumes "qwf Q" and "Q h = Some xs" and "e \<in> set xs"
  shows "qwf (Q(h \<mapsto> remove1 e xs))" and "members (Q(h \<mapsto> remove1 e xs)) = members Q - {e}"
    and "list_cmd (Remove h e) Q = Some (Q(h \<mapsto> remove1 e xs))"
proof -
  have d: "distinct xs" using qwfD(1) [OF assms(1,2)] .
  have sub: "set xs \<subseteq> members Q" using assms(2) by (auto intro: membersI)
  show "qwf (Q(h \<mapsto> remove1 e xs))"
    using assms d by (intro qwf_upd) (auto dest: notin_set_remove1)
  show "members (Q(h \<mapsto> remove1 e xs)) = members Q - {e}"
    using sub d assms(3) by (auto simp: members_upd [OF assms(1,2)])
  show "list_cmd (Remove h e) Q = Some (Q(h \<mapsto> remove1 e xs))" using assms by simp
qed

lemma concat_queues:
  assumes "qwf Q" and h: "Q h = Some xs" and k: "Q k = Some ys" and hk: "h \<noteq> k"
  shows "qwf (Q(h \<mapsto> xs @ ys, k \<mapsto> []))" and "members (Q(h \<mapsto> xs @ ys, k \<mapsto> [])) = members Q"
    and "list_cmd (Concat h k) Q = Some (Q(h \<mapsto> xs @ ys, k \<mapsto> []))"
proof -
  let ?Q1 = "Q(k \<mapsto> [])"
  have sub: "set xs \<subseteq> members Q" "set ys \<subseteq> members Q" using h k by (auto intro: membersI)
  have q1: "qwf ?Q1" using assms by (intro qwf_upd) auto
  have m1: "members ?Q1 = members Q - set ys" by (simp add: members_upd [OF assms(1) k])
  have h1: "?Q1 h = Some xs" using h hk by simp
  have eq: "Q(h \<mapsto> xs @ ys, k \<mapsto> []) = ?Q1(h \<mapsto> xs @ ys)" using hk by (simp add: fun_upd_twist)
  have dis: "distinct (xs @ ys)" using qwfD(1) [OF assms(1)] qwfD(2) [OF assms(1) h k hk] h k by auto
  show "qwf (Q(h \<mapsto> xs @ ys, k \<mapsto> []))"
    unfolding eq
  proof (rule qwf_upd [OF q1 h1 dis])
    show "e \<in> set xs \<or> e \<notin> members ?Q1" if "e \<in> set (xs @ ys)" for e
      using that unfolding m1 by auto
  qed
  show "members (Q(h \<mapsto> xs @ ys, k \<mapsto> [])) = members Q"
    unfolding eq members_upd [OF q1 h1] m1 using sub qwfD(2) [OF assms(1) h k hk] by auto
  show "list_cmd (Concat h k) Q = Some (Q(h \<mapsto> xs @ ys, k \<mapsto> []))" using assms by simp
qed

lemma list_cmds_append:
  "list_cmds (cs @ ds) Q = (case list_cmds cs Q of None \<Rightarrow> None | Some Q' \<Rightarrow> list_cmds ds Q')"
  by (induction cs arbitrary: Q) (auto split: option.splits)

text \<open>\<open>Q'\<close> results from \<open>Q\<close> by meaningful queue operations.\<close>

definition qsteps :: "('h, 'e) queues \<Rightarrow> ('h, 'e) queues \<Rightarrow> bool" where
  "qsteps Q Q' \<longleftrightarrow> (\<exists>cs. list_cmds cs Q = Some Q')"

lemma qsteps_refl [simp, intro]: "qsteps Q Q"
  unfolding qsteps_def by (intro exI [of _ "[]"]) simp

lemma qsteps_trans: "qsteps Q Q1 \<Longrightarrow> qsteps Q1 Q2 \<Longrightarrow> qsteps Q Q2"
  unfolding qsteps_def
proof (elim exE)
  fix cs ds
  assume "list_cmds cs Q = Some Q1" and "list_cmds ds Q1 = Some Q2"
  then show "\<exists>cs. list_cmds cs Q = Some Q2"
    by (intro exI [of _ "cs @ ds"]) (simp add: list_cmds_append)
qed

lemma qsteps_cmd: "list_cmd c Q = Some Q' \<Longrightarrow> qsteps Q Q'"
  unfolding qsteps_def by (intro exI [of _ "[c]"]) simp

end
