(* ===== verification/Pipeline_Inv.thy ===== *)
theory Pipeline_Inv
  imports Pipeline Queues
begin

text \<open>
  The invariant of the pipeline and its preservation by every function of
  \<^verbatim>\<open>Pipeline\<close>.  A live request is linked in exactly one queue or held by exactly one
  worker; the length counters equal the lengths of the queues; a pipeline with buffered
  requests is in the active queue.  The set \<open>H\<close> has the requests that workers hold.
\<close>

section \<open>The queues of the system\<close>

datatype qhead = QStage nat | QTmp nat | QDone | QFinal

definition queues :: "sys \<Rightarrow> (qhead, nat) queues" where
  "queues s h = (case h of
       QStage q \<Rightarrow> map_option request_head (rqcbs s q)
     | QTmp p \<Rightarrow> map_option tmp_request_head (pcbs s p)
     | QDone \<Rightarrow> Some (request_head (done_rqcb s))
     | QFinal \<Rightarrow> Some (final_request_head s))"

lemma queues_at [simp]:
  "queues s (QStage q) = map_option request_head (rqcbs s q)"
  "queues s (QTmp p) = map_option tmp_request_head (pcbs s p)"
  "queues s QDone = Some (request_head (done_rqcb s))"
  "queues s QFinal = Some (final_request_head s)"
  by (simp_all add: queues_def)

lemma queues_put [simp]:
  "queues (put_rqcb q b s) = (queues s)(QStage q \<mapsto> request_head b)"
  "queues (put_pcb p c s) = (queues s)(QTmp p \<mapsto> tmp_request_head c)"
  "queues (put_request r rq s) = queues s"
  "queues (s\<lparr>done_rqcb := b\<rparr>) = (queues s)(QDone \<mapsto> request_head b)"
  "queues (s\<lparr>final_request_head := f\<rparr>) = (queues s)(QFinal \<mapsto> f)"
  by (auto simp: queues_def put_defs fun_eq_iff split: qhead.splits)

lemma queues_frame [simp]:
  "queues (s\<lparr>pipeline_queue_len := a\<rparr>) = queues s" "queues (s\<lparr>apq := d\<rparr>) = queues s"
  "queues (s\<lparr>done_signalled := e\<rparr>) = queues s" "queues (s\<lparr>pipe_bytes := g\<rparr>) = queues s"
  "queues (s\<lparr>inc := k\<rparr>) = queues s" "queues (s\<lparr>requests := m\<rparr>) = queues s"
  "queues (s\<lparr>conns := n\<rparr>) = queues s" "queues (emit ev s) = queues s"
  by (auto simp: queues_def emit_def fun_eq_iff split: qhead.splits)

section \<open>The invariant\<close>

definition ownedQ :: "nat set \<Rightarrow> (qhead, nat) queues \<Rightarrow> nat set \<Rightarrow> bool" where
  "ownedQ H Q D \<longleftrightarrow> qwf Q \<and> H \<inter> members Q = {} \<and> H \<union> members Q \<subseteq> D \<and> finite D"

abbreviation owned :: "nat set \<Rightarrow> sys \<Rightarrow> bool" where
  "owned H s \<equiv> ownedQ H (queues s) (dom (requests s))"

definition lens :: "sys \<Rightarrow> bool" where
  "lens s \<longleftrightarrow> (\<forall>q b. rqcbs s q = Some b \<longrightarrow> queue_len b = of_nat (length (request_head b))) \<and>
     (\<forall>p c. pcbs s p = Some c \<longrightarrow> tmp_queue_len c = of_nat (length (tmp_request_head c))) \<and>
     queue_len (done_rqcb s) = of_nat (length (request_head (done_rqcb s)))"

definition active :: "sys \<Rightarrow> bool" where
  "active s \<longleftrightarrow> distinct (apq s) \<and>
     (\<forall>p. p \<in> set (apq s) \<longleftrightarrow> (\<exists>c. pcbs s p = Some c \<and> \<not> aqe_empty c)) \<and>
     (\<forall>p c. pcbs s p = Some c \<longrightarrow> tmp_request_head c \<noteq> [] \<longrightarrow> \<not> aqe_empty c)"

definition linked :: "sys \<Rightarrow> bool" where
  "linked s \<longleftrightarrow> (\<forall>p c. pcbs s p = Some c \<longrightarrow> (\<exists>q b. first_rqcbp c = Some q \<and> rqcbs s q = Some b)) \<and>
     (\<forall>q b n. rqcbs s q = Some b \<longrightarrow> next_rqcb b = Some n \<longrightarrow> n \<in> dom (rqcbs s))"

definition plinv :: "nat set \<Rightarrow> sys \<Rightarrow> bool" where
  "plinv H s \<longleftrightarrow> owned H s \<and> lens s \<and> active s \<and> linked s"

text \<open>
  What no pipeline operation but submission and completion changes: connections, which request
  belongs to which connection, the set of stages and pipelines; and all its changes of the
  queues are meaningful queue operations.
\<close>

definition keeps :: "sys \<Rightarrow> sys \<Rightarrow> bool" where
  "keeps s s' \<longleftrightarrow> conns s' = conns s \<and> (\<forall>r. map_option csp (requests s' r) = map_option csp (requests s r)) \<and>
     dom (rqcbs s') = dom (rqcbs s) \<and> dom (pcbs s') = dom (pcbs s) \<and> qsteps (queues s) (queues s')"

lemma keeps_refl [simp, intro]: "keeps s s"
  by (simp add: keeps_def)

lemma keeps_trans: "keeps s s1 \<Longrightarrow> keeps s1 s2 \<Longrightarrow> keeps s s2"
  unfolding keeps_def using qsteps_trans by metis

lemma keeps_dom_requests: "keeps s s' \<Longrightarrow> dom (requests s') = dom (requests s)"
  unfolding keeps_def by (metis domIff map_option_is_None subsetI subset_antisym)

section \<open>Elementary updates\<close>

lemma put_sel [simp]:
  "rqcbs (put_rqcb q b s) = (rqcbs s)(q \<mapsto> b)" "pcbs (put_rqcb q b s) = pcbs s"
  "requests (put_rqcb q b s) = requests s" "apq (put_rqcb q b s) = apq s"
  "done_rqcb (put_rqcb q b s) = done_rqcb s" "final_request_head (put_rqcb q b s) = final_request_head s"
  "conns (put_rqcb q b s) = conns s" "pipeline_queue_len (put_rqcb q b s) = pipeline_queue_len s"
  "clock_off (put_rqcb q b s) = clock_off s" "ri_timeout (put_rqcb q b s) = ri_timeout s"
  "rqcbs (put_pcb p c s) = rqcbs s" "pcbs (put_pcb p c s) = (pcbs s)(p \<mapsto> c)"
  "requests (put_pcb p c s) = requests s" "apq (put_pcb p c s) = apq s"
  "done_rqcb (put_pcb p c s) = done_rqcb s" "final_request_head (put_pcb p c s) = final_request_head s"
  "conns (put_pcb p c s) = conns s" "pipeline_queue_len (put_pcb p c s) = pipeline_queue_len s"
  "rqcbs (put_request r rq s) = rqcbs s" "pcbs (put_request r rq s) = pcbs s"
  "requests (put_request r rq s) = (requests s)(r \<mapsto> rq)" "apq (put_request r rq s) = apq s"
  "done_rqcb (put_request r rq s) = done_rqcb s"
  "final_request_head (put_request r rq s) = final_request_head s"
  "conns (put_request r rq s) = conns s" "pipeline_queue_len (put_request r rq s) = pipeline_queue_len s"
  "clock_off (put_request r rq s) = clock_off s" "ri_timeout (put_request r rq s) = ri_timeout s"
  "ri_queue_size (put_request r rq s) = ri_queue_size s" "ri_queue_size (put_rqcb q b s) = ri_queue_size s"
  "ri_queue_size (put_pcb p c s) = ri_queue_size s" "ri_timeout (put_pcb p c s) = ri_timeout s"
  "clock_off (put_pcb p c s) = clock_off s" "graceful_restart (put_request r rq s) = graceful_restart s"
  "trace (put_request r rq s) = trace s" "graceful_restart (put_rqcb q b s) = graceful_restart s"
  "graceful_restart (put_pcb p c s) = graceful_restart s"
  by (simp_all add: put_defs)

lemma lens_put:
  "lens s \<Longrightarrow> queue_len b = of_nat (length (request_head b)) \<Longrightarrow> lens (put_rqcb q b s)"
  "lens s \<Longrightarrow> tmp_queue_len c = of_nat (length (tmp_request_head c)) \<Longrightarrow> lens (put_pcb p c s)"
  "lens s \<Longrightarrow> queue_len b = of_nat (length (request_head b)) \<Longrightarrow> lens (s\<lparr>done_rqcb := b\<rparr>)"
  by (auto simp: lens_def)

lemma lens_frame [simp]:
  "lens (put_request r rq s) = lens s" "lens (s\<lparr>final_request_head := f\<rparr>) = lens s"
  "lens (s\<lparr>pipeline_queue_len := a\<rparr>) = lens s" "lens (s\<lparr>apq := d\<rparr>) = lens s"
  "lens (s\<lparr>done_signalled := e\<rparr>) = lens s" "lens (s\<lparr>pipe_bytes := g\<rparr>) = lens s"
  "lens (s\<lparr>inc := k\<rparr>) = lens s" "lens (s\<lparr>requests := m\<rparr>) = lens s"
  "lens (s\<lparr>conns := n\<rparr>) = lens s" "lens (emit ev s) = lens s"
  by (auto simp: lens_def emit_def)

lemma active_frame [simp]:
  "active (put_rqcb q b s) = active s" "active (s\<lparr>done_rqcb := b\<rparr>) = active s"
  "active (put_request r rq s) = active s" "active (s\<lparr>final_request_head := f\<rparr>) = active s"
  "active (s\<lparr>pipeline_queue_len := a\<rparr>) = active s"
  "active (s\<lparr>done_signalled := e\<rparr>) = active s" "active (s\<lparr>pipe_bytes := g\<rparr>) = active s"
  "active (s\<lparr>inc := k\<rparr>) = active s" "active (s\<lparr>requests := m\<rparr>) = active s"
  "active (s\<lparr>conns := n\<rparr>) = active s" "active (emit ev s) = active s"
  by (auto simp: active_def emit_def)

lemma linked_put:
  "linked s \<Longrightarrow> rqcbs s q = Some b0 \<Longrightarrow> next_rqcb b = next_rqcb b0 \<Longrightarrow> linked (put_rqcb q b s)"
  "linked s \<Longrightarrow> pcbs s p = Some c0 \<Longrightarrow> first_rqcbp c = first_rqcbp c0 \<Longrightarrow> linked (put_pcb p c s)"
  unfolding linked_def put_sel by (auto split: if_splits) (metis option.inject)+

lemma linked_frame [simp]:
  "linked (put_request r rq s) = linked s" "linked (s\<lparr>done_rqcb := b\<rparr>) = linked s"
  "linked (s\<lparr>final_request_head := f\<rparr>) = linked s"
  "linked (s\<lparr>pipeline_queue_len := a\<rparr>) = linked s" "linked (s\<lparr>apq := d\<rparr>) = linked s"
  "linked (s\<lparr>done_signalled := e\<rparr>) = linked s" "linked (s\<lparr>pipe_bytes := g\<rparr>) = linked s"
  "linked (s\<lparr>inc := k\<rparr>) = linked s" "linked (s\<lparr>requests := m\<rparr>) = linked s"
  "linked (s\<lparr>conns := n\<rparr>) = linked s" "linked (emit ev s) = linked s"
  by (auto simp: linked_def emit_def)

lemma of_nat_length_remove1:
  "r \<in> set xs \<Longrightarrow> (of_nat (length (remove1 r xs)) :: 'a :: len word) = of_nat (length xs) - 1"
  by (cases "length xs") (auto simp: length_remove1)

section \<open>Ownership of requests\<close>

lemma ownedQ_take:
  assumes "ownedQ H Q D" and "Q h = Some xs" and "r \<in> set xs"
  shows "ownedQ (insert r H) (Q(h \<mapsto> remove1 r xs)) D" and "qsteps Q (Q(h \<mapsto> remove1 r xs))"
    and "r \<notin> H" and "members (Q(h \<mapsto> remove1 r xs)) = members Q - {r}"
proof -
  have q: "qwf Q" using assms(1) by (simp add: ownedQ_def)
  note rm = remove_queues [OF q assms(2,3)]
  have r: "r \<in> members Q" using assms(2,3) by (rule membersI)
  show "ownedQ (insert r H) (Q(h \<mapsto> remove1 r xs)) D"
    using assms(1) r rm(1,2) unfolding ownedQ_def by auto
  show "qsteps Q (Q(h \<mapsto> remove1 r xs))" using rm(3) by (rule qsteps_cmd)
  show "r \<notin> H" using assms(1) r unfolding ownedQ_def by auto
  show "members (Q(h \<mapsto> remove1 r xs)) = members Q - {r}" by (rule rm(2))
qed

lemma ownedQ_put:
  assumes "ownedQ H Q D" and "Q h = Some xs" and "r \<in> H"
  shows "ownedQ (H - {r}) (Q(h \<mapsto> xs @ [r])) D" and "qsteps Q (Q(h \<mapsto> xs @ [r]))"
    and "members (Q(h \<mapsto> xs @ [r])) = insert r (members Q)"
proof -
  have q: "qwf Q" and r: "r \<notin> members Q" using assms(1,3) by (auto simp: ownedQ_def)
  note ins = insert_tail_queues [OF q assms(2) r]
  show "ownedQ (H - {r}) (Q(h \<mapsto> xs @ [r])) D"
    using assms(1,3) ins(1,2) unfolding ownedQ_def by auto
  show "qsteps Q (Q(h \<mapsto> xs @ [r]))" using ins(3) by (rule qsteps_cmd)
  show "members (Q(h \<mapsto> xs @ [r])) = insert r (members Q)" by (rule ins(2))
qed

lemma ownedQ_move:
  assumes "ownedQ H Q D" and "Q h = Some xs" and "r \<in> set xs" and "Q k = Some ys" and "h \<noteq> k"
  shows "ownedQ H (Q(h \<mapsto> remove1 r xs, k \<mapsto> ys @ [r])) D"
    and "qsteps Q (Q(h \<mapsto> remove1 r xs, k \<mapsto> ys @ [r]))"
    and "members (Q(h \<mapsto> remove1 r xs, k \<mapsto> ys @ [r])) = members Q"
proof -
  let ?Q = "Q(h \<mapsto> remove1 r xs, k \<mapsto> ys @ [r])"
  note t = ownedQ_take [OF assms(1-3)]
  have k: "(Q(h \<mapsto> remove1 r xs)) k = Some ys" using assms(4,5) by simp
  note p = ownedQ_put [OF t(1), OF k insertI1]
  show "ownedQ H ?Q D" using p(1) t(3) by simp
  show "qsteps Q ?Q" using qsteps_trans [OF t(2) p(2)] .
  show "members ?Q = members Q" using p(3) t(4) assms(2,3) membersI [of Q h xs r] by auto
qed

lemma ownedQ_concat:
  assumes "ownedQ H Q D" and "Q h = Some xs" and "Q k = Some ys" and "h \<noteq> k"
  shows "ownedQ H (Q(h \<mapsto> xs @ ys, k \<mapsto> [])) D" and "qsteps Q (Q(h \<mapsto> xs @ ys, k \<mapsto> []))"
    and "members (Q(h \<mapsto> xs @ ys, k \<mapsto> [])) = members Q"
proof -
  have q: "qwf Q" using assms(1) by (simp add: ownedQ_def)
  note cc = concat_queues [OF q assms(2-4)]
  show "ownedQ H (Q(h \<mapsto> xs @ ys, k \<mapsto> [])) D" using assms(1) cc(1,2) unfolding ownedQ_def by simp
  show "qsteps Q (Q(h \<mapsto> xs @ ys, k \<mapsto> []))" using cc(3) by (rule qsteps_cmd)
  show "members (Q(h \<mapsto> xs @ ys, k \<mapsto> [])) = members Q" by (rule cc(2))
qed

lemma invD:
  "plinv H s \<Longrightarrow> owned H s" "plinv H s \<Longrightarrow> lens s" "plinv H s \<Longrightarrow> active s" "plinv H s \<Longrightarrow> linked s"
  by (simp_all add: plinv_def)

lemma inv_request:
  "plinv H s \<Longrightarrow> queues s h = Some xs \<Longrightarrow> r \<in> set xs \<Longrightarrow> \<exists>rq. requests s r = Some rq"
  "plinv H s \<Longrightarrow> r \<in> H \<Longrightarrow> \<exists>rq. requests s r = Some rq"
  unfolding plinv_def ownedQ_def using membersI by fastforce+

section \<open>Steps that create and destroy no request\<close>

definition live :: "nat set \<Rightarrow> sys \<Rightarrow> nat set" where
  "live H s = members (queues s) \<union> H"

text \<open>A step from holders \<open>H\<close> to holders \<open>H'\<close> that keeps the set of live requests.\<close>

definition moved :: "nat set \<Rightarrow> sys \<Rightarrow> nat set \<Rightarrow> sys \<Rightarrow> bool" where
  "moved H s H' s' \<longleftrightarrow> plinv H' s' \<and> keeps s s' \<and> live H' s' = live H s
     \<and> pipeline_queue_len s' = pipeline_queue_len s \<and> final_request_head s' = final_request_head s"

lemma moved_refl: "plinv H s \<Longrightarrow> moved H s H s"
  by (simp add: moved_def)

lemma moved_trans: "moved H s H1 s1 \<Longrightarrow> moved H1 s1 H2 s2 \<Longrightarrow> moved H s H2 s2"
  by (auto simp: moved_def intro: keeps_trans)

lemma movedD:
  "moved H s H' s' \<Longrightarrow> plinv H' s'" "moved H s H' s' \<Longrightarrow> keeps s s'"
  "moved H s H' s' \<Longrightarrow> dom (rqcbs s') = dom (rqcbs s)"
  "moved H s H' s' \<Longrightarrow> dom (requests s') = dom (requests s)"
  by (simp_all add: moved_def keeps_dom_requests) (simp add: keeps_def)

section \<open>Buffered requests\<close>

lemma move_buffered_inv:
  assumes "plinv H s" and p: "pcbs s p = Some c" and q: "rqcbs s q = Some b"
  shows "\<exists>s'. move_buffered p q s = Some s' \<and> plinv H s' \<and> keeps s s' \<and> members (queues s') = members (queues s)
     \<and> pcbs s' p = Some (c\<lparr>tmp_request_head := [], tmp_queue_len := 0\<rparr>) \<and> apq s' = apq s
     \<and> pipeline_queue_len s' = pipeline_queue_len s \<and> requests s' = requests s
     \<and> final_request_head s' = final_request_head s
     \<and> rqcbs s' = (rqcbs s)(q \<mapsto> b\<lparr>request_head := request_head b @ tmp_request_head c,
          queue_len := queue_len b + tmp_queue_len c\<rparr>)
     \<and> ri_queue_size s' = ri_queue_size s \<and> ri_timeout s' = ri_timeout s"
proof -
  let ?b = "b\<lparr>request_head := request_head b @ tmp_request_head c, queue_len := queue_len b + tmp_queue_len c\<rparr>"
  let ?c = "c\<lparr>tmp_request_head := [], tmp_queue_len := 0\<rparr>"
  let ?s = "put_pcb p ?c (put_rqcb q ?b s)"
  note i = invD [OF assms(1)]
  have "queues s (QStage q) = Some (request_head b)" "queues s (QTmp p) = Some (tmp_request_head c)"
    using p q by simp_all
  note cc = ownedQ_concat [OF i(1) this qhead.distinct(1)]
  have "lens (put_rqcb q ?b s)" using i(2) p q by (intro lens_put) (auto simp: lens_def)
  then have "lens ?s" by (rule lens_put) simp
  moreover have "active ?s" using i(3) p unfolding active_def by auto
  moreover have "linked ?s" using i(4) p q by (intro linked_put) auto
  ultimately have "plinv H ?s" using cc(1) by (simp add: plinv_def)
  moreover have "keeps s ?s" using cc(2) p q by (auto simp: keeps_def)
  moreover have "move_buffered p q s = Some ?s" using p q by (simp add: move_buffered_def)
  ultimately show ?thesis using cc(3) by simp
qed

lemma apq_remove_inv:
  assumes "plinv H s" and p: "pcbs s p = Some c" and t: "tmp_request_head c = []"
  shows "\<exists>s'. apq_remove p s = Some s' \<and> plinv H s' \<and> keeps s s' \<and> queues s' = queues s
     \<and> pcbs s' = (pcbs s)(p \<mapsto> c\<lparr>aqe_empty := True\<rparr>) \<and> apq s' = remove1 p (apq s)
     \<and> pipeline_queue_len s' = pipeline_queue_len s \<and> requests s' = requests s \<and> rqcbs s' = rqcbs s
     \<and> final_request_head s' = final_request_head s
     \<and> ri_queue_size s' = ri_queue_size s \<and> ri_timeout s' = ri_timeout s"
proof -
  let ?s = "put_pcb p (c\<lparr>aqe_empty := True\<rparr>) (s\<lparr>apq := remove1 p (apq s)\<rparr>)"
  note i = invD [OF assms(1)]
  have q: "queues ?s = queues s" using p t by (auto simp: fun_eq_iff)
  have "lens ?s" using i(2) p by (intro lens_put) (auto simp: lens_def)
  moreover have "active ?s" using i(3) t unfolding active_def by auto
  moreover have "linked ?s" using i(4) p by (intro linked_put) auto
  ultimately have "plinv H ?s" using i(1) q by (simp add: plinv_def)
  moreover have "keeps s ?s" using q p by (auto simp: keeps_def)
  ultimately show ?thesis using p q by (simp add: apq_remove_def)
qed

text \<open>A pipeline whose buffered requests stay, because its queue is busy.\<close>

definition stays :: "(nat \<Rightarrow> bool) \<Rightarrow> sys \<Rightarrow> nat \<Rightarrow> bool" where
  "stays tlk s p \<longleftrightarrow> queues s (QTmp p) \<noteq> Some [] \<and> \<not> tlk p"

text \<open>The postcondition of the kick functions.\<close>

definition kicked :: "nat set \<Rightarrow> sys \<Rightarrow> sys \<Rightarrow> bool" where
  "kicked H s s' \<longleftrightarrow> plinv H s' \<and> keeps s s' \<and> members (queues s') = members (queues s)
     \<and> pipeline_queue_len s' = pipeline_queue_len s \<and> requests s' = requests s
     \<and> final_request_head s' = final_request_head s"

lemma kicked_moved: "kicked H s s' \<Longrightarrow> moved H s H s'"
  by (simp add: kicked_def moved_def live_def)

lemma kicked_trans: "kicked H s s1 \<Longrightarrow> kicked H s1 s2 \<Longrightarrow> kicked H s s2"
  by (auto simp: kicked_def intro: keeps_trans)

lemma kick_one_inv:
  assumes "plinv H s" and p: "p \<in> set (apq s)"
  shows "\<exists>s'. kick_one tlk p s = Some s' \<and> kicked H s s'
     \<and> apq s' = (if stays tlk s p then apq s else remove1 p (apq s))
     \<and> (\<forall>p'. p' \<noteq> p \<longrightarrow> pcbs s' p' = pcbs s p')
     \<and> (if stays tlk s p then queues s' (QTmp p) = queues s (QTmp p) else queues s' (QTmp p) = Some [])"
proof -
  obtain c where c: "pcbs s p = Some c"
    using invD(3) [OF assms(1)] p unfolding active_def by auto
  obtain q b where q: "first_rqcbp c = Some q" and b: "rqcbs s q = Some b"
    using invD(4) [OF assms(1)] c unfolding linked_def by blast
  show ?thesis
  proof (cases "tmp_request_head c = []")
    case True
    then show ?thesis using apq_remove_inv [OF assms(1) c True] c
      by (auto simp: kick_one_def kicked_def stays_def)
  next
    case False
    obtain s1 where s1: "move_buffered p q s = Some s1" "plinv H s1" "keeps s s1"
      "members (queues s1) = members (queues s)" "pipeline_queue_len s1 = pipeline_queue_len s"
      "requests s1 = requests s" "apq s1 = apq s" "final_request_head s1 = final_request_head s"
      and c1: "pcbs s1 p = Some (c\<lparr>tmp_request_head := [], tmp_queue_len := 0\<rparr>)"
      using move_buffered_inv [OF assms(1) c b] by blast
    have o: "pcbs s1 p' = pcbs s p'" if "p' \<noteq> p" for p'
      using s1(1) c b that by (auto simp: move_buffered_def)
    have t1: "tmp_request_head (c\<lparr>tmp_request_head := [], tmp_queue_len := 0\<rparr>) = []" by simp
    show ?thesis
    proof (cases "tlk p")
      case True
      then show ?thesis
        using apq_remove_inv [OF s1(2) c1 t1] s1 c q b False o keeps_trans [OF s1(3)]
        by (auto simp: kick_one_def kicked_def stays_def)
    next
      case nl: False
      then show ?thesis using c q b False assms(1) by (auto simp: kick_one_def kicked_def stays_def)
    qed
  qed
qed

lemma kick_loop_inv:
  assumes "plinv H s" and "distinct ps" and "set ps \<subseteq> set (apq s)"
  shows "\<exists>s'. kick_loop tlk ps s = Some s' \<and> kicked H s s'
     \<and> apq s' = filter (\<lambda>p. p \<in> set ps \<longrightarrow> stays tlk s p) (apq s)
     \<and> (\<forall>p \<in> set ps. \<not> stays tlk s p \<longrightarrow> queues s' (QTmp p) = Some [])
     \<and> (\<forall>p. p \<notin> set ps \<longrightarrow> pcbs s' p = pcbs s p)"
  using assms
proof (induction ps arbitrary: s)
  case Nil
  then show ?case by (simp add: kicked_def)
next
  case (Cons p ps)
  let ?st = "stays tlk s p"
  have p: "p \<in> set (apq s)" using Cons.prems(3) by simp
  obtain s1 where s1: "kick_one tlk p s = Some s1" "kicked H s s1"
    and a1: "apq s1 = (if ?st then apq s else remove1 p (apq s))"
    and o1: "\<forall>p'. p' \<noteq> p \<longrightarrow> pcbs s1 p' = pcbs s p'"
    and t1: "if ?st then queues s1 (QTmp p) = queues s (QTmp p) else queues s1 (QTmp p) = Some []"
    using kick_one_inv [OF Cons.prems(1) p] by blast
  have d: "distinct (apq s)" using invD(3) [OF Cons.prems(1)] by (simp add: active_def)
  have i1: "plinv H s1" using s1(2) by (simp add: kicked_def)
  have "set ps \<subseteq> set (apq s1)" using Cons.prems(2,3) a1 d by auto
  then obtain s2 where s2: "kick_loop tlk ps s1 = Some s2" "kicked H s1 s2"
    and a2: "apq s2 = filter (\<lambda>p. p \<in> set ps \<longrightarrow> stays tlk s1 p) (apq s1)"
    and t2: "\<forall>p \<in> set ps. \<not> stays tlk s1 p \<longrightarrow> queues s2 (QTmp p) = Some []"
    and o2: "\<forall>p. p \<notin> set ps \<longrightarrow> pcbs s2 p = pcbs s1 p"
    using Cons.IH [OF i1] Cons.prems(2) by auto
  have st: "stays tlk s1 p' = stays tlk s p'" if "p' \<noteq> p" for p'
    using o1 that by (simp add: stays_def)
  have np: "p \<notin> set ps" using Cons.prems(2) by simp
  have st2: "\<forall>x \<in> set ps. stays tlk s1 x = stays tlk s x" using st np by metis
  have "apq s2 = filter (\<lambda>p'. p' \<in> set (p # ps) \<longrightarrow> stays tlk s p') (apq s)"
  proof (cases ?st)
    case True
    then show ?thesis using a1 a2 st2 np by (auto intro!: filter_cong)
  next
    case False
    then have "apq s1 = filter ((\<noteq>) p) (apq s)" using a1 d
      by (simp add: distinct_remove1_removeAll removeAll_filter_not_eq)
    then show ?thesis using a2 st2 np False by (auto intro!: filter_cong)
  qed
  moreover have "queues s2 (QTmp p') = Some []" if "p' \<in> set (p # ps)" "\<not> stays tlk s p'" for p'
    using that t1 t2 o2 np st by (cases "p' = p") auto
  ultimately show ?case
    using s1(1) s2(1) kicked_trans [OF s1(2) s2(2)] o1 o2 by auto
qed

lemma kick_request_queue_inv:
  assumes "plinv H s"
  shows "\<exists>s'. kick_request_queue tlk s = Some s' \<and> kicked H s s'
     \<and> apq s' = filter (stays tlk s) (apq s)
     \<and> (\<forall>p c. pcbs s p = Some c \<longrightarrow> tlk p \<longrightarrow> queues s' (QTmp p) = Some [])"
proof -
  have d: "distinct (apq s)" using invD(3) [OF assms] by (simp add: active_def)
  obtain s' where s': "kick_loop tlk (apq s) s = Some s'" "kicked H s s'"
    "apq s' = filter (\<lambda>p. p \<in> set (apq s) \<longrightarrow> stays tlk s p) (apq s)"
    and t: "\<forall>p \<in> set (apq s). \<not> stays tlk s p \<longrightarrow> queues s' (QTmp p) = Some []"
    and o: "\<forall>p. p \<notin> set (apq s) \<longrightarrow> pcbs s' p = pcbs s p"
    using kick_loop_inv [OF assms d subset_refl] by blast
  have "queues s' (QTmp p) = Some []" if "pcbs s p = Some c" "tlk p" for p c
  proof (cases "p \<in> set (apq s)")
    case True
    then show ?thesis using t that by (simp add: stays_def)
  next
    case False
    then have "tmp_request_head c = []" using invD(3) [OF assms] that by (auto simp: active_def)
    then show ?thesis using o False that by simp
  qed
  moreover have "apq s' = filter (stays tlk s) (apq s)"
    using s'(3) by (simp cong: filter_cong)
  ultimately show ?thesis using s'(1,2) by (auto simp: kick_request_queue_def)
qed

end
