(* ===== verification/Pipeline_Worker.thy ===== *)
theory Pipeline_Worker
  imports Pipeline_Inv
begin

text \<open>
  The worker side of the pipeline: taking a request from a stage's queue, processing it and
  passing it on.  Each function moves a request between a queue and the worker and changes
  nothing else.
\<close>

section \<open>Putting a held request into a queue\<close>

lemma to_next_stage_inv:
  assumes "plinv H s" and r: "r \<in> H" and b: "rqcbs s q = Some b"
  shows "\<exists>s'. to_next_stage True q r s = Some s' \<and> moved H s (H - {r}) s'
     \<and> queues s' = (queues s)(QStage q \<mapsto> request_head b @ [r])"
proof -
  obtain rq where rq: "requests s r = Some rq" using inv_request(2) [OF assms(1) r] by blast
  let ?b = "b\<lparr>request_head := request_head b @ [r], queue_len := queue_len b + 1,
              request_count := request_count b + 1\<rparr>"
  let ?s = "put_request r (rq\<lparr>nstage := nstage rq + 1\<rparr>) (put_rqcb q ?b s)"
  note i = invD [OF assms(1)]
  have "queues s (QStage q) = Some (request_head b)" using b by simp
  note p = ownedQ_put [OF i(1) this r]
  have d: "dom (requests ?s) = dom (requests s)" using rq by auto
  have "lens (put_rqcb q ?b s)" using i(2) b by (intro lens_put) (auto simp: lens_def)
  moreover have "linked (put_rqcb q ?b s)" using i(4) b by (intro linked_put) auto
  ultimately have "plinv (H - {r}) ?s" using p(1) i(3) d by (simp add: plinv_def)
  moreover have "keeps s ?s" using p(2) b rq by (auto simp: keeps_def)
  moreover have "live (H - {r}) ?s = live H s" using p(3) r by (auto simp: live_def)
  ultimately show ?thesis using b rq by (simp add: to_next_stage_def moved_def)
qed

lemma notify_done_frame [simp]:
  "queues (notify_done w s) = queues s" "requests (notify_done w s) = requests s"
  "rqcbs (notify_done w s) = rqcbs s" "pcbs (notify_done w s) = pcbs s" "conns (notify_done w s) = conns s"
  "pipeline_queue_len (notify_done w s) = pipeline_queue_len s" "apq (notify_done w s) = apq s"
  "done_rqcb (notify_done w s) = done_rqcb s" "final_request_head (notify_done w s) = final_request_head s"
  "plinv H (notify_done w s) = plinv H s" "live H (notify_done w s) = live H s"
  "keeps s0 (notify_done w s) = keeps s0 s"
  by (auto simp: notify_done_def plinv_def live_def keeps_def)

lemma done_insert_inv:
  assumes "plinv H s" and r: "r \<in> H"
  shows "\<exists>s'. done_insert True r s = Some s' \<and> moved H s (H - {r}) s'
     \<and> queues s' = (queues s)(QDone \<mapsto> request_head (done_rqcb s) @ [r]) \<and> requests s' = requests s"
proof -
  obtain rq where rq: "requests s r = Some rq" using inv_request(2) [OF assms(1) r] by blast
  let ?b = "(done_rqcb s)\<lparr>request_head := request_head (done_rqcb s) @ [r],
    rqst_num := rqst_num (done_rqcb s) + 1, queue_len := queue_len (done_rqcb s) + 1\<rparr>"
  let ?s = "s\<lparr>done_rqcb := ?b\<rparr>"
  note i = invD [OF assms(1)]
  note p = ownedQ_put [OF i(1) queues_at(3) r]
  have "lens ?s" using i(2) by (intro lens_put) (auto simp: lens_def)
  then have "plinv (H - {r}) ?s" using p(1) i(3,4) by (simp add: plinv_def)
  moreover have "keeps s ?s" using p(2) by (auto simp: keeps_def)
  moreover have "live (H - {r}) ?s = live H s" using p(3) r by (auto simp: live_def)
  ultimately show ?thesis using rq by (simp add: done_insert_def moved_def Let_def)
qed

lemma to_done_stage_inv:
  assumes "plinv H s" and "r \<in> H"
  shows "\<exists>s'. to_done_stage True w r s = Some s' \<and> moved H s (H - {r}) s'
     \<and> queues s' = (queues s)(QDone \<mapsto> request_head (done_rqcb s) @ [r]) \<and> requests s' = requests s"
  using done_insert_inv [OF assms] by (auto simp: to_done_stage_def moved_def)

lemma moved_put_request:
  assumes "plinv H s" and "requests s r = Some rq" and "csp rq' = csp rq"
  shows "moved H s H (put_request r rq' s)"
proof -
  have "dom (requests (put_request r rq' s)) = dom (requests s)" using assms(2) by auto
  then show ?thesis using assms by (auto simp: moved_def plinv_def keeps_def live_def)
qed

section \<open>Choosing the next stage\<close>

text \<open>Where the code means to send a request that a handler has returned.\<close>

definition next_place :: "nat option \<Rightarrow> rqcb \<Rightarrow> nat \<Rightarrow> int \<Rightarrow> qhead" where
  "next_place wnext b q rc =
     (if rc = PIPELINE_CONTINUE then
        (case wnext of Some n \<Rightarrow> QStage n
         | None \<Rightarrow> (case next_rqcb b of Some n \<Rightarrow> QStage n | None \<Rightarrow> QDone))
      else if rc = PIPELINE_REQUEUE then QStage q else QDone)"

definition loops :: "request \<Rightarrow> bool" where
  "loops rq \<longleftrightarrow> (ret rq = PIPELINE_CONTINUE \<or> ret rq = PIPELINE_REQUEUE) \<and> nstage rq > MAX_STAGE_JUMP"

lemma submit_next_inv:
  assumes plinv: "plinv H s" and r: "r \<in> H" and b: "rqcbs s q = Some b" and rq: "requests s r = Some rq"
    and wn: "set_option wnext \<subseteq> dom (rqcbs s)" and nl: "\<not> loops rq"
  shows "\<exists>wn' s' xs. submit_next True w wnext q r s = Some (wn', s') \<and> moved H s (H - {r}) s'
     \<and> wn' \<in> {wnext, None} \<and> queues s (next_place wnext b q (ret rq)) = Some xs
     \<and> queues s' = (queues s)(next_place wnext b q (ret rq) \<mapsto> xs @ [r])"
proof -
  have lc: "loop_check True w r s = Some s" if "ret rq = PIPELINE_CONTINUE \<or> ret rq = PIPELINE_REQUEUE"
    using that nl rq by (auto simp: loop_check_def loops_def)
  have nb: "n \<in> dom (rqcbs s)" if "next_rqcb b = Some n" for n
    using invD(4) [OF plinv] b that unfolding linked_def by blast
  show ?thesis
  proof (cases "next_place wnext b q (ret rq)")
    case (QStage n)
    then have "n \<in> dom (rqcbs s)"
      using wn b nb by (auto simp: next_place_def split: if_splits option.splits)
    then obtain bn where "rqcbs s n = Some bn" by blast
    then show ?thesis using QStage to_next_stage_inv [OF plinv r, of n bn] b rq lc
      by (auto simp: submit_next_def next_place_def pipeline_consts Let_def split: if_splits option.splits)
  next
    case QDone
    then show ?thesis using to_done_stage_inv [OF plinv r, of w] b rq lc
      by (auto simp: submit_next_def next_place_def pipeline_consts Let_def split: if_splits option.splits)
  qed (simp_all add: next_place_def split: if_splits option.splits)
qed

section \<open>Taking a request\<close>

lemma worker_take_inv:
  assumes inv: "plinv H s" and b: "rqcbs s q = Some b"
  shows "\<exists>t s'. worker_take q s = Some (t, s') \<and> (case t of
       Takes r cl \<Rightarrow> r \<notin> H \<and> moved H s (insert r H) s' \<and> request_head b \<noteq> [] \<and> r = hd (request_head b)
         \<and> queues s' = (queues s)(QStage q \<mapsto> tl (request_head b)) \<and> requests s' = requests s
     | _ \<Rightarrow> s' = s)"
proof (cases "request_head b")
  case Nil
  then show ?thesis using b by (simp add: worker_take_def)
next
  case (Cons r rs)
  note i = invD [OF inv]
  have h: "queues s (QStage q) = Some (request_head b)" and m: "r \<in> set (request_head b)"
    using b Cons by simp_all
  obtain rq where rq: "requests s r = Some rq" using inv_request(1) [OF inv h m] by blast
  let ?b = "b\<lparr>request_head := remove1 r (request_head b), queue_len := queue_len b - 1\<rparr>"
  let ?s = "put_rqcb q ?b s"
  note t = ownedQ_take [OF i(1) h m]
  have "lens ?s" using i(2) b m by (intro lens_put) (auto simp: lens_def of_nat_length_remove1)
  moreover have "linked ?s" using i(4) b by (intro linked_put) auto
  ultimately have "plinv (insert r H) ?s" using t(1) i(3) by (simp add: plinv_def)
  moreover have "keeps s ?s" using t(2) b by (auto simp: keeps_def)
  moreover have "live (insert r H) ?s = live H s"
    using t(4) membersI [of "queues s", OF h m] by (auto simp: live_def)
  ultimately show ?thesis using t(3) b rq Cons by (auto simp: worker_take_def moved_def Let_def)
qed

section \<open>Processing a request\<close>

definition times_out :: "sys \<Rightarrow> request \<Rightarrow> int \<Rightarrow> bool" where
  "times_out s rq cl \<longleftrightarrow> request_timeout s \<noteq> 0 \<and> clock rq \<noteq> 0 \<and> cl > request_timeout s"

text \<open>Where the loop body sends a taken request.\<close>

definition processed_place ::
  "(nat \<Rightarrow> request \<Rightarrow> handler_result) \<Rightarrow> bool \<Rightarrow> nat option \<Rightarrow> rqcb \<Rightarrow> nat \<Rightarrow> sys \<Rightarrow> request \<Rightarrow> int \<Rightarrow> qhead" where
  "processed_place handler init_ok wnext b q s rq cl =
     (case request_handler b of
        Some h \<Rightarrow> if \<not> times_out s rq cl \<and> cancelled rq = 0 \<and> init_ok
          then next_place (case hr_next (handler h rq) of Some n \<Rightarrow> Some n | None \<Rightarrow> wnext) b q
                 (to_int32 (hr_ret (handler h rq)))
          else QDone
      | None \<Rightarrow> QDone)"

text \<open>The handlers only set a next stage that exists, and no request is past the jump limit.\<close>

definition handler_ok :: "(nat \<Rightarrow> request \<Rightarrow> handler_result) \<Rightarrow> sys \<Rightarrow> bool" where
  "handler_ok handler s \<longleftrightarrow> (\<forall>h rq. set_option (hr_next (handler h rq)) \<subseteq> dom (rqcbs s))"

lemma worker_process_inv:
  assumes inv: "plinv H s" and r: "r \<in> H" and b: "rqcbs s q = Some b" and rq: "requests s r = Some rq"
    and wn: "set_option wnext \<subseteq> dom (rqcbs s)" and hok: "handler_ok handler s"
    and jump: "nstage rq \<le> MAX_STAGE_JUMP"
  shows "\<exists>wn' s' xs. worker_process True w handler init_ok wnext q r cl s = Some (wn', s')
     \<and> moved H s (H - {r}) s' \<and> set_option wn' \<subseteq> dom (rqcbs s')
     \<and> queues s (processed_place handler init_ok wnext b q s rq cl) = Some xs
     \<and> queues s' = (queues s)(processed_place handler init_ok wnext b q s rq cl \<mapsto> xs @ [r])"
proof -
  have fin: "\<exists>s'. to_done_stage True w r (put_request r rq' s) = Some s' \<and> moved H s (H - {r}) s'
      \<and> queues s' = (queues s)(QDone \<mapsto> request_head (done_rqcb s) @ [r])" if "csp rq' = csp rq" for rq'
  proof -
    have m: "moved H s H (put_request r rq' s)" using moved_put_request [OF inv rq that] .
    show ?thesis using to_done_stage_inv [OF movedD(1) [OF m] r, of w] moved_trans [OF m] by auto
  qed
  have here: "to_done_stage True w r s = to_done_stage True w r (put_request r rq s)"
    using rq by (simp add: put_request_def fun_upd_idem)
  show ?thesis
  proof (cases "\<not> times_out s rq cl \<and> cancelled rq = 0 \<and> init_ok \<and> request_handler b \<noteq> None")
    case True
    then obtain h where h: "request_handler b = Some h" by blast
    let ?hr = "handler h rq"
    let ?wn = "case hr_next ?hr of Some n \<Rightarrow> Some n | None \<Rightarrow> wnext"
    let ?rq = "rq\<lparr>ret := to_int32 (hr_ret ?hr), err := hr_errno ?hr\<rparr>"
    have m: "moved H s H (put_request r ?rq s)" using moved_put_request [OF inv rq] by simp
    have nl: "\<not> loops ?rq" using jump by (auto simp: loops_def)
    have wn2: "set_option ?wn \<subseteq> dom (rqcbs (put_request r ?rq s))"
    proof (cases "hr_next ?hr")
      case None
      then show ?thesis using wn by simp
    next
      case (Some n)
      then show ?thesis using hok [unfolded handler_ok_def, rule_format, of h rq] by simp
    qed
    have eq: "worker_process True w handler init_ok wnext q r cl s
        = submit_next True w ?wn q r (put_request r ?rq s)"
      using True h rq b by (auto simp: worker_process_def times_out_def Let_def)
    have pl: "processed_place handler init_ok wnext b q s rq cl = next_place ?wn b q (ret ?rq)"
      using True h by (simp add: processed_place_def)
    obtain wn' s' xs where sn: "submit_next True w ?wn q r (put_request r ?rq s) = Some (wn', s')"
      "moved H (put_request r ?rq s) (H - {r}) s'" "wn' \<in> {?wn, None}"
      "queues s (next_place ?wn b q (ret ?rq)) = Some xs"
      "queues s' = (queues s)(next_place ?wn b q (ret ?rq) \<mapsto> xs @ [r])"
      using submit_next_inv [OF movedD(1) [OF m] r _ _ wn2 nl, of q b w] b by auto
    have "set_option wn' \<subseteq> dom (rqcbs s')" 
    proof (cases "wn' = None")
      case False
      then have "wn' = ?wn" using sn(3) by fast
      then show ?thesis using wn2 movedD(3) [OF sn(2)] by simp
    qed simp
    then show ?thesis unfolding eq pl using sn(1,4,5) moved_trans [OF m sn(2)] by blast
  next
    case False
    obtain rq' where c: "csp rq' = csp rq" and eq: "worker_process True w handler init_ok wnext q r cl s
        = to_done_stage True w r (put_request r rq' s) \<bind> (\<lambda>s'. Some (wnext, s'))"
    proof (cases "times_out s rq cl")
      case True
      then show ?thesis using that [of "rq\<lparr>flags := uint REQUEST_TIME_OUT\<rparr>"] rq b
        by (simp add: worker_process_def times_out_def)
    next
      case nt: False
      show ?thesis
      proof (cases "cancelled rq = 0")
        case True
        then have "worker_process True w handler init_ok wnext q r cl s
            = to_done_stage True w r s \<bind> (\<lambda>s'. Some (wnext, s'))"
          using False nt rq b by (auto simp: worker_process_def times_out_def split: option.splits)
        then show ?thesis using that [of rq] here by simp
      next
        case c: False
        then have "worker_process True w handler init_ok wnext q r cl s
            = to_done_stage True w r (put_request r (rq\<lparr>ret := 0, err := 0\<rparr>) s) \<bind> (\<lambda>s'. Some (wnext, s'))"
          using nt rq b by (auto simp: worker_process_def times_out_def)
        then show ?thesis using that [of "rq\<lparr>ret := 0, err := 0\<rparr>"] by simp
      qed
    qed
    have pl: "processed_place handler init_ok wnext b q s rq cl = QDone"
      using False by (auto simp: processed_place_def split: option.splits)
    obtain s' where s': "to_done_stage True w r (put_request r rq' s) = Some s'" "moved H s (H - {r}) s'"
      "queues s' = (queues s)(QDone \<mapsto> request_head (done_rqcb s) @ [r])" using fin [OF c] by blast
    have "set_option wnext \<subseteq> dom (rqcbs s')" using wn movedD(3) [OF s'(2)] by simp
    then show ?thesis unfolding eq pl using s' by simp
  qed
qed

end
