(* ===== verification/Pipeline_Submit.thy ===== *)
theory Pipeline_Submit
  imports Pipeline_Worker
begin

text \<open>
  The main-thread side that brings requests in: \<^verbatim>\<open>send_to_pipeline\<close> and
  \<^verbatim>\<open>submit_request\<close>, with the requests it kicks out of a full queue or drops because they
  are too old.
\<close>

section \<open>Requests that are pushed out\<close>

text \<open>
  \<open>counts k H s\<close>: the counter \<^verbatim>\<open>pipeline_queue_len\<close> is the number of live requests without
  those in the final queue, less \<open>k\<close>.
\<close>

definition counts :: "nat \<Rightarrow> nat set \<Rightarrow> sys \<Rightarrow> bool" where
  "counts k H s \<longleftrightarrow> pipeline_queue_len s + of_nat (length (final_request_head s)) + of_nat k
     = of_nat (card (live H s))"

lemma moved_counts: "moved H s H' s' \<Longrightarrow> counts k H' s' = counts k H s"
  by (simp add: counts_def moved_def)

text \<open>Moving one request from a stage's queue to the final queue.\<close>

definition pushed_out :: "nat set \<Rightarrow> nat \<Rightarrow> nat list \<Rightarrow> sys \<Rightarrow> sys \<Rightarrow> bool" where
  "pushed_out H q rs s s' \<longleftrightarrow> plinv H s' \<and> keeps s s' \<and> live H s' = live H s \<and>
     final_request_head s' = final_request_head s @ rs \<and>
     pipeline_queue_len s' = pipeline_queue_len s - of_nat (length rs) \<and>
     queues s' (QStage q) = map_option (filter (\<lambda>r. r \<notin> set rs)) (queues s (QStage q)) \<and>
     pcbs s' = pcbs s \<and> apq s' = apq s \<and> clock_off s' = clock_off s \<and>
     ri_timeout s' = ri_timeout s \<and> ri_queue_size s' = ri_queue_size s \<and>
     (\<forall>r. map_option clock (requests s' r) = map_option clock (requests s r))"

lemma pushed_out_refl: "plinv H s \<Longrightarrow> pushed_out H q [] s s"
  by (simp add: pushed_out_def option.map_ident_strong)

lemma pushed_out_trans:
  "pushed_out H q rs s s1 \<Longrightarrow> pushed_out H q rs' s1 s2 \<Longrightarrow> pushed_out H q (rs @ rs') s s2"
proof -
  assume a: "pushed_out H q rs s s1" and b: "pushed_out H q rs' s1 s2"
  have "keeps s s2" using a b keeps_trans unfolding pushed_out_def by blast
  then show ?thesis using a b unfolding pushed_out_def
    by (simp add: option.map_comp comp_def conj_commute)
qed

lemma pushed_out_counts: "pushed_out H q rs s s' \<Longrightarrow> counts k H s' = counts k H s"
proof -
  assume p: "pushed_out H q rs s s'"
  then have "pipeline_queue_len s = pipeline_queue_len s' + of_nat (length rs)"
    unfolding pushed_out_def by simp
  then show ?thesis using p unfolding counts_def pushed_out_def by (simp add: ac_simps)
qed

lemma push_one:
  assumes inv: "plinv H s" and b: "rqcbs s q = Some b" and m: "r \<in> set (request_head b)"
    and rq: "requests s r = Some rq" and c: "csp rq' = csp rq" "clock rq' = clock rq"
  shows "pushed_out H q [r] s
     ((put_rqcb q (b\<lparr>request_head := remove1 r (request_head b), queue_len := queue_len b - 1\<rparr>)
        (put_request r rq' s))
      \<lparr>pipeline_queue_len := pipeline_queue_len s - 1, final_request_head := final_request_head s @ [r]\<rparr>)"
proof -
  let ?b = "b\<lparr>request_head := remove1 r (request_head b), queue_len := queue_len b - 1\<rparr>"
  let ?s = "(put_rqcb q ?b (put_request r rq' s))
    \<lparr>pipeline_queue_len := pipeline_queue_len s - 1, final_request_head := final_request_head s @ [r]\<rparr>"
  note i = invD [OF inv]
  have h: "queues s (QStage q) = Some (request_head b)" using b by simp
  note mv = ownedQ_move [OF i(1) h m queues_at(4) qhead.distinct(5)]
  have d: "dom (requests ?s) = dom (requests s)" using rq by auto
  have ds: "distinct (request_head b)" using i(1) qwfD(1) [of "queues s", OF _ h] unfolding ownedQ_def by simp
  have "lens (put_rqcb q ?b (put_request r rq' s))"
    using i(2) b m by (intro lens_put) (auto simp: lens_def of_nat_length_remove1)
  moreover have "linked (put_rqcb q ?b (put_request r rq' s))" using i(4) b by (intro linked_put) auto
  ultimately have "plinv H ?s" using mv(1) i(3) d by (simp add: plinv_def)
  moreover have "keeps s ?s" using mv(2) b rq c by (auto simp: keeps_def)
  moreover have "live H ?s = live H s" using mv(3) by (simp add: live_def)
  moreover have "remove1 r (request_head b) = filter (\<lambda>x. x \<notin> set [r]) (request_head b)"
    using ds by (simp add: remove1_filter)
  ultimately show ?thesis using b rq c(2) by (simp add: pushed_out_def)
qed

lemma kick_out_inv:
  assumes inv: "plinv H s" and b: "rqcbs s q = Some b" and ne: "request_head b \<noteq> []"
  shows "\<exists>s'. kick_out q s = Some s' \<and> pushed_out H q [hd (request_head b)] s s'"
proof -
  obtain r rs where rs: "request_head b = r # rs" using ne by (cases "request_head b") auto
  have h: "queues s (QStage q) = Some (request_head b)" and m: "r \<in> set (request_head b)"
    using b rs by simp_all
  obtain rq where rq: "requests s r = Some rq" using inv_request(1) [OF inv h m] by blast
  show ?thesis using push_one [OF inv b m rq, of "rq\<lparr>flags := uint REQUEST_KICK_OUT\<rparr>"] b rs rq
    by (simp add: kick_out_def Let_def)
qed

definition too_old :: "sys \<Rightarrow> nat \<Rightarrow> bool" where
  "too_old s r \<longleftrightarrow> (\<exists>t. map_option clock (requests s r) = Some t \<and> clock_off s - t > ri_timeout s)"

lemma pushed_out_too_old: "pushed_out H q rs s s' \<Longrightarrow> too_old s' = too_old s"
  unfolding pushed_out_def too_old_def [abs_def] by simp

lemma drop_timed_out_inv:
  assumes "plinv H s" and "rqcbs s q = Some b" and "set rs \<subseteq> set (request_head b)" and "distinct rs"
  shows "\<exists>s'. drop_timed_out q rs n s = Some (n \<or> (\<exists>r \<in> set rs. too_old s r), s')
     \<and> pushed_out H q (filter (too_old s) rs) s s'"
  using assms
proof (induction rs arbitrary: s b n)
  case Nil
  then show ?case by (simp add: pushed_out_refl)
next
  case (Cons r rs)
  have h: "queues s (QStage q) = Some (request_head b)" and m: "r \<in> set (request_head b)"
    using Cons.prems by simp_all
  obtain rq where rq: "requests s r = Some rq" using inv_request(1) [OF Cons.prems(1) h m] by blast
  show ?case
  proof (cases "too_old s r")
    case False
    then show ?thesis using Cons.IH [OF Cons.prems(1,2), of n] Cons.prems rq by (simp add: too_old_def)
  next
    case True
    let ?b = "b\<lparr>request_head := remove1 r (request_head b), queue_len := queue_len b - 1\<rparr>"
    let ?s = "(put_rqcb q ?b s)
      \<lparr>pipeline_queue_len := pipeline_queue_len s - 1, final_request_head := final_request_head s @ [r]\<rparr>"
    have "put_request r rq s = s" using rq by (simp add: put_request_def fun_upd_idem)
    then have p: "pushed_out H q [r] s ?s"
      using push_one [OF Cons.prems(1,2) m rq, of rq] by simp
    have "set rs \<subseteq> set (request_head ?b)"
      using Cons.prems(3,4) by (auto intro!: in_set_remove1 [THEN iffD2])
    then obtain s' where s': "drop_timed_out q rs True ?s = Some (True, s')"
      "pushed_out H q (filter (too_old ?s) rs) ?s s'"
      using Cons.IH [of ?s ?b True] p Cons.prems(4) by (auto simp: pushed_out_def)
    have "drop_timed_out q (r # rs) n s = Some (True, s')"
      using True rq Cons.prems(2) s'(1) by (simp add: too_old_def Let_def)
    moreover have "pushed_out H q (filter (too_old s) (r # rs)) s s'"
      using pushed_out_trans [OF p s'(2)] True pushed_out_too_old [OF p] by simp
    ultimately show ?thesis using True by auto
  qed
qed

section \<open>Sending a request to its pipeline\<close>

text \<open>The requests that wait for the first stage of a pipeline, in order.\<close>

definition backlogQ :: "nat option option \<Rightarrow> (qhead, nat) queues \<Rightarrow> nat \<Rightarrow> nat list" where
  "backlogQ first Q p = (case first of
       Some (Some q) \<Rightarrow> (case (Q (QStage q), Q (QTmp p)) of (Some xs, Some ys) \<Rightarrow> xs @ ys | _ \<Rightarrow> [])
     | _ \<Rightarrow> [])"

definition backlog :: "sys \<Rightarrow> nat \<Rightarrow> nat list" where
  "backlog s p = backlogQ (map_option first_rqcbp (pcbs s p)) (queues s) p"

lemma backlog_eq:
  "pcbs s p = Some c \<Longrightarrow> first_rqcbp c = Some q \<Longrightarrow> rqcbs s q = Some b \<Longrightarrow>
     backlog s p = request_head b @ tmp_request_head c"
  by (simp add: backlog_def backlogQ_def)

lemma send_concat_inv:
  assumes inv: "plinv H s" and c: "pcbs s p = Some c" and b: "rqcbs s q = Some b"
  shows "\<exists>s' b' c'. send_concat p q cat s = Some s' \<and> moved H s H s' \<and> requests s' = requests s
     \<and> rqcbs s' q = Some b' \<and> request_head b' = request_head b @ (if cat then tmp_request_head c else [])
     \<and> pcbs s' p = Some c' \<and> first_rqcbp c' = first_rqcbp c
     \<and> tmp_request_head c' = (if cat then [] else tmp_request_head c)
     \<and> ri_queue_size s' = ri_queue_size s \<and> ri_timeout s' = ri_timeout s"
proof (cases cat)
  case False
  then show ?thesis using inv c b by (auto simp: send_concat_def moved_refl)
next
  case True
  let ?c = "c\<lparr>tmp_request_head := [], tmp_queue_len := 0\<rparr>"
  obtain s1 where s1: "move_buffered p q s = Some s1" "plinv H s1" "keeps s s1"
    "members (queues s1) = members (queues s)" "pipeline_queue_len s1 = pipeline_queue_len s"
    "requests s1 = requests s" "final_request_head s1 = final_request_head s"
    "rqcbs s1 = (rqcbs s)(q \<mapsto> b\<lparr>request_head := request_head b @ tmp_request_head c,
       queue_len := queue_len b + tmp_queue_len c\<rparr>)"
    "ri_queue_size s1 = ri_queue_size s" "ri_timeout s1 = ri_timeout s"
    and c1: "pcbs s1 p = Some ?c"
    using move_buffered_inv [OF inv c b] by blast
  have m1: "moved H s H s1" using s1 by (simp add: moved_def live_def)
  show ?thesis
  proof (cases "aqe_empty c")
    case True
    then show ?thesis using \<open>cat\<close> s1 c1 m1 by (simp add: send_concat_def)
  next
    case False
    have t: "tmp_request_head ?c = []" by simp
    obtain s2 where s2: "apq_remove p s1 = Some s2" "plinv H s2" "keeps s1 s2" "queues s2 = queues s1"
      "pcbs s2 = (pcbs s1)(p \<mapsto> ?c\<lparr>aqe_empty := True\<rparr>)" "pipeline_queue_len s2 = pipeline_queue_len s1"
      "requests s2 = requests s1" "rqcbs s2 = rqcbs s1" "final_request_head s2 = final_request_head s1"
      "ri_queue_size s2 = ri_queue_size s1" "ri_timeout s2 = ri_timeout s1"
      using apq_remove_inv [OF s1(2) c1 t] by blast
    have "moved H s1 H s2" using s2 by (simp add: moved_def live_def)
    then show ?thesis using False \<open>cat\<close> s1 c1 s2 moved_trans [OF m1] by (simp add: send_concat_def)
  qed
qed

text \<open>
  A forced request that kicks out another needs a limit above zero: with the limit zero the
  queue counts as full even when it is empty, and there is nothing to kick out.
\<close>

lemma send_push_inv:
  assumes inv: "plinv H s" and b: "rqcbs s q = Some b"
    and lim: "fl AND REQUEST_FORCE = 0 \<or> fl AND REQUEST_KICK_OUT = 0 \<or> ri_queue_size s \<noteq> 0"
  shows "\<exists>out notice s'. send_push q fl s = Some (notice, s') \<and> pushed_out H q out s s'
     \<and> set out \<subseteq> set (request_head b) \<and> (out \<noteq> [] \<longrightarrow> notice)
     \<and> (fl AND REQUEST_KICK_OUT = 0 \<longrightarrow> fl AND REQUEST_TIME_OUT = 0 \<longrightarrow> out = [])"
proof -
  let ?kick = "fl AND REQUEST_FORCE \<noteq> 0 \<and> fl AND REQUEST_KICK_OUT \<noteq> 0
                  \<and> ucast (queue_len b) \<ge> ri_queue_size s"
  let ?tmo = "\<lambda>s :: sys. fl AND REQUEST_TIME_OUT \<noteq> 0 \<and> ri_timeout s \<noteq> 0"
  have ne: "request_head b \<noteq> []" if ?kick
  proof
    assume "request_head b = []"
    then have "queue_len b = 0" using invD(2) [OF inv] b by (simp add: lens_def)
    then show False using that lim by auto
  qed
  obtain out1 s1 where s1: "(if ?kick then kick_out q s else Some s) = Some s1" "pushed_out H q out1 s s1"
    and o1: "set out1 \<subseteq> set (request_head b)" "out1 \<noteq> [] \<longrightarrow> ?kick"
  proof (cases ?kick)
    case True
    then show ?thesis using kick_out_inv [OF inv b ne [OF True]] that [of _ "[hd (request_head b)]"] ne by auto
  next
    case False
    then show ?thesis using that [of s "[]"] pushed_out_refl [OF inv] by auto
  qed
  have i1: "plinv H s1" using s1(2) by (simp add: pushed_out_def)
  obtain b1 where b1: "rqcbs s1 q = Some b1" and h1: "request_head b1 = filter (\<lambda>r. r \<notin> set out1) (request_head b)"
    using s1(2) b by (auto simp: pushed_out_def)
  have d: "distinct (request_head b1)"
    using invD(1) [OF i1] qwfD(1) [of "queues s1" "QStage q"] b1 by (simp add: ownedQ_def)
  have eq: "send_push q fl s = (if ?tmo s1 then drop_timed_out q (request_head b1) ?kick s1 else Some (?kick, s1))"
    using b s1(1) b1 by (simp add: send_push_def)
  show ?thesis
  proof (cases "?tmo s1")
    case True
    obtain s2 where s2: "drop_timed_out q (request_head b1) ?kick s1
        = Some (?kick \<or> (\<exists>r \<in> set (request_head b1). too_old s1 r), s2)"
      "pushed_out H q (filter (too_old s1) (request_head b1)) s1 s2"
      using drop_timed_out_inv [OF i1 b1 subset_refl d] by blast
    show ?thesis
      unfolding eq using True s2(1) pushed_out_trans [OF s1(2) s2(2)] o1 h1
      by (intro exI [of _ "out1 @ filter (too_old s1) (request_head b1)"] exI
           [of _ "?kick \<or> (\<exists>r \<in> set (request_head b1). too_old s1 r)"] exI [of _ s2])
         (auto simp: filter_empty_conv)
  next
    case False
    then show ?thesis unfolding eq using s1(2) o1 by auto
  qed
qed

text \<open>The postcondition of a request that was sent; \<open>out\<close> are the requests pushed out.\<close>

definition sent :: "nat set \<Rightarrow> nat \<Rightarrow> nat \<Rightarrow> nat list \<Rightarrow> sys \<Rightarrow> sys \<Rightarrow> bool" where
  "sent H r p out s s' \<longleftrightarrow> plinv (H - {r}) s' \<and> keeps s s' \<and> live (H - {r}) s' = live H s
     \<and> final_request_head s' = final_request_head s @ out
     \<and> pipeline_queue_len s' = pipeline_queue_len s + 1 - of_nat (length out)
     \<and> backlog s' p = filter (\<lambda>x. x \<notin> set out) (backlog s p) @ [r]"

lemma sent_notify [simp]: "sent H r p out s (notify_done w s') = sent H r p out s s'"
  by (simp add: sent_def backlog_def)

lemma enqueue_inv:
  assumes inv: "plinv H s" and r: "r \<in> H" and b: "rqcbs s q = Some b"
  defines "s' \<equiv> (put_rqcb q (b\<lparr>request_head := request_head b @ [r], queue_len := queue_len b + 1\<rparr>) s)
                    \<lparr>pipeline_queue_len := pipeline_queue_len s + 1\<rparr>"
  shows "plinv (H - {r}) s'" and "keeps s s'" and "live (H - {r}) s' = live H s"
proof -
  let ?b = "b\<lparr>request_head := request_head b @ [r], queue_len := queue_len b + 1\<rparr>"
  note i = invD [OF inv]
  have "queues s (QStage q) = Some (request_head b)" using b by simp
  note p = ownedQ_put [OF i(1) this r]
  have "lens (put_rqcb q ?b s)" using i(2) b by (intro lens_put) (auto simp: lens_def)
  moreover have "linked (put_rqcb q ?b s)" using i(4) b by (intro linked_put) auto
  ultimately show "plinv (H - {r}) s'" using p(1) i(3) by (simp add: plinv_def s'_def)
  show "keeps s s'" using p(2) b by (auto simp: keeps_def s'_def)
  show "live (H - {r}) s' = live H s" using p(3) r by (auto simp: live_def s'_def)
qed

lemma send_locked_inv:
  assumes inv: "plinv H s" and r: "r \<in> H" and c: "pcbs s p = Some c"
    and q: "first_rqcbp c = Some q" and b: "rqcbs s q = Some b" and cat: "cat \<longleftrightarrow> tmp_request_head c \<noteq> []"
    and lim: "fl AND REQUEST_FORCE = 0 \<or> fl AND REQUEST_KICK_OUT = 0 \<or> ri_queue_size s \<noteq> 0"
    and env: "signal_ok env" "unlock_ok env"
  shows "\<exists>rc s'. send_locked env p q r fl cat s = Some (rc, s') \<and>
     (rc = 0 \<and> (\<exists>out. sent H r p out s s' \<and> (fl AND REQUEST_KICK_OUT = 0 \<longrightarrow> fl AND REQUEST_TIME_OUT = 0 \<longrightarrow> out = []))
      \<or> rc = SUBMIT_QUEUE_FULL \<and> moved H s H s' \<and> fl AND REQUEST_FORCE = 0)"
proof -
  obtain s1 b1 c1 where s1: "send_concat p q cat s = Some s1" and m1: "moved H s H s1"
    and b1: "rqcbs s1 q = Some b1" "request_head b1 = request_head b @ (if cat then tmp_request_head c else [])"
    and c1: "pcbs s1 p = Some c1" "first_rqcbp c1 = first_rqcbp c"
      "tmp_request_head c1 = (if cat then [] else tmp_request_head c)"
    and ri: "ri_queue_size s1 = ri_queue_size s"
    using send_concat_inv [OF inv c b] by blast
  show ?thesis
  proof (cases "fl AND REQUEST_FORCE = 0 \<and> ucast (queue_len b1) \<ge> ri_queue_size s1")
    case True
    then show ?thesis using s1 b1 m1 by (simp add: send_locked_def)
  next
    case False
    have lim1: "fl AND REQUEST_FORCE = 0 \<or> fl AND REQUEST_KICK_OUT = 0 \<or> ri_queue_size s1 \<noteq> 0"
      using lim ri by simp
    obtain out notice s2 where s2: "send_push q fl s1 = Some (notice, s2)" and p2: "pushed_out H q out s1 s2"
      and no: "fl AND REQUEST_KICK_OUT = 0 \<longrightarrow> fl AND REQUEST_TIME_OUT = 0 \<longrightarrow> out = []"
      using send_push_inv [OF movedD(1) [OF m1] b1(1) lim1] by blast
    obtain b2 where b2: "rqcbs s2 q = Some b2" "request_head b2 = filter (\<lambda>x. x \<notin> set out) (request_head b1)"
      using p2 b1 by (auto simp: pushed_out_def)
    let ?s = "(put_rqcb q (b2\<lparr>request_head := request_head b2 @ [r], queue_len := queue_len b2 + 1\<rparr>) s2)
                    \<lparr>pipeline_queue_len := pipeline_queue_len s2 + 1\<rparr>"
    have i2: "plinv H s2" and k2: "keeps s1 s2" "live H s2 = live H s1" "pcbs s2 = pcbs s1"
      "final_request_head s2 = final_request_head s1 @ out"
      "pipeline_queue_len s2 = pipeline_queue_len s1 - of_nat (length out)"
      using p2 by (auto simp: pushed_out_def)
    note e = enqueue_inv [OF i2 r b2(1)]
    have "keeps s ?s" using keeps_trans [OF keeps_trans [OF movedD(2) [OF m1] k2(1)] e(2)] .
    moreover have "backlog s p = request_head b1"
      using backlog_eq [OF c q b] b1(2) cat by simp
    moreover have "backlog ?s p = request_head b2 @ [r]"
      using backlog_eq [of ?s p c1 q] c1 k2(3) q cat by simp
    ultimately have "sent H r p out s ?s"
      using e(1,3) k2 m1 b2(2) by (simp add: sent_def moved_def)
    then have "sent H r p out s (if notice then notify_done (write_ok env) ?s else ?s)"
      by (cases notice) simp_all
    then show ?thesis using False s1 b1 s2 b2 env no by (auto simp: send_locked_def Let_def)
  qed
qed

lemma buffer_inv:
  assumes inv: "plinv H s" and r: "r \<in> H" and c: "pcbs s p = Some c" and q: "first_rqcbp c = Some q"
    and b: "rqcbs s q = Some b"
  defines "c1 \<equiv> c\<lparr>tmp_request_head := tmp_request_head c @ [r], tmp_queue_len := tmp_queue_len c + 1\<rparr>"
    and "s1 \<equiv> s\<lparr>pipeline_queue_len := pipeline_queue_len s + 1\<rparr>"
  shows "sent H r p [] s (if aqe_empty c1
     then put_pcb p (c1\<lparr>aqe_empty := False\<rparr>) (s1\<lparr>apq := apq s1 @ [p]\<rparr>) else put_pcb p c1 s1)"
    (is "sent H r p [] s ?s")
proof -
  note i = invD [OF inv]
  have "queues s (QTmp p) = Some (tmp_request_head c)" using c by simp
  note pt = ownedQ_put [OF i(1) this r]
  have Q: "queues ?s = (queues s)(QTmp p \<mapsto> tmp_request_head c @ [r])" by (simp add: c1_def s1_def)
  have "lens ?s" using i(2) c by (auto intro!: lens_put simp: c1_def s1_def) (auto simp: lens_def)
  moreover have "active ?s" using i(3) c by (auto simp: active_def c1_def s1_def)
  moreover have "linked ?s" using i(4) c by (auto intro!: linked_put simp: c1_def s1_def)
  moreover have R: "requests ?s = requests s" by (simp add: s1_def)
  ultimately have "plinv (H - {r}) ?s" using pt(1) Q by (simp add: plinv_def del: queues_put)
  moreover have "keeps s ?s" using pt(2) Q R c by (auto simp: keeps_def s1_def simp del: queues_put)
  moreover have "live (H - {r}) ?s = live H s" using pt(3) Q r by (auto simp: live_def simp del: queues_put)
  moreover have "backlog ?s p = backlog s p @ [r]" 
    using backlog_eq [OF c q b] backlog_eq [of ?s p _ q b] q b by (auto simp: c1_def s1_def)
  ultimately show ?thesis by (simp add: sent_def s1_def del: fun_upd_apply)
qed

lemma send_to_pipeline_inv:
  assumes inv: "plinv H s" and r: "r \<in> H" and c: "pcbs s p = Some c" and cat: "cat \<longleftrightarrow> tmp_request_head c \<noteq> []"
    and lim: "fl AND REQUEST_FORCE = 0 \<or> fl AND REQUEST_KICK_OUT = 0 \<or> ri_queue_size s \<noteq> 0"
    and env: "signal_ok env" "unlock_ok env"
  shows "\<exists>rc s'. send_to_pipeline env p r fl cat s = Some (rc, s') \<and>
     (rc = 0 \<and> (\<exists>out. sent H r p out s s' \<and> (fl AND REQUEST_KICK_OUT = 0 \<longrightarrow> fl AND REQUEST_TIME_OUT = 0 \<longrightarrow> out = []))
      \<or> rc = SUBMIT_QUEUE_FULL \<and> moved H s H s' \<and> fl AND REQUEST_FORCE = 0)"
proof -
  obtain q b where q: "first_rqcbp c = Some q" and b: "rqcbs s q = Some b"
    using invD(4) [OF inv] c unfolding linked_def by blast
  show ?thesis
  proof (cases "trylock_ok env")
    case True
    then show ?thesis using send_locked_inv [OF inv r c q b cat lim env] c q b
      by (simp add: send_to_pipeline_def)
  next
    case False
    let ?c = "c\<lparr>tmp_request_head := tmp_request_head c @ [r], tmp_queue_len := tmp_queue_len c + 1\<rparr>"
    let ?s = "s\<lparr>pipeline_queue_len := pipeline_queue_len s + 1\<rparr>"
    have "send_to_pipeline env p r fl cat s = Some (0, if aqe_empty ?c
       then put_pcb p (?c\<lparr>aqe_empty := False\<rparr>) (?s\<lparr>apq := apq ?s @ [p]\<rparr>) else put_pcb p ?c ?s)"
      using False c q b by (simp add: send_to_pipeline_def Let_def)
    then show ?thesis using buffer_inv [OF inv r c q b] by blast
  qed
qed

section \<open>Submitting\<close>

text \<open>Allocating a request: it is live and held by the submitting call.\<close>

lemma plinv_conns [simp]: "plinv H (s\<lparr>conns := m\<rparr>) = plinv H s"
  by (simp add: plinv_def)

lemma plinv_inc [simp]: "plinv H (s\<lparr>inc := n\<rparr>) = plinv H s"
  by (simp add: plinv_def)

lemma backlog_frame [simp]:
  "backlog (put_request r rq s) = backlog s" "backlog (s\<lparr>conns := m\<rparr>) = backlog s"
  "backlog (s\<lparr>inc := n\<rparr>) = backlog s"
  by (simp_all add: fun_eq_iff backlog_def)

lemma backlog_cong:
  "queues s' = queues s \<Longrightarrow> map_option first_rqcbp (pcbs s' p) = map_option first_rqcbp (pcbs s p) \<Longrightarrow>
     backlog s' p = backlog s p"
  by (simp add: backlog_def)

lemma plinv_new:
  assumes "plinv H s" and "r \<notin> dom (requests s)"
  shows "plinv (insert r H) (put_request r rq s)" and "r \<notin> H" and "r \<notin> live H s"
proof -
  have o: "ownedQ H (queues s) (dom (requests s))" using invD(1) [OF assms(1)] .
  then have "ownedQ (insert r H) (queues s) (insert r (dom (requests s)))"
    using assms(2) by (auto simp: ownedQ_def)
  then show "plinv (insert r H) (put_request r rq s)" using assms(1) by (simp add: plinv_def)
  show "r \<notin> H" "r \<notin> live H s" using o assms(2) by (auto simp: ownedQ_def live_def)
qed

lemma finite_live: "plinv H s \<Longrightarrow> finite (live H s)"
  unfolding plinv_def ownedQ_def live_def by (metis Un_commute finite_subset)

text \<open>The final bookkeeping of a submission changes neither queues nor requests.\<close>

lemma bump_counters:
  assumes inv: "plinv H s" and c: "pcbs s p = Some c" and b: "rqcbs s q = Some b"
  defines "s' \<equiv> put_rqcb q (b\<lparr>request_count := request_count b + 1\<rparr>) (put_pcb p (c\<lparr>counter := counter c + 1\<rparr>) s)"
  shows "moved H s H s'" and "backlog s' = backlog s" and "requests s' = requests s"
proof -
  note i = invD [OF inv]
  have Q: "queues s' = queues s" using c b by (auto simp: fun_eq_iff s'_def)
  show R: "requests s' = requests s" by (simp add: s'_def)
  have "lens s'" unfolding s'_def using i(2) c b by (intro lens_put) (auto simp: lens_def)
  moreover have "active s'" unfolding s'_def using i(3) c by (auto simp: active_def)
  moreover have "linked s'" unfolding s'_def using i(4) c b by (intro linked_put) auto
  ultimately have "plinv H s'" using i(1) Q R by (simp add: plinv_def)
  then show "moved H s H s'" using Q R c b
    by (auto simp: moved_def keeps_def live_def s'_def simp del: queues_put)
  show "backlog s' = backlog s" using Q c by (intro ext backlog_cong) (auto simp: s'_def)
qed

text \<open>The transaction id: seven bits of pipeline number over a 56-bit sequence number.\<close>

lemma make_tid_fields:
  assumes "unat pid < 128" and "n < 2 ^ 56"
  shows "unat (make_tid pid n) = unat pid * 2 ^ 56 + unat n"
proof -
  have "take_bit 7 pid = pid"
    using assms(1) by (simp add: word_unat_eq_iff unsigned_take_bit_eq take_bit_nat_eq_self_iff)
  then have p: "pid AND 0x7f = pid" by (simp add: take_bit_eq_mask mask_eq_exp_minus_1)
  have n: "unat n < 2 ^ 56" using assms(2) by (simp add: word_less_nat_alt)
  have u: "unat (ucast pid :: u64) = unat pid" using assms(1) by (simp add: unsigned_ucast_eq take_bit_nat_eq_self_iff)
  have l: "unat pid * 2 ^ 56 + unat n < 2 ^ 64" using assms(1) n by simp
  have "unat (push_bit 56 (ucast pid) :: u64) = unat pid * 2 ^ 56"
    using l u by (simp add: push_bit_eq_mult unat_word_ariths)
  then show ?thesis using l unfolding make_tid_def p by (simp add: unat_word_ariths)
qed

lemma plinv_mono: "plinv H s \<Longrightarrow> H' \<subseteq> H \<Longrightarrow> plinv H' s"
  by (auto simp: plinv_def ownedQ_def)

text \<open>The state in which \<^verbatim>\<open>submit_request\<close> hands the new request over.\<close>

definition with_request :: "nat \<Rightarrow> request \<Rightarrow> nat \<Rightarrow> conn_state \<Rightarrow> sys \<Rightarrow> sys" where
  "with_request r rq cs st s = put_request r rq
     (s\<lparr>conns := (conns s)(cs \<mapsto> st\<lparr>ref_cnt := ref_cnt st + 1\<rparr>), inc := inc s + 1\<rparr>)"

text \<open>The result of a submission that is accepted.\<close>

definition submitted :: "nat set \<Rightarrow> nat \<Rightarrow> nat \<Rightarrow> nat list \<Rightarrow> sys \<Rightarrow> sys \<Rightarrow> bool" where
  "submitted H r p out s s' \<longleftrightarrow> plinv H s' \<and> live H s' = insert r (live H s) \<and> r \<notin> live H s
     \<and> final_request_head s' = final_request_head s @ out
     \<and> pipeline_queue_len s' = pipeline_queue_len s + 1 - of_nat (length out)
     \<and> backlog s' p = filter (\<lambda>x. x \<notin> set out) (backlog s p) @ [r]"

lemma submitted_counts: "submitted H r p out s s' \<Longrightarrow> plinv H s \<Longrightarrow> counts k H s \<Longrightarrow> counts k H s'"
proof -
  assume s: "submitted H r p out s s'" and i: "plinv H s" and c: "counts k H s"
  have "card (live H s') = Suc (card (live H s))"
    using s finite_live [OF i] by (simp add: submitted_def)
  moreover have "pipeline_queue_len s' + of_nat (length out) = pipeline_queue_len s + 1"
    using s unfolding submitted_def by simp
  moreover have "final_request_head s' = final_request_head s @ out" using s by (simp add: submitted_def)
  moreover have "pipeline_queue_len s' + of_nat (length (final_request_head s @ out)) + of_nat k
      = (pipeline_queue_len s' + of_nat (length out)) + (of_nat (length (final_request_head s)) + of_nat k)"
    by (simp add: ac_simps)
  ultimately show ?thesis using c unfolding counts_def by (simp add: ac_simps del: length_append)
qed

lemma submit_request_eq:
  fixes blk :: request and dat cleaner responder :: ptr
  assumes pid: "unat pid < PIPELINE_SIZE" and run: "\<not> graceful_restart s"
    and c: "pcbs s (unat pid) = Some c" and q: "first_rqcbp c = Some q"
    and room: "fl AND REQUEST_FORCE \<noteq> 0 \<or> pipeline_queue_len s < ri_queue_size s"
    and cs: "conns s cs = Some st"
  defines "rq \<equiv> (new_request blk s dat cleaner responder)\<lparr>csp := Some cs, tid := make_tid pid (inc s + 1)\<rparr>"
  shows "submit_request env (Some (r, blk)) (Some cs) pid dat cleaner responder fl s = do {
       (rc, s2) \<leftarrow> send_to_pipeline env (unat pid) r fl (tmp_request_head c \<noteq> []) (with_request r rq cs st s);
       if rc \<noteq> 0 then Some (Submitted SUBMIT_GENERIC_ERROR, s2)
       else do {
         c2 \<leftarrow> pcbs s2 (unat pid);
         let s3 = put_pcb (unat pid) (c2\<lparr>counter := counter c2 + 1\<rparr>) s2;
         b \<leftarrow> rqcbs s3 q;
         Some (Submitted (sint (make_tid pid (inc s + 1))), put_rqcb q (b\<lparr>request_count := request_count b + 1\<rparr>) s3)
       } }"
  using pid run c q room cs
  by (auto simp: submit_request_def CS_HOLD_def Let_def with_request_def rq_def new_request_def cong: if_cong)

lemma submit_request_inv:
  fixes blk :: request and dat cleaner responder :: ptr
  assumes inv: "plinv H s" and pid: "unat pid < PIPELINE_SIZE" and run: "\<not> graceful_restart s"
    and c: "pcbs s (unat pid) = Some c"
    and room: "fl AND REQUEST_FORCE \<noteq> 0 \<or> pipeline_queue_len s < ri_queue_size s"
    and fresh: "r \<notin> dom (requests s)" and cs: "conns s cs = Some st"
    and lim: "fl AND REQUEST_FORCE = 0 \<or> fl AND REQUEST_KICK_OUT = 0 \<or> ri_queue_size s \<noteq> 0"
    and env: "signal_ok env" "unlock_ok env"
  defines "rq \<equiv> (new_request blk s dat cleaner responder)\<lparr>csp := Some cs, tid := make_tid pid (inc s + 1)\<rparr>"
  shows "\<exists>res s'. submit_request env (Some (r, blk)) (Some cs) pid dat cleaner responder fl s = Some (Submitted res, s')
     \<and> (\<forall>x. map_option csp (requests s' x) = map_option csp (((requests s)(r \<mapsto> rq)) x))
     \<and> conns s' = (conns s)(cs \<mapsto> st\<lparr>ref_cnt := ref_cnt st + 1\<rparr>) \<and> dom (rqcbs s') = dom (rqcbs s)
     \<and> (res = sint (make_tid pid (inc s + 1)) \<and>
          (\<exists>out. submitted H r (unat pid) out s s' \<and> (fl AND REQUEST_KICK_OUT = 0 \<longrightarrow> fl AND REQUEST_TIME_OUT = 0 \<longrightarrow> out = []))
        \<or> res = SUBMIT_GENERIC_ERROR \<and> fl AND REQUEST_FORCE = 0 \<and> plinv H s' \<and> live H s' = live H s
          \<and> r \<in> dom (requests s') - live H s')"
proof -
  obtain q b where q: "first_rqcbp c = Some q" and b: "rqcbs s q = Some b"
    using invD(4) [OF inv] c unfolding linked_def by blast
  let ?s1 = "with_request r rq cs st s"
  have i1: "plinv (insert r H) ?s1" and nh: "r \<notin> H" and nl: "r \<notin> live H s"
    using plinv_new(1) [of H "s\<lparr>conns := (conns s)(cs \<mapsto> st\<lparr>ref_cnt := ref_cnt st + 1\<rparr>), inc := inc s + 1\<rparr>" r rq]
      plinv_new [OF inv fresh] inv fresh by (simp_all add: with_request_def)
  have w: "pcbs ?s1 = pcbs s" "rqcbs ?s1 = rqcbs s" "requests ?s1 = (requests s)(r \<mapsto> rq)"
    "conns ?s1 = (conns s)(cs \<mapsto> st\<lparr>ref_cnt := ref_cnt st + 1\<rparr>)" "ri_queue_size ?s1 = ri_queue_size s"
    "pipeline_queue_len ?s1 = pipeline_queue_len s" "final_request_head ?s1 = final_request_head s"
    "backlog ?s1 = backlog s" "queues ?s1 = queues s"
    by (simp_all add: with_request_def)
  have l1: "live (insert r H) ?s1 = insert r (live H s)" using w by (simp add: live_def)
  note eq = submit_request_eq [OF pid run c q room cs, of env r blk dat cleaner responder, folded rq_def]
  obtain rc s2 where s2: "send_to_pipeline env (unat pid) r fl (tmp_request_head c \<noteq> []) ?s1 = Some (rc, s2)"
    and out: "rc = 0 \<and> (\<exists>out. sent (insert r H) r (unat pid) out ?s1 s2 \<and>
         (fl AND REQUEST_KICK_OUT = 0 \<longrightarrow> fl AND REQUEST_TIME_OUT = 0 \<longrightarrow> out = []))
      \<or> rc = SUBMIT_QUEUE_FULL \<and> moved (insert r H) ?s1 (insert r H) s2 \<and> fl AND REQUEST_FORCE = 0"
    using send_to_pipeline_inv [OF i1 insertI1, of "unat pid" c _ fl env] c lim env w(1,5) by auto
  show ?thesis
    using out
  proof (elim disjE conjE exE)
    fix outs
    assume rc: "rc = 0" and st: "sent (insert r H) r (unat pid) outs ?s1 s2"
      and no: "fl AND REQUEST_KICK_OUT = 0 \<longrightarrow> fl AND REQUEST_TIME_OUT = 0 \<longrightarrow> outs = []"
    have k: "keeps ?s1 s2" and i2: "plinv H s2" using st nh by (auto simp: sent_def)
    obtain c2 b2 where c2: "pcbs s2 (unat pid) = Some c2" and b2: "rqcbs s2 q = Some b2"
      using k c b w(1,2) domI [of "pcbs s"] domI [of "rqcbs s"] unfolding keeps_def by (metis domD)
    note bc = bump_counters [OF i2 c2 b2]
    let ?s3 = "put_rqcb q (b2\<lparr>request_count := request_count b2 + 1\<rparr>) (put_pcb (unat pid) (c2\<lparr>counter := counter c2 + 1\<rparr>) s2)"
    have "submitted H r (unat pid) outs s ?s3"
      using st bc(1,2) w l1 nl nh by (simp add: submitted_def sent_def moved_def)
    moreover have "keeps ?s1 ?s3" using keeps_trans [OF k movedD(2) [OF bc(1)]] .
    ultimately show ?thesis unfolding eq using s2 rc c2 b2 no w(2-4)
      by (intro exI [of _ "sint (make_tid pid (inc s + 1))"] exI [of _ ?s3]) (auto simp: keeps_def)
  next
    assume rc: "rc = SUBMIT_QUEUE_FULL" and m: "moved (insert r H) ?s1 (insert r H) s2"
      and f: "fl AND REQUEST_FORCE = 0"
    have i2: "plinv (insert r H) s2" and k: "keeps ?s1 s2" using m by (simp_all add: moved_def)
    have r2: "r \<notin> members (queues s2)" "r \<in> dom (requests s2)"
      using invD(1) [OF i2] by (auto simp: ownedQ_def)
    have "live H s2 = live H s" using m l1 nl nh r2(1) by (auto simp: moved_def live_def set_eq_iff)
    then show ?thesis unfolding eq using s2 rc f w(2-4) r2 nl plinv_mono [OF i2 subset_insertI] k
      by (intro exI [of _ SUBMIT_GENERIC_ERROR] exI [of _ s2]) (auto simp: keeps_def pipeline_consts)
  qed
qed

end
