(* ===== verification/Pipeline_Done.thy ===== *)
theory Pipeline_Done
  imports Pipeline_Submit
begin

text \<open>
  Completion in the main thread: the requests of the done queue and of the final queue are
  answered, their connections released and their memory freed, each exactly once.
\<close>

section \<open>Connection references\<close>

definition refs :: "sys \<Rightarrow> nat \<rightharpoonup> u64" where
  "refs s c = map_option ref_cnt (conns s c)"

text \<open>The references of a connection after \<open>n\<close> releases.\<close>

definition drop_refs :: "nat \<Rightarrow> u64 option \<Rightarrow> u64 option" where
  "drop_refs n x = (case x of None \<Rightarrow> None | Some k \<Rightarrow> if unat k = n then None else Some (k - of_nat n))"

lemma drop_refs_0 [simp]: "x \<noteq> Some 0 \<Longrightarrow> drop_refs 0 x = x"
  by (auto simp: drop_refs_def unat_eq_0 split: option.splits)

lemma drop_refs_Suc:
  "Suc n \<le> unat k \<Longrightarrow> drop_refs (Suc n) (Some k) = drop_refs n (Some (k - 1))"
  "1 \<le> unat k \<Longrightarrow> unat (k - 1) = unat k - 1"
proof -
  show *: "unat (k - 1) = unat k - 1" if "1 \<le> unat k" for k :: u64
    using that by (simp add: unat_minus_one unat_gt_0 [symmetric])
  show "drop_refs (Suc n) (Some k) = drop_refs n (Some (k - 1))" if "Suc n \<le> unat k"
    using that * [of k] by (auto simp: drop_refs_def)
qed

text \<open>
  \<open>conn_step s s'\<close>: a step of the connection layer, which leaves the pipeline alone and
  adds no answer, cleaning or freeing of a request to the trace.
\<close>

definition conn_event :: "event \<Rightarrow> bool" where
  "conn_event e \<longleftrightarrow> (case e of Responder _ _ _ _ \<Rightarrow> False | Cleaner _ _ \<Rightarrow> False
     | FreeRequest _ \<Rightarrow> False | Broadcast \<Rightarrow> False | _ \<Rightarrow> True)"

definition conn_step :: "sys \<Rightarrow> sys \<Rightarrow> bool" where
  "conn_step s s' \<longleftrightarrow> (\<exists>m n ev. s' = s\<lparr>conns := m, connection_counter := n, trace := trace s @ ev\<rparr>
     \<and> list_all conn_event ev)"

lemma conn_step_refl [simp]: "conn_step s s"
  unfolding conn_step_def by (intro exI [of _ "conns s"] exI [of _ "connection_counter s"] exI [of _ "[]"]) simp

lemma conn_step_trans: "conn_step s s1 \<Longrightarrow> conn_step s1 s2 \<Longrightarrow> conn_step s s2"
  unfolding conn_step_def by (elim exE conjE) (auto intro!: exI)

lemma conn_step_basic:
  "conn_event e \<Longrightarrow> conn_step s (emit e s)" "conn_step s (s\<lparr>conns := m\<rparr>)"
  "conn_step s (s\<lparr>connection_counter := n\<rparr>)"
proof -
  show "conn_event e \<Longrightarrow> conn_step s (emit e s)"
    unfolding conn_step_def emit_def
    by (intro exI [of _ "conns s"] exI [of _ "connection_counter s"] exI [of _ "[e]"]) simp
  show "conn_step s (s\<lparr>conns := m\<rparr>)"
    unfolding conn_step_def by (intro exI [of _ m] exI [of _ "connection_counter s"] exI [of _ "[]"]) simp
  show "conn_step s (s\<lparr>connection_counter := n\<rparr>)"
    unfolding conn_step_def by (intro exI [of _ "conns s"] exI [of _ n] exI [of _ "[]"]) simp
qed

lemma conn_events [simp]:
  "conn_event (SessionEnd f c d)" "conn_event (CloseFd n)" "conn_event (EventDel c)" "conn_event (FreeConn c)"
  by (simp_all add: conn_event_def)

lemma world_frame [simp]:
  "queues (s\<lparr>connection_counter := n\<rparr>) = queues s" "queues (s\<lparr>trace := t\<rparr>) = queues s"
  "lens (s\<lparr>connection_counter := n\<rparr>) = lens s" "lens (s\<lparr>trace := t\<rparr>) = lens s"
  "active (s\<lparr>connection_counter := n\<rparr>) = active s" "active (s\<lparr>trace := t\<rparr>) = active s"
  "linked (s\<lparr>connection_counter := n\<rparr>) = linked s" "linked (s\<lparr>trace := t\<rparr>) = linked s"
  by (auto simp: fun_eq_iff queues_def lens_def active_def linked_def split: qhead.splits)

lemma conn_step_frame:
  assumes "conn_step s s'"
  shows "queues s' = queues s" "requests s' = requests s" "plinv H s' = plinv H s" "live H s' = live H s"
    "pipeline_queue_len s' = pipeline_queue_len s" "final_request_head s' = final_request_head s"
    "graceful_restart s' = graceful_restart s" "done_rqcb s' = done_rqcb s"
    "lens s' = lens s" "active s' = active s" "linked s' = linked s"
  using assms by (auto simp: conn_step_def plinv_def live_def)

lemma CS_RELE_step:
  assumes "conns s c = Some cs"
  shows "\<exists>s'. CS_RELE c s = Some s' \<and> conn_step s s' \<and> refs s' = (refs s)(c := drop_refs 1 (refs s c))"
proof -
  have u: "(unat (ref_cnt cs) = 1) = (ref_cnt cs = 1)" by (metis unat_1 word_unat_eq_iff)
  show ?thesis
  proof (cases "ref_cnt cs = 1")
    case True
    let ?s = "emit (FreeConn c) (s\<lparr>conns := (conns s)(c := None)\<rparr>)"
    have "conn_step s ?s" by (rule conn_step_trans [OF conn_step_basic(2) conn_step_basic(1)]) simp
    then show ?thesis using True assms u
      by (auto simp: CS_RELE_def Let_def refs_def drop_refs_def fun_eq_iff)
  next
    case False
    then show ?thesis using assms u conn_step_basic(2)
      by (auto simp: CS_RELE_def Let_def refs_def drop_refs_def fun_eq_iff)
  qed
qed

lemma conn_close_step:
  assumes "conns s c = Some cs" and "conn_close ops = Some f"
  shows "\<exists>s' cs'. f (Some c) s = Some s' \<and> conn_step s s' \<and> conns s' c = Some cs' \<and> refs s' = refs s"
proof -
  have f: "f = tcp_conn_close" using assms(2) by (simp add: conn_close_def split: option.splits cp_ops.splits)
  show ?thesis
  proof (cases "conn_type (ci cs) = CSF_TCP")
    case True
    let ?s = "emit (CloseFd (fd (ci cs))) (s\<lparr>conns := (conns s)(c \<mapsto> cs\<lparr>ci := (ci cs)\<lparr>fd := -1\<rparr>\<rparr>)\<rparr>)"
    have "conn_step s ?s" by (rule conn_step_trans [OF conn_step_basic(2) conn_step_basic(1)]) simp
    then show ?thesis using True assms(1) by (auto simp: f tcp_conn_close_def refs_def fun_eq_iff)
  next
    case False
    then show ?thesis using assms(1) by (simp add: f tcp_conn_close_def)
  qed
qed

lemma conn_state_cleanup_step:
  assumes "conns s c = Some cs"
  shows "\<exists>s'. conn_state_cleanup c s = Some s' \<and> conn_step s s' \<and> refs s' = (refs s)(c := drop_refs 1 (refs s c))"
proof -
  let ?s0 = "s\<lparr>connection_counter := connection_counter s - 1\<rparr>"
  let ?s1 = "do_protocol_session_end c (data cs) ?s0"
  let ?s2 = "emit (EventDel c) ?s1"
  have "conn_step ?s0 ?s1"
    by (cases "protocol_session_end (pc ?s0)") (auto simp: do_protocol_session_end_def intro: conn_step_basic)
  then have "conn_step s ?s2"
    using conn_step_trans [OF conn_step_trans [OF conn_step_basic(3)] conn_step_basic(1) [of "EventDel c"]] by simp
  moreover have "conns ?s2 = conns s"
    by (simp add: do_protocol_session_end_def split: option.splits)
  moreover from this have "conns ?s2 c = Some cs" "refs ?s2 = refs s" using assms by (simp_all add: refs_def fun_eq_iff)
  ultimately show ?thesis using CS_RELE_step [of ?s2 c cs] conn_step_trans [of s ?s2] assms
    by (auto simp: conn_state_cleanup_def connection_lost_def)
qed

lemma emit_sys [simp]:
  "requests (emit e s) = requests s" "rqcbs (emit e s) = rqcbs s" "pcbs (emit e s) = pcbs s"
  "done_rqcb (emit e s) = done_rqcb s" "final_request_head (emit e s) = final_request_head s"
  "pipeline_queue_len (emit e s) = pipeline_queue_len s" "graceful_restart (emit e s) = graceful_restart s"
  by (simp_all add: emit_def)

section \<open>Answers, cleaning and freeing in the trace\<close>

fun freed :: "event list \<Rightarrow> nat list" where
  "freed [] = []"
| "freed (FreeRequest r # t) = r # freed t"
| "freed (_ # t) = freed t"

fun answered :: "event list \<Rightarrow> (nat \<times> nat \<times> ptr \<times> int) list" where
  "answered [] = []"
| "answered (Responder f c d fl # t) = (f, c, d, fl) # answered t"
| "answered (_ # t) = answered t"

fun cleaned :: "event list \<Rightarrow> (nat \<times> ptr) list" where
  "cleaned [] = []"
| "cleaned (Cleaner f d # t) = (f, d) # cleaned t"
| "cleaned (_ # t) = cleaned t"

lemma freed_append [simp]: "freed (a @ b) = freed a @ freed b"
  by (induction a rule: freed.induct) auto

lemma answered_append [simp]: "answered (a @ b) = answered a @ answered b"
  by (induction a rule: answered.induct) auto

lemma cleaned_append [simp]: "cleaned (a @ b) = cleaned a @ cleaned b"
  by (induction a rule: cleaned.induct) auto

lemma conn_events_silent:
  "list_all conn_event ev \<Longrightarrow> freed ev = [] \<and> answered ev = [] \<and> cleaned ev = []"
  by (induction ev) (auto simp: conn_event_def split: event.splits)

lemma conn_step_trace:
  assumes "conn_step s s'"
  shows "freed (trace s') = freed (trace s)" "answered (trace s') = answered (trace s)"
    "cleaned (trace s') = cleaned (trace s)"
  using assms conn_events_silent by (auto simp: conn_step_def)

section \<open>Cleaning up one request\<close>

text \<open>The calls a cleanup of a request adds to the trace.\<close>

definition cleaner_calls :: "request \<Rightarrow> (nat \<times> ptr) list" where
  "cleaner_calls rq = (case data_cleaner rq of Some f \<Rightarrow> [(f, proctocl_data rq)] | None \<Rightarrow> [])"

text \<open>\<open>answered_one\<close>: the request is gone, its place in the final queue too, and nothing else.\<close>

definition gone :: "nat set \<Rightarrow> nat \<Rightarrow> sys \<Rightarrow> sys \<Rightarrow> bool" where
  "gone H r s s' \<longleftrightarrow> plinv H s' \<and> live H s' = live H s - {r} \<and> r \<in> live H s
     \<and> final_request_head s' = remove1 r (final_request_head s)
     \<and> requests s' = (requests s)(r := None) \<and> done_rqcb s' = done_rqcb s
     \<and> freed (trace s') = freed (trace s) @ [r] \<and> graceful_restart s' = graceful_restart s"

lemma plinv_free:
  assumes inv: "plinv H s" and m: "r \<in> set (final_request_head s)"
  defines "s' \<equiv> s\<lparr>final_request_head := remove1 r (final_request_head s), requests := (requests s)(r := None)\<rparr>"
  shows "plinv H s'" and "live H s' = live H s - {r}" and "r \<in> live H s"
proof -
  note i = invD [OF inv]
  note t = ownedQ_take [OF i(1) queues_at(4) m]
  have "ownedQ H (queues s') (dom (requests s'))"
    using t i(1) by (auto simp: ownedQ_def s'_def)
  then show "plinv H s'" using i by (simp add: plinv_def s'_def)
  show "live H s' = live H s - {r}" using t(3,4) by (auto simp: live_def s'_def)
  show "r \<in> live H s" using membersI [of "queues s" QFinal _ r] m by (simp add: live_def)
qed

lemma cleanup_request_inv:
  assumes inv: "plinv H s" and m: "r \<in> set (final_request_head s)" and rq: "requests s r = Some rq"
    and c: "csp rq = Some c" and cs: "conns s c = Some cs"
  shows "\<exists>s'. cleanup_request r s = Some s' \<and> gone H r s s' \<and> refs s' = (refs s)(c := drop_refs 1 (refs s c))
     \<and> pipeline_queue_len s' = pipeline_queue_len s \<and> answered (trace s') = answered (trace s)
     \<and> cleaned (trace s') = cleaned (trace s) @ cleaner_calls rq"
proof -
  let ?s1 = "s\<lparr>final_request_head := remove1 r (final_request_head s)\<rparr>"
  let ?s2 = "case data_cleaner rq of Some f \<Rightarrow> emit (Cleaner f (proctocl_data rq)) ?s1 | None \<Rightarrow> ?s1"
  have s2: "conns ?s2 = conns s" "requests ?s2 = requests s" "refs ?s2 = refs s"
    "queues ?s2 = queues ?s1" "freed (trace ?s2) = freed (trace s)" "answered (trace ?s2) = answered (trace s)"
    "cleaned (trace ?s2) = cleaned (trace s) @ cleaner_calls rq"
    "final_request_head ?s2 = remove1 r (final_request_head s)" "pipeline_queue_len ?s2 = pipeline_queue_len s"
    "done_rqcb ?s2 = done_rqcb s" "graceful_restart ?s2 = graceful_restart s"
    by (auto simp: cleaner_calls_def refs_def fun_eq_iff emit_def split: option.splits)
  obtain s3 where s3: "CS_RELE c ?s2 = Some s3" "conn_step ?s2 s3" "refs s3 = (refs s)(c := drop_refs 1 (refs s c))"
    using CS_RELE_step [of ?s2 c cs] cs s2(1,3) by auto
  note f3 = conn_step_frame [OF s3(2)] conn_step_trace [OF s3(2)]
  let ?s' = "emit (FreeRequest r) (s3\<lparr>requests := (requests s3)(r := None)\<rparr>)"
  have run: "cleanup_request r s = Some ?s'" using rq c s3(1) by (simp add: cleanup_request_def)
  note pf = plinv_free [OF inv m]
  have Q: "queues ?s' = (queues s)(QFinal \<mapsto> remove1 r (final_request_head s))" using f3(1) s2(4) by simp
  have o2: "lens ?s2 = lens s" "active ?s2 = active s" "linked ?s2 = linked s"
    by (simp_all split: option.splits)
  have R: "requests ?s' = (requests s)(r := None)" using f3(2) s2(2) by simp
  have "plinv H ?s'" using pf(1) Q R f3(9-11) o2 by (simp add: plinv_def)
  moreover have "live H ?s' = live H s - {r}" using pf(2) Q by (simp add: live_def)
  ultimately have "gone H r s ?s'" using R f3 s2 pf(3) by (simp add: gone_def)
  moreover have "refs ?s' = (refs s)(c := drop_refs 1 (refs s c))"
    using s3(3) by (simp add: refs_def fun_eq_iff)
  ultimately show ?thesis using run f3 s2 by simp
qed

section \<open>Answering one request\<close>

text \<open>The value of \<^verbatim>\<open>rc\<close> after a request: its responder's result, or the value of the previous one.\<close>

definition eff_rc :: "(nat \<Rightarrow> nat \<Rightarrow> ptr \<Rightarrow> int \<Rightarrow> int) \<Rightarrow> request \<Rightarrow> nat \<Rightarrow> int \<Rightarrow> int" where
  "eff_rc resp rq c rc = (case request_responder rq of
     Some f \<Rightarrow> if cancelled rq = 0 then to_int32 (resp f c (proctocl_data rq) (flags rq)) else rc
   | None \<Rightarrow> rc)"

definition disconnects :: "int \<Rightarrow> bool" where
  "disconnects rc \<longleftrightarrow> rc AND RESPONDER_DISCONNECT = RESPONDER_DISCONNECT"

definition answer_calls :: "request \<Rightarrow> nat \<Rightarrow> (nat \<times> nat \<times> ptr \<times> int) list" where
  "answer_calls rq c = (case request_responder rq of
     Some f \<Rightarrow> if cancelled rq = 0 then [(f, c, proctocl_data rq, flags rq)] else []
   | None \<Rightarrow> [])"

text \<open>The number of references one answer gives back.\<close>

definition gives_back :: "int \<Rightarrow> nat" where
  "gives_back rc = (if disconnects rc then 2 else 1)"

lemma plinv_plq [simp]:
  "plinv H (s\<lparr>pipeline_queue_len := n\<rparr>) = plinv H s" "live H (s\<lparr>pipeline_queue_len := n\<rparr>) = live H s"
  "plinv H (emit e s) = plinv H s" "live H (emit e s) = live H s"
  by (simp_all add: plinv_def live_def)

text \<open>What the answer and the disconnection leave unchanged.\<close>

definition quiet :: "sys \<Rightarrow> sys \<Rightarrow> bool" where
  "quiet s s' \<longleftrightarrow> queues s' = queues s \<and> requests s' = requests s \<and> lens s' = lens s \<and> active s' = active s
     \<and> linked s' = linked s \<and> final_request_head s' = final_request_head s \<and> done_rqcb s' = done_rqcb s
     \<and> pipeline_queue_len s' = pipeline_queue_len s \<and> graceful_restart s' = graceful_restart s
     \<and> freed (trace s') = freed (trace s) \<and> cleaned (trace s') = cleaned (trace s)"

lemma quiet_inv: "quiet s s' \<Longrightarrow> plinv H s' = plinv H s" "quiet s s' \<Longrightarrow> live H s' = live H s"
  by (simp_all add: quiet_def plinv_def live_def)

lemma conn_step_quiet: "conn_step s s' \<Longrightarrow> quiet s s'"
  by (simp add: quiet_def conn_step_frame conn_step_trace)

lemma call_responder_step:
  assumes "call_responder resp rq c rc s = (rc', s')"
  shows "rc' = eff_rc resp rq c rc" "quiet s s'" "conns s' = conns s" "refs s' = refs s"
    "answered (trace s') = answered (trace s) @ answer_calls rq c"
  using assms by (auto simp: call_responder_def eff_rc_def answer_calls_def quiet_def refs_def fun_eq_iff
      split: option.splits if_splits)

lemma disconnect_step:
  assumes cs: "conns s c = Some cs" and n: "2 \<le> unat (ref_cnt cs)"
  shows "\<exists>s' cs'. disconnect c s = Some s' \<and> conn_step s s' \<and> conns s' c = Some cs'
     \<and> refs s' = (refs s)(c \<mapsto> ref_cnt cs - 1)"
proof -
  obtain s1 cs1 where s1: "(case conn_close (cp_ops_of (ci cs)) of Some f \<Rightarrow> f (Some c) s | None \<Rightarrow> Some s) = Some s1"
    "conn_step s s1" "conns s1 c = Some cs1" "refs s1 = refs s"
  proof (cases "conn_close (cp_ops_of (ci cs)) :: (nat option \<Rightarrow> sys \<Rightarrow> sys option) option")
    case None
    then show ?thesis using that [of s cs] cs by simp
  next
    case (Some f)
    then show ?thesis using conn_close_step [OF cs Some] that by fastforce
  qed
  obtain s2 where s2: "conn_state_cleanup c s1 = Some s2" "conn_step s1 s2"
    "refs s2 = (refs s1)(c := drop_refs 1 (refs s1 c))" using conn_state_cleanup_step [OF s1(3)] by blast
  have "drop_refs 1 (refs s c) = Some (ref_cnt cs - 1)"
    using cs n by (simp add: refs_def drop_refs_def)
  then have r: "refs s2 = (refs s)(c \<mapsto> ref_cnt cs - 1)" using s2(3) s1(4) by simp
  then have "refs s2 c = Some (ref_cnt cs - 1)" by simp
  then obtain cs2 where "conns s2 c = Some cs2" by (auto simp: refs_def)
  then show ?thesis using cs s1 s2 r conn_step_trans [OF s1(2) s2(2)] by (auto simp: disconnect_def)
qed

lemma maybe_disconnect_step:
  assumes cs: "conns s c = Some cs" and n: "gives_back rc \<le> unat (ref_cnt cs)"
  shows "\<exists>s' cs'. (if rc AND RESPONDER_DISCONNECT = RESPONDER_DISCONNECT then disconnect c s else Some s) = Some s'
     \<and> conn_step s s' \<and> conns s' c = Some cs'
     \<and> (refs s')(c := drop_refs 1 (refs s' c)) = (refs s)(c := drop_refs (gives_back rc) (refs s c))"
proof (cases "disconnects rc")
  case True
  then obtain s' cs' where "disconnect c s = Some s'" "conn_step s s'" "conns s' c = Some cs'"
    "refs s' = (refs s)(c \<mapsto> ref_cnt cs - 1)" using disconnect_step [OF cs] n by (auto simp: gives_back_def)
  moreover have "refs s c = Some (ref_cnt cs)" using cs by (simp add: refs_def)
  ultimately show ?thesis using True n drop_refs_Suc(1) [of 1 "ref_cnt cs"]
    by (auto simp: disconnects_def gives_back_def numeral_2_eq_2)
next
  case False
  then show ?thesis using cs by (auto simp: disconnects_def gives_back_def)
qed

lemma respond_one_inv:
  assumes inv: "plinv H s" and m: "r \<in> set (final_request_head s)" and rq: "requests s r = Some rq"
    and c: "csp rq = Some c" and cs: "conns s c = Some cs"
    and n: "gives_back (eff_rc resp rq c rc) \<le> unat (ref_cnt cs)"
  shows "\<exists>s'. respond_one resp r rc s = Some (eff_rc resp rq c rc, s') \<and> gone H r s s'
     \<and> refs s' = (refs s)(c := drop_refs (gives_back (eff_rc resp rq c rc)) (refs s c))
     \<and> pipeline_queue_len s' = pipeline_queue_len s - 1
     \<and> answered (trace s') = answered (trace s) @ answer_calls rq c
     \<and> cleaned (trace s') = cleaned (trace s) @ (if eff_rc resp rq c rc AND RESPONDER_CLEAN = RESPONDER_CLEAN
          then cleaner_calls rq else [])"
proof -
  let ?rc = "eff_rc resp rq c rc" and ?s0 = "s\<lparr>pipeline_queue_len := pipeline_queue_len s - 1\<rparr>"
  obtain s1 where cr: "call_responder resp rq c rc ?s0 = (?rc, s1)"
    by (cases "call_responder resp rq c rc ?s0") (auto dest: call_responder_step(1))
  note s1 = call_responder_step [OF cr]
  have cs1: "conns s1 c = Some cs" using s1(3) cs by simp
  obtain s2 cs2 where s2: "(if ?rc AND RESPONDER_DISCONNECT = RESPONDER_DISCONNECT then disconnect c s1 else Some s1) = Some s2"
    "conn_step s1 s2" "conns s2 c = Some cs2"
    and rf: "(refs s2)(c := drop_refs 1 (refs s2 c)) = (refs s1)(c := drop_refs (gives_back ?rc) (refs s1 c))"
    using maybe_disconnect_step [OF cs1 n] by blast
  let ?rq = "if ?rc AND RESPONDER_CLEAN \<noteq> RESPONDER_CLEAN then rq\<lparr>data_cleaner := None\<rparr> else rq"
  let ?s3 = "if ?rc AND RESPONDER_CLEAN \<noteq> RESPONDER_CLEAN then put_request r (rq\<lparr>data_cleaner := None\<rparr>) s2 else s2"
  have q2: "quiet ?s0 s2" using s1(2) conn_step_quiet [OF s2(2)] by (simp add: quiet_def)
  have i2: "plinv H s2" and r2: "requests s2 r = Some rq" using quiet_inv(1) [OF q2] q2 inv rq by (simp_all add: quiet_def)
  have i3: "plinv H ?s3" using moved_put_request [OF i2 r2, of "rq\<lparr>data_cleaner := None\<rparr>"] i2 by (simp add: moved_def)
  have s3: "requests ?s3 r = Some ?rq" "csp ?rq = Some c" "conns ?s3 c = Some cs2" "r \<in> set (final_request_head ?s3)"
    using r2 c s2(3) q2 m by (auto simp: quiet_def)
  obtain s4 where s4: "cleanup_request r ?s3 = Some s4" "gone H r ?s3 s4"
    "refs s4 = (refs ?s3)(c := drop_refs 1 (refs ?s3 c))" "pipeline_queue_len s4 = pipeline_queue_len ?s3"
    "answered (trace s4) = answered (trace ?s3)" "cleaned (trace s4) = cleaned (trace ?s3) @ cleaner_calls ?rq"
    using cleanup_request_inv [OF i3 s3(4,1,2,3)] by blast
  let ?s5 = "if graceful_restart s4 \<and> pipeline_queue_len s4 = 0 then emit Broadcast s4 else s4"
  have run: "respond_one resp r rc s = Some (?rc, ?s5)"
    using rq c cr s2(1) s4(1) by (simp add: respond_one_def)
  have "(requests ?s3)(r := None) = (requests s2)(r := None)" "live H ?s3 = live H s2" "trace ?s3 = trace s2"
    by (simp_all add: live_def put_request_def)
  then have "gone H r s s4" using s4(2) q2 quiet_inv(2) [OF q2, of H] by (simp add: gone_def quiet_def)
  then have "gone H r s ?s5" by (simp add: gone_def)
  moreover have "refs ?s3 = refs s2" by (simp add: refs_def fun_eq_iff)
  moreover have "refs ?s5 = refs s4" by (simp add: refs_def fun_eq_iff)
  moreover have "refs s1 = refs s" using s1(4) by (simp add: refs_def fun_eq_iff)
  ultimately show ?thesis using run s4(3-6) rf s1(5) q2 conn_step_trace(2) [OF s2(2)]
    by (auto simp: quiet_def put_request_def cleaner_calls_def)
qed

section \<open>The completion loop\<close>

text \<open>
  The number of references to connection \<open>c\<close> that the loop gives back for the requests
  \<open>rs\<close>, and the responder calls it makes.
\<close>

fun drops :: "(nat \<Rightarrow> nat \<Rightarrow> ptr \<Rightarrow> int \<Rightarrow> int) \<Rightarrow> (nat \<rightharpoonup> request) \<Rightarrow> nat list \<Rightarrow> int \<Rightarrow> nat \<Rightarrow> nat" where
  "drops resp R [] rc c = 0"
| "drops resp R (r # rs) rc c = (case R r of None \<Rightarrow> 0
     | Some rq \<Rightarrow> (case csp rq of None \<Rightarrow> drops resp R rs rc c
     | Some d \<Rightarrow> (if d = c then gives_back (eff_rc resp rq d rc) else 0)
                 + drops resp R rs (eff_rc resp rq d rc) c))"

fun answers :: "(nat \<rightharpoonup> request) \<Rightarrow> nat list \<Rightarrow> (nat \<times> nat \<times> ptr \<times> int) list" where
  "answers R [] = []"
| "answers R (r # rs) = (case R r of Some rq \<Rightarrow> (case csp rq of Some c \<Rightarrow> answer_calls rq c | None \<Rightarrow> []) | None \<Rightarrow> [])
     @ answers R rs"

lemma drops_cong: "(\<And>x. x \<in> set rs \<Longrightarrow> R x = R' x) \<Longrightarrow> drops resp R rs rc c = drops resp R' rs rc c"
  by (induction rs arbitrary: rc) (auto split: option.splits)

lemma answers_cong: "(\<And>x. x \<in> set rs \<Longrightarrow> R x = R' x) \<Longrightarrow> answers R rs = answers R' rs"
  by (induction rs) auto

definition covered :: "(nat \<rightharpoonup> u64) \<Rightarrow> (nat \<Rightarrow> nat) \<Rightarrow> bool" where
  "covered rf d \<longleftrightarrow> (\<forall>c. d c > 0 \<longrightarrow> (\<exists>k. rf c = Some k \<and> d c \<le> unat k))"

lemma gives_back_pos [simp]: "0 < gives_back rc" "gives_back rc \<noteq> 0"
  by (simp_all add: gives_back_def)

lemma drop_refs_add:
  assumes "m + n \<le> unat k" and "0 < n"
  shows "drop_refs m (Some k) = Some (k - of_nat m)" and "unat (k - of_nat m) = unat k - m"
    and "drop_refs n (Some (k - of_nat m)) = drop_refs (m + n) (Some k)"
proof -
  have lt: "m < 2 ^ 64" using assms unsigned_less [of k, where 'a = nat] by simp
  then have um: "unat (of_nat m :: u64) = m" by (simp add: unsigned_of_nat take_bit_nat_eq_self_iff)
  then have "(of_nat m :: u64) \<le> k" using assms by (simp add: word_le_nat_alt)
  then show u: "unat (k - of_nat m) = unat k - m" using um by (simp add: unat_sub)
  show "drop_refs m (Some k) = Some (k - of_nat m)" using assms by (simp add: drop_refs_def)
  show "drop_refs n (Some (k - of_nat m)) = drop_refs (m + n) (Some k)"
    using assms u by (auto simp: drop_refs_def algebra_simps)
qed

text \<open>One answer uses up its share of the covered references.\<close>

lemma covered_step:
  assumes cov: "covered rf (\<lambda>c. (if d = c then g else 0) + n c)" and g: "0 < g"
  shows "covered (rf(d := drop_refs g (rf d))) n" and "\<exists>k. rf d = Some k \<and> g \<le> unat k"
    and "0 < n d \<Longrightarrow> drop_refs (n d) (drop_refs g (rf d)) = drop_refs (g + n d) (rf d)"
proof -
  from cov [unfolded covered_def, rule_format, of d] g obtain k
    where k: "rf d = Some k" "g + n d \<le> unat k" by auto
  then show "\<exists>k. rf d = Some k \<and> g \<le> unat k" by auto
  show "0 < n d \<Longrightarrow> drop_refs (n d) (drop_refs g (rf d)) = drop_refs (g + n d) (rf d)"
    using drop_refs_add [OF k(2)] k(1) by simp
  have "\<exists>k'. drop_refs g (rf d) = Some k' \<and> n d \<le> unat k'" if "0 < n d"
    using drop_refs_add [OF k(2) that] k by auto
  moreover have "\<exists>k. rf c = Some k \<and> n c \<le> unat k" if "0 < n c" "c \<noteq> d" for c
    using cov [unfolded covered_def, rule_format, of c] that by auto
  ultimately show "covered (rf(d := drop_refs g (rf d))) n"
    unfolding covered_def by simp
qed

lemma respond_loop_inv:
  assumes "plinv H s" and "distinct rs" and "set rs \<subseteq> set (final_request_head s)"
    and "\<forall>r \<in> set rs. \<exists>rq c. requests s r = Some rq \<and> csp rq = Some c"
    and "covered (refs s) (drops resp (requests s) rs rc)"
  shows "\<exists>s'. respond_loop resp rs rc s = Some s' \<and> plinv H s' \<and> live H s' = live H s - set rs
     \<and> final_request_head s' = filter (\<lambda>r. r \<notin> set rs) (final_request_head s)
     \<and> requests s' = requests s |` (- set rs)
     \<and> pipeline_queue_len s' = pipeline_queue_len s - of_nat (length rs)
     \<and> freed (trace s') = freed (trace s) @ rs
     \<and> answered (trace s') = answered (trace s) @ answers (requests s) rs
     \<and> (\<forall>c. refs s' c = (if drops resp (requests s) rs rc c = 0 then refs s c
            else drop_refs (drops resp (requests s) rs rc c) (refs s c)))
     \<and> done_rqcb s' = done_rqcb s"
  using assms
proof (induction rs arbitrary: s rc)
  case Nil
  then show ?case by (simp add: restrict_map_def)
next
  case (Cons r rs)
  obtain rq c where rq: "requests s r = Some rq" and c: "csp rq = Some c" using Cons.prems(4) by auto
  let ?rc = "eff_rc resp rq c rc"
  let ?n = "drops resp (requests s) rs ?rc"
  have cov: "covered (refs s) (\<lambda>d. (if c = d then gives_back ?rc else 0) + ?n d)"
    using Cons.prems(5) rq c by (simp add: covered_def)
  note cs = covered_step [OF cov gives_back_pos(1)]
  obtain k where k: "refs s c = Some k" "gives_back ?rc \<le> unat k" using cs(2) by blast
  then obtain st where st: "conns s c = Some st" "gives_back ?rc \<le> unat (ref_cnt st)" by (auto simp: refs_def)
  have m: "r \<in> set (final_request_head s)" using Cons.prems(3) by simp
  obtain s1 where s1: "respond_one resp r rc s = Some (?rc, s1)" "gone H r s s1"
    "refs s1 = (refs s)(c := drop_refs (gives_back ?rc) (refs s c))"
    "pipeline_queue_len s1 = pipeline_queue_len s - 1"
    "answered (trace s1) = answered (trace s) @ answer_calls rq c"
    using respond_one_inv [OF Cons.prems(1) m rq c st] by blast
  have R: "requests s1 x = requests s x" if "x \<in> set rs" for x
    using s1(2) that Cons.prems(2) by (auto simp: gone_def)
  have d1: "drops resp (requests s1) rs rc' = drops resp (requests s) rs rc'" for rc'
    using drops_cong [of rs "requests s1" "requests s"] R by (simp add: fun_eq_iff)
  have a1: "answers (requests s1) rs = answers (requests s) rs" using answers_cong R by metis
  have c1: "covered (refs s1) (drops resp (requests s1) rs ?rc)" using cs(1) s1(3) d1 by simp
  have f1: "set rs \<subseteq> set (final_request_head s1)"
    using Cons.prems(2,3) s1(2) by (auto simp: gone_def intro!: in_set_remove1 [THEN iffD2])
  have x1: "\<forall>r \<in> set rs. \<exists>rq c. requests s1 r = Some rq \<and> csp rq = Some c" using Cons.prems(4) R by simp
  have i1: "plinv H s1" and dr: "distinct rs" using s1(2) Cons.prems(2) by (auto simp: gone_def)
  obtain s2 where s2: "respond_loop resp rs ?rc s1 = Some s2" "plinv H s2" "live H s2 = live H s1 - set rs"
    "final_request_head s2 = filter (\<lambda>r. r \<notin> set rs) (final_request_head s1)"
    "requests s2 = requests s1 |` (- set rs)"
    "pipeline_queue_len s2 = pipeline_queue_len s1 - of_nat (length rs)"
    "freed (trace s2) = freed (trace s1) @ rs"
    "answered (trace s2) = answered (trace s1) @ answers (requests s1) rs" "done_rqcb s2 = done_rqcb s1"
    and rf2: "\<forall>c. refs s2 c = (if ?n c = 0 then refs s1 c else drop_refs (?n c) (refs s1 c))"
    using Cons.IH [OF i1 dr f1 x1 c1] d1 by auto
  have "distinct (final_request_head s)"
    using invD(1) [OF Cons.prems(1)] qwfD(1) [of "queues s" QFinal] by (simp add: ownedQ_def)
  then have "final_request_head s2 = filter (\<lambda>x. x \<notin> set (r # rs)) (final_request_head s)"
    using s1(2) s2(4) by (auto simp: gone_def remove1_filter intro: filter_cong)
  moreover have "requests s2 = requests s |` (- set (r # rs))"
    using s1(2) s2(5) by (auto simp: gone_def restrict_map_def fun_eq_iff)
  moreover have "refs s2 d = (if (if c = d then gives_back ?rc else 0) + ?n d = 0 then refs s d
      else drop_refs ((if c = d then gives_back ?rc else 0) + ?n d) (refs s d))" for d
    using rf2 s1(3) cs(3) by (cases "c = d") auto
  ultimately show ?case
    using s1 s2 rq c a1 by (auto simp: gone_def)
qed

section \<open>The completion handler\<close>

lemma get_done_requests_inv:
  assumes inv: "plinv H s"
  shows "plinv H (get_done_requests True s)" and "live H (get_done_requests True s) = live H s"
    and "requests (get_done_requests True s) = requests s" and "conns (get_done_requests True s) = conns s"
    and "final_request_head (get_done_requests True s) = final_request_head s @ request_head (done_rqcb s)"
    and "request_head (done_rqcb (get_done_requests True s)) = []"
    and "pipeline_queue_len (get_done_requests True s) = pipeline_queue_len s"
    and "trace (get_done_requests True s) = trace s"
proof -
  let ?s = "s\<lparr>final_request_head := final_request_head s @ request_head (done_rqcb s),
            done_rqcb := (done_rqcb s)\<lparr>request_head := [], queue_len := 0\<rparr>\<rparr>"
  note i = invD [OF inv]
  note cc = ownedQ_concat [OF i(1) queues_at(4) queues_at(3) qhead.distinct(12)]
  have "lens ?s" using i(2) by (auto simp: lens_def)
  moreover have "linked ?s" "active ?s" using i(3,4) by simp_all
  ultimately have 1: "plinv H ?s" using cc(1) by (simp add: plinv_def)
  have 2: "live H ?s = live H s" using cc(3) by (simp add: live_def)
  show "plinv H (get_done_requests True s)" "live H (get_done_requests True s) = live H s"
    using 1 2 inv by (simp_all add: get_done_requests_def)
qed (simp_all add: get_done_requests_def)

text \<open>What the completion handler answers: the final queue, then the done queue.\<close>

abbreviation batch :: "sys \<Rightarrow> nat list" where
  "batch s \<equiv> final_request_head s @ request_head (done_rqcb s)"

lemma read_pipe_frame [simp]:
  "queues (read_pipe s) = queues s" "requests (read_pipe s) = requests s" "plinv H (read_pipe s) = plinv H s"
  "live H (read_pipe s) = live H s" "final_request_head (read_pipe s) = final_request_head s"
  "done_rqcb (read_pipe s) = done_rqcb s" "conns (read_pipe s) = conns s" "trace (read_pipe s) = trace s"
  "pipeline_queue_len (read_pipe s) = pipeline_queue_len s" "refs (read_pipe s) = refs s"
  "apq (read_pipe s) = apq s" "pcbs (read_pipe s) = pcbs s"
  by (auto simp: read_pipe_def plinv_def live_def refs_def fun_eq_iff)

text \<open>The kick before it touches neither of the two queues nor the trace.\<close>

lemma kick_frame:
  "apq_remove p s = Some s' \<Longrightarrow> done_rqcb s' = done_rqcb s \<and> trace s' = trace s"
  "move_buffered p q s = Some s' \<Longrightarrow> done_rqcb s' = done_rqcb s \<and> trace s' = trace s"
  "kick_one tlk p s = Some s' \<Longrightarrow> done_rqcb s' = done_rqcb s \<and> trace s' = trace s"
  "kick_loop tlk ps s = Some s' \<Longrightarrow> done_rqcb s' = done_rqcb s \<and> trace s' = trace s"
proof -
  show a: "done_rqcb s' = done_rqcb s \<and> trace s' = trace s" if "apq_remove p s = Some s'" for p s s'
    using that by (auto simp: apq_remove_def put_defs split: Option.bind_splits)
  show m: "done_rqcb s' = done_rqcb s \<and> trace s' = trace s" if "move_buffered p q s = Some s'" for p q s s'
    using that by (auto simp: move_buffered_def put_defs split: Option.bind_splits)
  show k: "done_rqcb s' = done_rqcb s \<and> trace s' = trace s" if "kick_one tlk p s = Some s'" for p s s'
    using that unfolding kick_one_def by (auto split: Option.bind_splits if_splits) (metis a m)+
  show "done_rqcb s' = done_rqcb s \<and> trace s' = trace s" if "kick_loop tlk ps s = Some s'"
    using that by (induction ps arbitrary: s) (auto dest: k split: Option.bind_splits)
qed

lemma done_requests_handler_inv:
  assumes inv: "plinv H s" and ne: "request_head (done_rqcb s) \<noteq> []"
    and cs: "\<forall>r \<in> set (batch s). \<exists>rq c. requests s r = Some rq \<and> csp rq = Some c"
    and cov: "covered (refs s) (drops resp (requests s) (batch s) RESPONDER_CLEAN)"
  shows "\<exists>s'. done_requests_handler resp tlk True EV_READ s = Some s' \<and> plinv H s'
     \<and> live H s' = live H s - set (batch s) \<and> batch s' = []
     \<and> requests s' = requests s |` (- set (batch s))
     \<and> pipeline_queue_len s' = pipeline_queue_len s - of_nat (length (batch s))
     \<and> freed (trace s') = freed (trace s) @ batch s
     \<and> answered (trace s') = answered (trace s) @ answers (requests s) (batch s)
     \<and> distinct (batch s) \<and> set (batch s) \<subseteq> live H s"
proof -
  obtain s1 where s1: "kick_request_queue tlk (read_pipe s) = Some s1" "kicked H (read_pipe s) s1"
    using kick_request_queue_inv [of H "read_pipe s" tlk] inv by auto
  have i1: "plinv H s1" and l1: "live H s1 = live H s" and R1: "requests s1 = requests s"
    and f1: "final_request_head s1 = final_request_head s"
    and c1: "conns s1 = conns s" and p1: "pipeline_queue_len s1 = pipeline_queue_len s"
    using s1(2) by (auto simp: kicked_def live_def keeps_def)
  have d1: "done_rqcb s1 = done_rqcb s" and t1: "trace s1 = trace s"
    using s1(1) kick_frame(4) unfolding kick_request_queue_def by fastforce+
  let ?s2 = "get_done_requests True s1"
  note g = get_done_requests_inv [OF i1]
  have b: "final_request_head ?s2 = batch s" using g(5) f1 d1 by simp
  have di: "distinct (batch s)"
    using invD(1) [OF g(1)] qwfD(1) [of "queues ?s2" QFinal] b by (simp add: ownedQ_def)
  have rf: "refs ?s2 = refs s" using g(4) c1 by (simp add: refs_def fun_eq_iff)
  have rc: "RESPONDER_OK OR RESPONDER_CLEAN = RESPONDER_CLEAN" by (simp add: pipeline_consts)
  obtain s3 where s3: "respond_loop resp (batch s) RESPONDER_CLEAN ?s2 = Some s3" "plinv H s3"
    "live H s3 = live H ?s2 - set (batch s)"
    "final_request_head s3 = filter (\<lambda>r. r \<notin> set (batch s)) (batch s)"
    "requests s3 = requests s |` (- set (batch s))"
    "pipeline_queue_len s3 = pipeline_queue_len ?s2 - of_nat (length (batch s))"
    "freed (trace s3) = freed (trace ?s2) @ batch s"
    "answered (trace s3) = answered (trace ?s2) @ answers (requests s) (batch s)" "done_rqcb s3 = done_rqcb ?s2"
    using respond_loop_inv [OF g(1) di, of resp RESPONDER_CLEAN] cs cov b g(3) R1 rf by auto
  have "set (batch s) \<subseteq> live H s"
    using membersI [of "queues s" QFinal] membersI [of "queues s" QDone] by (auto simp: live_def)
  moreover have "done_requests_handler resp tlk True EV_READ s = Some s3"
    using s1(1) s3(1) ne d1 b rc by (simp add: done_requests_handler_def process_done_def)
  moreover have "batch s3 = []" using s3(4,9) g(6) by (simp add: filter_empty_conv)
  ultimately show ?thesis using s3 di g l1 p1 t1 by auto
qed

end
