(* ===== verification/Pipeline_Sys.thy ===== *)
theory Pipeline_Sys
  imports Pipeline_Done
begin

text \<open>
  The pipeline as a concurrent system: the main thread, which submits, cancels and answers
  requests, and the worker threads.  A critical section is one step; between two steps the
  threads interleave freely.  The signal that a worker sends after it has put a request into
  the done queue is a step of its own, as the code sends it without the lock.
\<close>

section \<open>States and steps\<close>

datatype wpc = WTop | WHas nat int | WNotify

record thread =
  thr_rqcb :: nat
  wti_next :: "nat option"
  init_ok :: bool
  wpc_of :: wpc

text \<open>\<open>MHandle ev\<close>: the main thread is inside the completion handler, past the kick.\<close>

datatype mpc = MIdle | MHandle ev_kind

record system =
  st :: sys
  threads :: "nat \<rightharpoonup> thread"
  mpc_of :: mpc

definition set_pc :: "nat \<Rightarrow> thread \<Rightarrow> system \<Rightarrow> system" where
  "set_pc t th z = z\<lparr>threads := (threads z)(t \<mapsto> th)\<rparr>"

definition held :: "system \<Rightarrow> nat set" where
  "held z = {r. \<exists>t th cl. threads z t = Some th \<and> wpc_of th = WHas r cl}"

definition notifying :: "system \<Rightarrow> bool" where
  "notifying z \<longleftrightarrow> (\<exists>t th. threads z t = Some th \<and> wpc_of th = WNotify)"

text \<open>The state before the signal at the end of \<^verbatim>\<open>to_done_stage\<close>.\<close>

definition unsignalled :: "sys \<Rightarrow> sys \<Rightarrow> sys" where
  "unsignalled s s' = s'\<lparr>done_signalled := done_signalled s, pipe_bytes := pipe_bytes s\<rparr>"

definition to_done :: "sys \<Rightarrow> sys \<Rightarrow> bool" where
  "to_done s s' \<longleftrightarrow> request_head (done_rqcb s') \<noteq> request_head (done_rqcb s)"

text \<open>A request that a worker is about to process is past the jump limit.\<close>

definition overflow :: "system \<Rightarrow> bool" where
  "overflow z \<longleftrightarrow> (\<exists>r rq. r \<in> held z \<and> requests (st z) r = Some rq \<and> nstage rq > MAX_STAGE_JUMP)"

text \<open>
  The parameters of the steps: the results of the responders, of the handlers and of the locks
  are arbitrary; the allocator gives a block that is not in use; a submitted connection is
  open; a write to the pipe only fails when unread bytes are in it; a trylock of the done queue
  only fails while a worker is in its critical section; the configured queue limit is not zero.
\<close>

inductive step :: "system \<Rightarrow> system \<Rightarrow> bool" where
  submit: "mpc_of z = MIdle \<Longrightarrow> r \<notin> dom (requests (st z)) \<Longrightarrow> conns (st z) cs = Some c \<Longrightarrow>
    signal_ok env \<Longrightarrow> unlock_ok env \<Longrightarrow> (write_ok env \<or> pipe_bytes (st z) > 0) \<Longrightarrow> ri_queue_size (st z) \<noteq> 0 \<Longrightarrow>
    submit_request env (Some (r, blk)) (Some cs) pid dat cleaner responder fl (st z) = Some (Submitted res, s') \<Longrightarrow>
    step z (z\<lparr>st := s'\<rparr>)"
| cancel: "mpc_of z = MIdle \<Longrightarrow> request_cancel p (st z) = Some s' \<Longrightarrow> step z (z\<lparr>st := s'\<rparr>)"
| tick: "step z (z\<lparr>st := (st z)\<lparr>clock_off := t\<rparr>\<rparr>)"
| event: "mpc_of z = MIdle \<Longrightarrow> (ev = EV_READ \<longrightarrow> pipe_bytes (st z) > 0) \<Longrightarrow>
    kick_request_queue tlk (read_pipe (st z)) = Some s' \<Longrightarrow>
    step z (z\<lparr>st := s', mpc_of := MHandle ev\<rparr>)"
| process: "mpc_of z = MHandle ev \<Longrightarrow> (lock \<or> notifying z) \<Longrightarrow>
    process_done resp lock ev (st z) = Some s' \<Longrightarrow> step z (z\<lparr>st := s', mpc_of := MIdle\<rparr>)"
| take: "threads z t = Some th \<Longrightarrow> wpc_of th = WTop \<Longrightarrow> worker_take (thr_rqcb th) (st z) = Some (Takes r cl, s') \<Longrightarrow>
    step z (set_pc t (th\<lparr>wpc_of := WHas r cl\<rparr>) (z\<lparr>st := s'\<rparr>))"
| leave: "threads z t = Some th \<Longrightarrow> wpc_of th = WTop \<Longrightarrow> worker_take (thr_rqcb th) (st z) = Some (Leaves, s') \<Longrightarrow>
    step z (z\<lparr>st := s', threads := (threads z)(t := None)\<rparr>)"
| work: "threads z t = Some th \<Longrightarrow> wpc_of th = WHas r cl \<Longrightarrow> handler_ok handler (st z) \<Longrightarrow>
    worker_process True w handler (init_ok th) (wti_next th) (thr_rqcb th) r cl (st z) = Some (wn, s') \<Longrightarrow>
    step z (set_pc t (th\<lparr>wti_next := wn, wpc_of := if to_done (st z) s' then WNotify else WTop\<rparr>)
              (z\<lparr>st := unsignalled (st z) s'\<rparr>))"
| notify: "threads z t = Some th \<Longrightarrow> wpc_of th = WNotify \<Longrightarrow> (w \<or> pipe_bytes (st z) > 0) \<Longrightarrow>
    step z (set_pc t (th\<lparr>wpc_of := WTop\<rparr>) (z\<lparr>st := notify_done w (st z)\<rparr>))"

text \<open>Runs in which no request passes the jump limit.\<close>

inductive reach :: "system \<Rightarrow> system \<Rightarrow> bool" for z0 where
  start: "reach z0 z0"
| more: "reach z0 z \<Longrightarrow> \<not> overflow z \<Longrightarrow> step z z' \<Longrightarrow> reach z0 z'"

section \<open>Partial correctness of the completion loop\<close>

text \<open>The completion loop keeps the invariant whenever it returns.\<close>

lemma disconnect_returns: "disconnect c s = Some s' \<Longrightarrow> conn_step s s'"
proof -
  assume d: "disconnect c s = Some s'"
  then obtain cs s1 where cs: "conns s c = Some cs"
    and s1: "(case conn_close (cp_ops_of (ci cs)) of Some f \<Rightarrow> f (Some c) s | None \<Rightarrow> Some s) = Some s1"
    and s2: "conn_state_cleanup c s1 = Some s'"
    by (auto simp: disconnect_def split: Option.bind_splits)
  have c1: "conn_step s s1 \<and> conns s1 c \<noteq> None"
  proof (cases "conn_close (cp_ops_of (ci cs)) :: (nat option \<Rightarrow> sys \<Rightarrow> sys option) option")
    case None
    then show ?thesis using s1 cs by simp
  next
    case (Some f)
    then show ?thesis using conn_close_step [OF cs Some] s1 by auto
  qed
  then show ?thesis using conn_state_cleanup_step [of s1 c] s2 conn_step_trans by fastforce
qed

text \<open>The parts of the state that answering requests does not touch.\<close>

definition calm :: "sys \<Rightarrow> sys \<Rightarrow> bool" where
  "calm s s' \<longleftrightarrow> done_rqcb s' = done_rqcb s \<and> done_signalled s' = done_signalled s
     \<and> pipe_bytes s' = pipe_bytes s \<and> rqcbs s' = rqcbs s \<and> pcbs s' = pcbs s \<and> apq s' = apq s"

lemma calm_refl [simp]: "calm s s"
  by (simp add: calm_def)

lemma calm_trans: "calm s s1 \<Longrightarrow> calm s1 s2 \<Longrightarrow> calm s s2"
  by (simp add: calm_def)

lemma calm_basic [simp]:
  "calm s (emit e s1) = calm s s1" "calm s (s1\<lparr>final_request_head := f\<rparr>) = calm s s1"
  "calm s (s1\<lparr>requests := R\<rparr>) = calm s s1" "calm s (put_request r rq s1) = calm s s1"
  "calm s (s1\<lparr>pipeline_queue_len := n\<rparr>) = calm s s1"
  by (auto simp: calm_def emit_def put_request_def)

lemma conn_step_calm: "conn_step s s' \<Longrightarrow> calm s s'"
  by (auto simp: conn_step_def calm_def)

lemma CS_RELE_returns: "CS_RELE c s = Some s' \<Longrightarrow> conn_step s s'" for s :: sys
proof -
  assume r: "CS_RELE c s = Some s'"
  then obtain cs where "conns s c = Some cs" unfolding CS_RELE_def by (auto split: Option.bind_splits)
  then show ?thesis using CS_RELE_step r by fastforce
qed

lemma cleanup_request_Some:
  assumes "cleanup_request r s = Some s'"
  shows "\<exists>s2 s3. quiet (s\<lparr>final_request_head := remove1 r (final_request_head s)\<rparr>)
       (s2\<lparr>trace := trace s\<rparr>) \<and> calm s s2 \<and> conn_step s2 s3
     \<and> s' = emit (FreeRequest r) (s3\<lparr>requests := (requests s3)(r := None)\<rparr>)"
proof -
  let ?s1 = "s\<lparr>final_request_head := remove1 r (final_request_head s)\<rparr>"
  obtain rq where rq: "requests s r = Some rq" using assms by (auto simp: cleanup_request_def split: Option.bind_splits)
  let ?s2 = "case data_cleaner rq of Some f \<Rightarrow> emit (Cleaner f (proctocl_data rq)) ?s1 | None \<Rightarrow> ?s1"
  obtain s3 where s3: "(case csp rq of Some c \<Rightarrow> CS_RELE c ?s2 | None \<Rightarrow> Some ?s2) = Some s3"
    and s': "s' = emit (FreeRequest r) (s3\<lparr>requests := (requests s3)(r := None)\<rparr>)"
    using assms rq by (auto simp: cleanup_request_def Let_def split: Option.bind_splits)
  have "conn_step ?s2 s3" using s3 CS_RELE_returns by (cases "csp rq") auto
  moreover have "quiet ?s1 (?s2\<lparr>trace := trace s\<rparr>)" "calm s ?s2"
    by (auto simp: quiet_def split: option.splits)
  ultimately show ?thesis using s' by blast
qed

lemma cleanup_request_returns:
  assumes "cleanup_request r s = Some s'" and inv: "plinv H s" and m: "r \<in> set (final_request_head s)"
  shows "plinv H s' \<and> live H s' = live H s - {r} \<and> final_request_head s' = remove1 r (final_request_head s)"
proof -
  let ?s1 = "s\<lparr>final_request_head := remove1 r (final_request_head s)\<rparr>"
  obtain s2 s3 where q: "quiet ?s1 (s2\<lparr>trace := trace s\<rparr>)" and c2: "calm s s2" and s3: "conn_step s2 s3"
    and s': "s' = emit (FreeRequest r) (s3\<lparr>requests := (requests s3)(r := None)\<rparr>)"
    using cleanup_request_Some [OF assms(1)] by blast
  note f = conn_step_frame [OF s3]
  note pf = plinv_free [OF inv m]
  have Q: "queues s' = (queues s)(QFinal \<mapsto> remove1 r (final_request_head s))"
    using f(1) q s' by (simp add: quiet_def)
  have R: "requests s' = (requests s)(r := None)" using f(2) q s' by (simp add: quiet_def)
  have "lens s' = lens s" "active s' = active s" "linked s' = linked s"
    using f(9-11) q s' by (simp_all add: quiet_def)
  then have "plinv H s'" using pf(1) Q R by (simp add: plinv_def)
  moreover have "live H s' = live H s - {r}" using pf(2) Q by (simp add: live_def)
  moreover have "final_request_head s' = remove1 r (final_request_head s)"
    using f(6) q s' by (simp add: quiet_def)
  ultimately show ?thesis by blast
qed

text \<open>The parts of one round of the loop.\<close>

lemma respond_one_Some:
  assumes run: "respond_one resp r rc s = Some (rc', s')" and rq: "requests s r = Some rq" and c: "csp rq = Some c"
  shows "\<exists>s2 s3 s4. quiet (s\<lparr>pipeline_queue_len := pipeline_queue_len s - 1\<rparr>) s2 \<and> calm s s2
    \<and> s3 \<in> {s2, put_request r (rq\<lparr>data_cleaner := None\<rparr>) s2} \<and> cleanup_request r s3 = Some s4
    \<and> s' \<in> {s4, emit Broadcast s4}"
proof -
  let ?s0 = "s\<lparr>pipeline_queue_len := pipeline_queue_len s - 1\<rparr>"
  obtain rc1 s1 where cr: "call_responder resp rq c rc ?s0 = (rc1, s1)" by fastforce
  let ?d = "\<lambda>s. if rc1 AND RESPONDER_DISCONNECT = RESPONDER_DISCONNECT then disconnect c s else Some s"
  let ?k = "\<lambda>s. if rc1 AND RESPONDER_CLEAN \<noteq> RESPONDER_CLEAN then put_request r (rq\<lparr>data_cleaner := None\<rparr>) s else s"
  have "?d s1 \<bind> (\<lambda>s. cleanup_request r (?k s) \<bind> (\<lambda>s. Some (rc1,
      if graceful_restart s \<and> pipeline_queue_len s = 0 then emit Broadcast s else s))) = Some (rc', s')"
    using run rq c cr by (simp add: respond_one_def Let_def)
  then obtain s2 s4 where s2: "?d s1 = Some s2" and s4: "cleanup_request r (?k s2) = Some s4"
    and s': "s' = (if graceful_restart s4 \<and> pipeline_queue_len s4 = 0 then emit Broadcast s4 else s4)"
    unfolding bind_eq_Some_conv by blast
  have c2: "conn_step s1 s2" using s2 disconnect_returns by (auto split: if_splits)
  have "quiet ?s0 s2" using call_responder_step(2) [OF cr] conn_step_quiet [OF c2] by (simp add: quiet_def)
  moreover have "calm s s1" using cr by (auto simp: call_responder_def split: option.splits if_splits)
  then have "calm s s2" using calm_trans conn_step_calm [OF c2] by blast
  ultimately show ?thesis using s4 s' by (intro exI [of _ s2] exI [of _ "?k s2"] exI [of _ s4]) simp
qed

lemma respond_one_returns:
  assumes run: "respond_one resp r rc s = Some (rc', s')" and inv: "plinv H s"
    and m: "r \<in> set (final_request_head s)"
  shows "plinv H s' \<and> live H s' \<subseteq> live H s \<and> set (final_request_head s) - {r} \<subseteq> set (final_request_head s')"
proof -
  have "requests s r \<noteq> None" using run by (cases "requests s r") (simp_all add: respond_one_def)
  then obtain rq where rq: "requests s r = Some rq" by blast
  show ?thesis
  proof (cases "csp rq")
    case None
    then show ?thesis using run rq inv by (auto simp: respond_one_def)
  next
    case (Some c)
    then obtain s2 s3 s4 where q2: "quiet (s\<lparr>pipeline_queue_len := pipeline_queue_len s - 1\<rparr>) s2"
      and s3: "s3 \<in> {s2, put_request r (rq\<lparr>data_cleaner := None\<rparr>) s2}"
      and s4: "cleanup_request r s3 = Some s4" and s': "s' \<in> {s4, emit Broadcast s4}"
      using respond_one_Some [OF run rq] by blast
    have i2: "plinv H s2" and r2: "requests s2 r = Some rq"
      using quiet_inv(1) [OF q2] q2 inv rq by (simp_all add: quiet_def)
    have i3: "plinv H s3" using s3 moved_put_request [OF i2 r2, of "rq\<lparr>data_cleaner := None\<rparr>"] i2
      by (auto simp: moved_def)
    have k2: "live H s3 = live H s" "final_request_head s3 = final_request_head s"
      using s3 quiet_inv(2) [OF q2, of H] q2 by (auto simp: quiet_def live_def)
    have "plinv H s4" "live H s4 = live H s - {r}" "final_request_head s4 = remove1 r (final_request_head s)"
      using cleanup_request_returns [OF s4 i3] k2 m by simp_all
    moreover have "plinv H s' = plinv H s4" "live H s' = live H s4" "final_request_head s' = final_request_head s4"
      using s' by auto
    ultimately show ?thesis using in_set_remove1 by fastforce
  qed
qed

lemma respond_loop_returns:
  assumes "respond_loop resp rs rc s = Some s'" and "plinv H s" and "set rs \<subseteq> set (final_request_head s)"
    and "distinct rs"
  shows "plinv H s' \<and> live H s' \<subseteq> live H s"
  using assms
proof (induction rs arbitrary: rc s)
  case Nil
  then show ?case by simp
next
  case (Cons r rs)
  then obtain rc1 s1 where s1: "respond_one resp r rc s = Some (rc1, s1)"
    and s2: "respond_loop resp rs rc1 s1 = Some s'" by (auto split: Option.bind_splits)
  have o: "plinv H s1" "live H s1 \<subseteq> live H s" "set (final_request_head s) - {r} \<subseteq> set (final_request_head s1)"
    using respond_one_returns [OF s1 Cons.prems(2)] Cons.prems(3) by auto
  have "set rs \<subseteq> set (final_request_head s1)" using o(3) Cons.prems(3,4) by auto
  then show ?case using Cons.IH [OF s2 o(1)] Cons.prems(4) o by auto
qed

text \<open>The loop leaves the done queue and the signal alone.\<close>

lemma cleanup_request_calm:
  assumes "cleanup_request r s = Some s'"
  shows "calm s s'"
proof -
  obtain s2 s3 where "calm s s2" "conn_step s2 s3"
    and s': "s' = emit (FreeRequest r) (s3\<lparr>requests := (requests s3)(r := None)\<rparr>)"
    using cleanup_request_Some [OF assms] by blast
  then have "calm s s3" using calm_trans conn_step_calm by blast
  then show ?thesis using s' by simp
qed

lemma respond_one_calm: "respond_one resp r rc s = Some (rc', s') \<Longrightarrow> calm s s'"
proof -
  assume run: "respond_one resp r rc s = Some (rc', s')"
  then have "requests s r \<noteq> None" by (cases "requests s r") (simp_all add: respond_one_def)
  then obtain rq where rq: "requests s r = Some rq" by blast
  show ?thesis
  proof (cases "csp rq")
    case None
    then show ?thesis using run rq by (auto simp: respond_one_def)
  next
    case (Some c)
    then obtain s2 s3 s4 where "calm s s2" "s3 \<in> {s2, put_request r (rq\<lparr>data_cleaner := None\<rparr>) s2}"
      "cleanup_request r s3 = Some s4" "s' \<in> {s4, emit Broadcast s4}"
      using respond_one_Some [OF run rq] by blast
    then show ?thesis using cleanup_request_calm [of r s3 s4] calm_trans [of s s3 s4] by auto
  qed
qed

lemma respond_loop_calm: "respond_loop resp rs rc s = Some s' \<Longrightarrow> calm s s'"
proof (induction rs arbitrary: rc s)
  case (Cons r rs)
  then obtain rc1 s1 where "respond_one resp r rc s = Some (rc1, s1)" "respond_loop resp rs rc1 s1 = Some s'"
    by (auto split: Option.bind_splits)
  then show ?case using Cons.IH respond_one_calm calm_trans by blast
qed simp

lemma process_done_calm:
  assumes run: "process_done resp lock ev s = Some s'"
  shows "done_signalled s' = done_signalled s \<and> pipe_bytes s' = pipe_bytes s \<and> rqcbs s' = rqcbs s
    \<and> request_head (done_rqcb s') = (if ev = EV_READ \<and> lock then [] else request_head (done_rqcb s))"
proof (cases "request_head (done_rqcb s) \<noteq> [] \<and> ev \<noteq> EV_TIMEOUT")
  case False
  then show ?thesis using run by (cases ev) (auto simp: process_done_def)
next
  case True
  then have "calm (get_done_requests lock s) s'"
    using run respond_loop_calm by (simp add: process_done_def Let_def)
  then show ?thesis using True by (cases ev) (auto simp: calm_def get_done_requests_def)
qed

lemma process_done_returns:
  assumes run: "process_done resp lock ev s = Some s'" and inv: "plinv H s"
  shows "plinv H s' \<and> live H s' \<subseteq> live H s"
proof (cases "request_head (done_rqcb s) \<noteq> [] \<and> ev \<noteq> EV_TIMEOUT")
  case False
  then show ?thesis using run inv by (cases ev) (auto simp: process_done_def)
next
  case True
  let ?s1 = "get_done_requests lock s"
  have g: "plinv H ?s1" "live H ?s1 = live H s"
    using get_done_requests_inv(1,2) [OF inv] inv by (cases lock; simp add: get_done_requests_def)+
  have d: "distinct (final_request_head ?s1)"
    using invD(1) [OF g(1)] qwfD(1) [of "queues ?s1" QFinal] by (simp add: ownedQ_def)
  have "respond_loop resp (final_request_head ?s1) (RESPONDER_OK OR RESPONDER_CLEAN) ?s1 = Some s'"
    using run True by (simp add: process_done_def Let_def)
  from respond_loop_returns [OF this g(1) subset_refl d] show ?thesis using g(2) by simp
qed

section \<open>The invariant of the system\<close>

definition threads_ok :: "system \<Rightarrow> bool" where
  "threads_ok z \<longleftrightarrow> (\<forall>t th. threads z t = Some th \<longrightarrow>
     thr_rqcb th \<in> dom (rqcbs (st z)) \<and> set_option (wti_next th) \<subseteq> dom (rqcbs (st z)))"

definition exclusive :: "system \<Rightarrow> bool" where
  "exclusive z \<longleftrightarrow> (\<forall>t th t' th' r cl cl'. threads z t = Some th \<longrightarrow> threads z t' = Some th' \<longrightarrow>
     wpc_of th = WHas r cl \<longrightarrow> wpc_of th' = WHas r cl' \<longrightarrow> t = t')"

definition sysinv :: "system \<Rightarrow> bool" where
  "sysinv z \<longleftrightarrow> plinv (held z) (st z) \<and> threads_ok z \<and> exclusive z"

lemma sysinvD:
  "sysinv z \<Longrightarrow> plinv (held z) (st z)"
  "sysinv z \<Longrightarrow> threads z t = Some th \<Longrightarrow> thr_rqcb th \<in> dom (rqcbs (st z))"
  "sysinv z \<Longrightarrow> threads z t = Some th \<Longrightarrow> set_option (wti_next th) \<subseteq> dom (rqcbs (st z))"
  "sysinv z \<Longrightarrow> exclusive z"
  by (simp_all add: sysinv_def threads_ok_def)

text \<open>The requests held by a thread and by the others.\<close>

definition mine :: "thread \<Rightarrow> nat set" where
  "mine th = {r. \<exists>cl. wpc_of th = WHas r cl}"

definition others :: "system \<Rightarrow> nat \<Rightarrow> nat set" where
  "others z t = {r. \<exists>t' th cl. t' \<noteq> t \<and> threads z t' = Some th \<and> wpc_of th = WHas r cl}"

lemma held_set_pc: "held (set_pc t th z) = others z t \<union> mine th"
  by (auto simp: held_def set_pc_def others_def mine_def)

lemma held_split:
  assumes "threads z t = Some th"
  shows "held z = others z t \<union> mine th" and "exclusive z \<Longrightarrow> others z t \<inter> mine th = {}"
proof -
  show "held z = others z t \<union> mine th"
    using assms unfolding held_def others_def mine_def by (auto, metis option.inject)
  show "others z t \<inter> mine th = {}" if "exclusive z"
    using assms that unfolding others_def mine_def exclusive_def by blast
qed

lemma mine_simps [simp]:
  "wpc_of th = WTop \<Longrightarrow> mine th = {}" "wpc_of th = WNotify \<Longrightarrow> mine th = {}"
  "wpc_of th = WHas r cl \<Longrightarrow> mine th = {r}"
  by (auto simp: mine_def)

lemma held_frame [simp]: "held (z\<lparr>st := s\<rparr>) = held z" "held (z\<lparr>mpc_of := m\<rparr>) = held z"
  by (simp_all add: held_def)

text \<open>A step of the main thread only changes the shared state.\<close>

lemma sysinv_main:
  assumes "sysinv z" and "plinv (held z) s'" and "dom (rqcbs s') = dom (rqcbs (st z))"
  shows "sysinv (z\<lparr>st := s'\<rparr>)" and "sysinv (z\<lparr>st := s', mpc_of := m\<rparr>)"
  using assms by (simp_all add: sysinv_def threads_ok_def exclusive_def held_def)

text \<open>The done queue and its signal are left alone by the functions that bring requests in.\<close>

definition still :: "sys \<Rightarrow> sys \<Rightarrow> bool" where
  "still s s' \<longleftrightarrow> done_rqcb s' = done_rqcb s \<and> done_signalled s' = done_signalled s \<and> pipe_bytes s' = pipe_bytes s"

lemma still_refl [simp]: "still s s"
  by (simp add: still_def)

lemma still_trans: "still s s1 \<Longrightarrow> still s1 s2 \<Longrightarrow> still s s2"
  by (simp add: still_def)

lemma still_put [simp]:
  "still s (put_rqcb q b s') = still s s'" "still s (put_pcb p c s') = still s s'"
  "still s (put_request r rq s') = still s s'" "still s (s'\<lparr>apq := a\<rparr>) = still s s'"
  "still s (s'\<lparr>pipeline_queue_len := n\<rparr>) = still s s'" "still s (s'\<lparr>final_request_head := f\<rparr>) = still s s'"
  "still s (s'\<lparr>inc := k\<rparr>) = still s s'" "still s (s'\<lparr>conns := m\<rparr>) = still s s'"
  by (simp_all add: still_def put_defs)

lemma still_kick:
  "apq_remove p s = Some s' \<Longrightarrow> still s s'"
  "move_buffered p q s = Some s' \<Longrightarrow> still s s'"
  by (auto simp: apq_remove_def move_buffered_def split: Option.bind_splits)

lemma still_kick_one: "kick_one tlk p s = Some s' \<Longrightarrow> still s s'"
  unfolding kick_one_def bind_eq_Some_conv
  by (auto split: if_splits simp: bind_eq_Some_conv dest: still_kick) (metis still_kick still_trans)

lemma still_kick_loop: "kick_loop tlk ps s = Some s' \<Longrightarrow> still s s'"
proof (induction ps arbitrary: s)
  case (Cons p ps)
  then obtain s1 where "kick_one tlk p s = Some s1" "kick_loop tlk ps s1 = Some s'"
    by (auto simp: bind_eq_Some_conv)
  then show ?case using Cons.IH still_kick_one still_trans by blast
qed simp

lemma still_drop: "drop_timed_out q rs n s = Some (n', s') \<Longrightarrow> still s s'"
proof (induction rs arbitrary: n s)
  case (Cons r rs)
  obtain rq where rq: "requests s r = Some rq" using Cons.prems by (auto simp: bind_eq_Some_conv)
  show ?case
  proof (cases "clock_off s - clock rq > ri_timeout s")
    case True
    then obtain b where b: "rqcbs s q = Some b" using Cons.prems rq by (auto simp: bind_eq_Some_conv)
    let ?s1 = "(put_rqcb q (b\<lparr>request_head := remove1 r (request_head b), queue_len := queue_len b - 1\<rparr>) s)
      \<lparr>pipeline_queue_len := pipeline_queue_len s - 1, final_request_head := final_request_head s @ [r]\<rparr>"
    have "drop_timed_out q rs True ?s1 = Some (n', s')" using Cons.prems rq True b by (simp add: Let_def)
    then show ?thesis using Cons.IH still_trans [of s ?s1] by simp
  next
    case False
    then show ?thesis using Cons.prems rq Cons.IH by simp
  qed
qed simp

lemma still_send:
  "send_concat p q cat s = Some s' \<Longrightarrow> still s s'"
  "kick_out q s = Some s' \<Longrightarrow> still s s'"
  "send_push q fl s = Some (n, s') \<Longrightarrow> still s s'"
proof -
  show 1: "send_concat p q cat s = Some s' \<Longrightarrow> still s s'" for s s'
    unfolding send_concat_def by (auto split: if_splits simp: bind_eq_Some_conv dest: still_kick)
      (metis still_kick still_trans)
  show 2: "still s s'" if k: "kick_out q s = Some s'" for s s'
  proof -
    obtain b where b: "rqcbs s q = Some b" using k by (auto simp: kick_out_def bind_eq_Some_conv)
    then show ?thesis using k
      by (cases "request_head b") (auto simp: kick_out_def Let_def bind_eq_Some_conv)
  qed
  show "send_push q fl s = Some (n, s') \<Longrightarrow> still s s'"
    unfolding send_push_def Let_def bind_eq_Some_conv
    by (auto split: if_splits dest: 2 still_drop) (metis 2 still_drop still_trans)+
qed

text \<open>A submission can only raise the signal.\<close>

definition raises :: "sys \<Rightarrow> sys \<Rightarrow> bool" where
  "raises s s' \<longleftrightarrow> done_rqcb s' = done_rqcb s \<and> (done_signalled s \<longrightarrow> done_signalled s') \<and> pipe_bytes s \<le> pipe_bytes s'
     \<and> (done_signalled s' \<longrightarrow> done_signalled s \<or> pipe_bytes s' > 0)"

lemma raises_still: "still s s' \<Longrightarrow> raises s s'"
  by (simp add: still_def raises_def)

lemma raises_trans: "raises s s1 \<Longrightarrow> raises s1 s2 \<Longrightarrow> raises s s2"
  by (auto simp: raises_def)

lemma still_raises: "still s s1 \<Longrightarrow> raises s1 s2 \<Longrightarrow> raises s s2"
  by (auto simp: raises_def still_def)

lemma notify_done_raises: "w \<or> pipe_bytes s > 0 \<Longrightarrow> raises s (notify_done w s)"
  by (auto simp: notify_done_def raises_def)

lemma send_locked_raises:
  assumes "send_locked env p q r fl cat s = Some (rc, s')" and "write_ok env \<or> pipe_bytes s > 0"
  shows "raises s s'"
proof -
  obtain s1 b where s1: "send_concat p q cat s = Some s1" and b: "rqcbs s1 q = Some b"
    using assms(1) unfolding send_locked_def bind_eq_Some_conv by blast
  show ?thesis
  proof (cases "fl AND REQUEST_FORCE = 0 \<and> ucast (queue_len b) \<ge> ri_queue_size s1")
    case True
    then show ?thesis using assms(1) s1 b raises_still still_send(1) [OF s1] by (simp add: send_locked_def)
  next
    case False
    obtain n s2 where s2: "send_push q fl s1 = Some (n, s2)"
      using assms(1) s1 b False by (cases "send_push q fl s1") (auto simp: send_locked_def)
    obtain b2 where b2: "rqcbs s2 q = Some b2"
      using assms(1) s1 b False s2 by (cases "rqcbs s2 q") (auto simp: send_locked_def)
    let ?s4 = "(put_rqcb q (b2\<lparr>request_head := request_head b2 @ [r], queue_len := queue_len b2 + 1\<rparr>) s2)
                    \<lparr>pipeline_queue_len := pipeline_queue_len s2 + 1\<rparr>"
    have "s' = ?s4 \<or> s' = notify_done (write_ok env) ?s4"
      using assms(1) s1 b False s2 b2 by (auto simp: send_locked_def Let_def split: if_splits)
    moreover have "still s ?s4" using still_trans [OF still_send(1) [OF s1] still_send(3) [OF s2]] by simp
    moreover have "raises ?s4 (notify_done (write_ok env) ?s4)"
      using assms(2) calculation(2) by (intro notify_done_raises) (auto simp: still_def)
    ultimately show ?thesis using raises_still still_raises by blast
  qed
qed

lemma send_to_pipeline_raises:
  assumes "send_to_pipeline env p r fl cat s = Some (rc, s')" and "write_ok env \<or> pipe_bytes s > 0"
  shows "raises s s'"
proof -
  obtain c q where cq: "pcbs s p = Some c" "first_rqcbp c = Some q" "rqcbs s q \<noteq> None"
    using assms(1) by (auto simp: send_to_pipeline_def split: Option.bind_splits)
  show ?thesis
  proof (cases "trylock_ok env")
    case True
    then show ?thesis using assms cq send_locked_raises by (auto simp: send_to_pipeline_def)
  next
    case False
    then have "still s s'" using assms(1) cq by (auto simp: send_to_pipeline_def Let_def)
    then show ?thesis by (rule raises_still)
  qed
qed

section \<open>Submission in the system\<close>

text \<open>A submission that returns has changed nothing or passed all checks.\<close>

lemma submit_request_checks:
  assumes "submit_request env mem p pid dat cleaner responder fl s = Some (x, s')"
  shows "s' = s \<or> unat pid < PIPELINE_SIZE \<and> \<not> graceful_restart s
    \<and> (fl AND REQUEST_FORCE \<noteq> 0 \<or> pipeline_queue_len s < ri_queue_size s)
    \<and> (\<exists>c q. pcbs s (unat pid) = Some c \<and> first_rqcbp c = Some q)"
proof (cases "unat pid \<ge> PIPELINE_SIZE \<or> graceful_restart s")
  case True
  then show ?thesis using assms by (cases "PIPELINE_SIZE \<le> unat pid") (simp_all add: submit_request_def)
next
  case False
  show ?thesis
  proof (cases "pcbs s (unat pid)")
    case None
    then show ?thesis using assms False by (simp add: submit_request_def)
  next
    case (Some c)
    show ?thesis
    proof (cases "first_rqcbp c")
      case None
      then show ?thesis using assms False Some by (simp add: submit_request_def)
    next
      case q: (Some q)
      then show ?thesis using assms False Some
        by (cases "fl AND REQUEST_FORCE = 0 \<and> pipeline_queue_len s \<ge> ri_queue_size s")
          (auto simp: submit_request_def not_le)
    qed
  qed
qed

lemma submit_returns:
  assumes run: "submit_request env (Some (r, blk)) (Some cs) pid dat cleaner responder fl s = Some (Submitted res, s')"
    and inv: "plinv H s" and fresh: "r \<notin> dom (requests s)" and cs: "conns s cs = Some cst"
    and env: "signal_ok env" "unlock_ok env" and lim: "ri_queue_size s \<noteq> 0"
  shows "plinv H s' \<and> dom (rqcbs s') = dom (rqcbs s)"
proof (cases "s' = s")
  case False
  then obtain c where a: "unat pid < PIPELINE_SIZE" "\<not> graceful_restart s" "pcbs s (unat pid) = Some c"
    "fl AND REQUEST_FORCE \<noteq> 0 \<or> pipeline_queue_len s < ri_queue_size s"
    using submit_request_checks [OF run] by blast
  show ?thesis
    using submit_request_inv [OF inv a(1-4) fresh cs, of env blk dat cleaner responder] run lim env
    by (auto simp: submitted_def)
qed (use inv in simp)

lemma with_request_still [simp]: "still s (with_request r rq cs cst s)"
  by (simp add: with_request_def)

lemma submit_raises:
  assumes run: "submit_request env (Some (r, blk)) (Some cs) pid dat cleaner responder fl s = Some (x, s')"
    and cs: "conns s cs = Some cst" and w: "write_ok env \<or> pipe_bytes s > 0"
  shows "raises s s'"
proof (cases "s' = s")
  case False
  then obtain c q where a: "unat pid < PIPELINE_SIZE" "\<not> graceful_restart s" "pcbs s (unat pid) = Some c"
    "first_rqcbp c = Some q" "fl AND REQUEST_FORCE \<noteq> 0 \<or> pipeline_queue_len s < ri_queue_size s"
    using submit_request_checks [OF run] by blast
  let ?rq = "(new_request blk s dat cleaner responder)\<lparr>csp := Some cs, tid := make_tid pid (inc s + 1)\<rparr>"
  let ?s1 = "with_request r ?rq cs cst s"
  note eq = submit_request_eq [OF a(1-5) cs, of env r blk dat cleaner responder]
  obtain rc s2 where s2: "send_to_pipeline env (unat pid) r fl (tmp_request_head c \<noteq> []) ?s1 = Some (rc, s2)"
    using run unfolding eq by (auto split: Option.bind_splits)
  have "still s2 s'"
    using run s2 unfolding eq by (auto simp: Let_def split: if_splits Option.bind_splits)
  moreover have "raises ?s1 s2" using send_to_pipeline_raises [OF s2] w by (simp add: with_request_def put_defs)
  ultimately show ?thesis
    using still_raises [OF with_request_still] raises_trans raises_still by blast
qed (simp add: raises_still)

section \<open>Every step keeps the invariant\<close>

lemma queues_sys [simp]: "queues (s\<lparr>clock_off := t\<rparr>) = queues s" "queues (unsignalled s0 s) = queues s"
  by (auto simp: queues_def unsignalled_def fun_eq_iff split: qhead.splits)

lemma plinv_frame [simp]:
  "plinv H (s\<lparr>clock_off := t\<rparr>) = plinv H s" "plinv H (unsignalled s0 s) = plinv H s"
  "rqcbs (unsignalled s0 s) = rqcbs s"
  by (simp_all add: plinv_def lens_def active_def linked_def unsignalled_def
      del: queues_sys add: queues_sys [unfolded unsignalled_def])

lemma sysinv_thread:
  assumes z: "sysinv z" and t: "threads z t = Some th" and th': "thr_rqcb th' = thr_rqcb th"
    and wn: "set_option (wti_next th') \<subseteq> dom (rqcbs s')" and d: "dom (rqcbs s') = dom (rqcbs (st z))"
    and inv: "plinv (others z t \<union> mine th') s'" and ex: "others z t \<inter> mine th' = {}"
  shows "sysinv (set_pc t th' (z\<lparr>st := s'\<rparr>))"
proof -
  have "held (set_pc t th' (z\<lparr>st := s'\<rparr>)) = others z t \<union> mine th'"
    by (simp add: held_set_pc others_def)
  moreover have "threads_ok (set_pc t th' (z\<lparr>st := s'\<rparr>))"
    using z t th' wn d by (auto simp: sysinv_def threads_ok_def set_pc_def)
  moreover have "exclusive (set_pc t th' (z\<lparr>st := s'\<rparr>))"
    using sysinvD(4) [OF z] ex unfolding exclusive_def others_def mine_def set_pc_def by (auto split: if_splits) metis+
  ultimately show ?thesis using inv by (simp add: sysinv_def set_pc_def)
qed

lemma sysinv_take:
  assumes z: "sysinv z" and t: "threads z t = Some th" and pc: "wpc_of th = WTop"
    and run: "worker_take (thr_rqcb th) (st z) = Some (Takes r cl, s')"
  shows "sysinv (set_pc t (th\<lparr>wpc_of := WHas r cl\<rparr>) (z\<lparr>st := s'\<rparr>))"
proof -
  obtain b where b: "rqcbs (st z) (thr_rqcb th) = Some b" using sysinvD(2) [OF z t] by blast
  have m: "r \<notin> held z" "moved (held z) (st z) (insert r (held z)) s'"
    using worker_take_inv [OF sysinvD(1) [OF z] b] run by auto
  have h: "held z = others z t" using held_split(1) [OF t] pc by simp
  show ?thesis
    using sysinv_thread [OF z t, of "th\<lparr>wpc_of := WHas r cl\<rparr>" s'] m movedD(1,3) [OF m(2)] h sysinvD(3) [OF z t]
    by simp
qed

lemma sysinv_work:
  assumes z: "sysinv z" and no: "\<not> overflow z" and t: "threads z t = Some th" and pc: "wpc_of th = WHas r cl"
    and hok: "handler_ok handler (st z)"
    and run: "worker_process True w handler (init_ok th) (wti_next th) (thr_rqcb th) r cl (st z) = Some (wn, s')"
  shows "sysinv (set_pc t (th\<lparr>wti_next := wn, wpc_of := if to_done (st z) s' then WNotify else WTop\<rparr>)
            (z\<lparr>st := unsignalled (st z) s'\<rparr>))"
proof -
  obtain b where b: "rqcbs (st z) (thr_rqcb th) = Some b" using sysinvD(2) [OF z t] by blast
  have r: "r \<in> held z" using t pc by (auto simp: held_def)
  obtain rq where rq: "requests (st z) r = Some rq" using inv_request(2) [OF sysinvD(1) [OF z] r] by blast
  have j: "nstage rq \<le> MAX_STAGE_JUMP" using no r rq by (auto simp: overflow_def not_less)
  have m: "moved (held z) (st z) (held z - {r}) s'" "set_option wn \<subseteq> dom (rqcbs s')"
    using worker_process_inv [OF sysinvD(1) [OF z] r b rq sysinvD(3) [OF z t] hok j,
        of w "init_ok th" cl] run by auto
  have h: "held z - {r} = others z t" using held_split [OF t] sysinvD(4) [OF z] pc by auto
  show ?thesis
    using sysinv_thread [OF z t, of "th\<lparr>wti_next := wn, wpc_of := if to_done (st z) s' then WNotify else WTop\<rparr>"
        "unsignalled (st z) s'"] m movedD(1,3) [OF m(1)] h
    by (cases "to_done (st z) s'") simp_all
qed

lemma sysinv_step:
  assumes "step z z'" and z: "sysinv z" and no: "\<not> overflow z"
  shows "sysinv z'"
  using assms(1)
proof cases
  case (submit r cs c env blk pid dat cleaner responder fl res s')
  then show ?thesis using submit_returns [OF submit(9) sysinvD(1) [OF z] submit(3,4,5,6,8)] sysinv_main(1) [OF z] by blast
next
  case (cancel p s')
  then have "plinv (held z) s' \<and> rqcbs s' = rqcbs (st z)"
    using moved_put_request [OF sysinvD(1) [OF z]] sysinvD(1) [OF z]
    by (auto simp: request_cancel_def moved_def split: option.splits Option.bind_splits)
  then show ?thesis using sysinv_main(1) [OF z] cancel(1) by simp
next
  case (tick t)
  then show ?thesis using sysinv_main(1) [OF z, of "(st z)\<lparr>clock_off := t\<rparr>"] sysinvD(1) [OF z] by simp
next
  case (event ev tlk s')
  have "plinv (held z) (read_pipe (st z))" using sysinvD(1) [OF z] by simp
  from kick_request_queue_inv [OF this, of tlk] event(4)
  have "kicked (held z) (read_pipe (st z)) s'" by auto
  then have "plinv (held z) s'" "dom (rqcbs s') = dom (rqcbs (st z))"
    by (auto simp: kicked_def keeps_def read_pipe_def)
  then show ?thesis using sysinv_main(2) [OF z] event(1) by simp
next
  case (process ev lock resp s')
  then show ?thesis using process_done_returns [OF process(4) sysinvD(1) [OF z]] process_done_calm [OF process(4)]
    sysinv_main(2) [OF z] by simp
next
  case (take t th r cl s')
  then show ?thesis using sysinv_take [OF z] by simp
next
  case (leave t th s')
  obtain b where b: "rqcbs (st z) (thr_rqcb th) = Some b" using sysinvD(2) [OF z leave(2)] by blast
  have "s' = st z" using worker_take_inv [OF sysinvD(1) [OF z] b] leave(4) by auto
  moreover have "held z' = held z" using held_split(1) [OF leave(2)] leave(1,3)
    by (auto simp: held_def others_def)
  ultimately show ?thesis using z leave(1) unfolding sysinv_def threads_ok_def exclusive_def by auto
next
  case (work t th r cl handler w wn s')
  then show ?thesis using sysinv_work [OF z no] by simp
next
  case (notify t th w)
  have "held z = others z t" using held_split(1) [OF notify(2)] notify(3) by simp
  then show ?thesis
    using sysinv_thread [OF z notify(2), of "th\<lparr>wpc_of := WTop\<rparr>" "notify_done w (st z)"] notify(1)
      sysinvD(1,3) [OF z] notify(2) by simp
qed

lemma sysinv_reach: "reach z0 z \<Longrightarrow> sysinv z0 \<Longrightarrow> sysinv z"
  by (induction rule: reach.induct) (auto intro: sysinv_step)

section \<open>The signal to the main thread\<close>

text \<open>
  While finished requests wait, the main thread has been signalled, or a worker is about to
  signal it, or it is about to look; and a signal leaves a byte in the pipe.
\<close>

definition woken :: "system \<Rightarrow> bool" where
  "woken z \<longleftrightarrow> (request_head (done_rqcb (st z)) \<noteq> [] \<longrightarrow>
       done_signalled (st z) \<or> notifying z \<or> mpc_of z = MHandle EV_READ)
     \<and> (done_signalled (st z) \<longrightarrow> pipe_bytes (st z) > 0)"

text \<open>The one step that loses a signal: the timer event reads the pipe and does not look.\<close>

definition swallows :: "system \<Rightarrow> system \<Rightarrow> bool" where
  "swallows z z' \<longleftrightarrow> mpc_of z = MIdle \<and> mpc_of z' = MHandle EV_TIMEOUT \<and> done_signalled (st z)"

lemma notifying_frame [simp]:
  "notifying (z\<lparr>st := s\<rparr>) = notifying z" "notifying (z\<lparr>mpc_of := m\<rparr>) = notifying z"
  by (simp_all add: notifying_def)

lemma notifying_others:
  assumes "threads z t = Some th" and "wpc_of th \<noteq> WNotify" and "notifying z"
  obtains t' th' where "t' \<noteq> t" "threads z t' = Some th'" "wpc_of th' = WNotify"
  using assms unfolding notifying_def by (metis option.inject)

lemma notifying_set_pc:
  "threads z t = Some th \<Longrightarrow> wpc_of th \<noteq> WNotify \<Longrightarrow> notifying z \<Longrightarrow> notifying (set_pc t th' (z\<lparr>st := s\<rparr>))"
  by (erule (2) notifying_others) (auto simp: notifying_def set_pc_def)

lemma woken_raises: "raises (st z) s' \<Longrightarrow> woken z \<Longrightarrow> woken (z\<lparr>st := s'\<rparr>)"
  by (auto simp: woken_def raises_def)

lemma worker_take_still: "worker_take q s = Some (t, s') \<Longrightarrow> still s s'"
  unfolding worker_take_def by (auto simp: Let_def split: Option.bind_splits list.splits if_splits)

lemma woken_step:
  assumes "step z z'" and w: "woken z" and sw: "\<not> swallows z z'"
  shows "woken z'"
  using assms(1)
proof cases
  case (submit r cs c env blk pid dat cleaner responder fl res s')
  then show ?thesis using woken_raises [OF submit_raises [OF submit(9,4,7)] w] by simp
next
  case (cancel p s')
  then have "still (st z) s'" by (auto simp: request_cancel_def split: option.splits Option.bind_splits)
  then show ?thesis using woken_raises [OF raises_still w] cancel(1) by simp
next
  case (tick t)
  then show ?thesis using w by (simp add: woken_def)
next
  case (event ev tlk s')
  have s: "still (read_pipe (st z)) s'" using event(4) still_kick_loop by (simp add: kick_request_queue_def)
  show ?thesis
  proof (cases ev)
    case EV_READ
    then show ?thesis using s event(1) by (auto simp: woken_def still_def read_pipe_def)
  next
    case EV_TIMEOUT
    then have "\<not> done_signalled (st z)" using sw event(1,2) by (simp add: swallows_def)
    then show ?thesis using s w event(1,2) by (auto simp: woken_def still_def read_pipe_def)
  qed
next
  case (process ev lock resp s')
  then show ?thesis using w process_done_calm [OF process(4)] by (cases ev) (auto simp: woken_def)
next
  case (take t th r cl s')
  then show ?thesis using w worker_take_still [OF take(4)] notifying_set_pc(1) [OF take(2)]
    by (auto simp: woken_def still_def set_pc_def)
next
  case (leave t th s')
  have "notifying z'" if "notifying z"
    using notifying_others [OF leave(2) _ that] leave(1,3) by (auto simp: notifying_def)
  then show ?thesis using w worker_take_still [OF leave(4)] leave(1) by (auto simp: woken_def still_def)
next
  case (work t th r cl handler w wn s')
  have "notifying z'" if "notifying z" using notifying_set_pc [OF work(2) _ that] work(1,3) by simp
  moreover have "notifying z'" if "to_done (st z) s'"
    using that work(1) by (auto simp: notifying_def set_pc_def)
  ultimately show ?thesis using w work(1) by (auto simp: woken_def unsignalled_def set_pc_def to_done_def)
next
  case (notify t th w)
  then show ?thesis using w by (auto simp: woken_def set_pc_def notify_done_def)
qed

end
