(* ===== verification/Pipeline_Props.thy ===== *)
theory Pipeline_Props
  imports Pipeline_Sys
begin

text \<open>
  The properties of the request pipeline, each with an instance on a small concrete server, and
  the faults of the code that the model exhibits.
\<close>

section \<open>A small server\<close>

text \<open>
  One pipeline with two stages, one open connection; the arguments are the requests held by
  workers, waiting in the first stage, buffered, finished, and in the final queue.
\<close>

definition ex_request :: request where
  "ex_request = \<lparr>request_responder = Some 7, proctocl_data = None, data_cleaner = Some 8, rq_pipeline_id = 0,
     tid = 0, nstage = 0, clock = 50, csp = Some 0, flags = 0, ret = 0, err = 0, cancelled = 0\<rparr>"

definition ex_rqcb :: "nat option \<Rightarrow> ptr \<Rightarrow> nat list \<Rightarrow> rqcb" where
  "ex_rqcb nx h xs = \<lparr>request_head = xs, next_rqcb = nx, mod_name = ''m'', queue_id = 0,
     queue_len = of_nat (length xs), thread_num = 1, delay = 0, request_init = None, request_deinit = None,
     request_handler = h, rqst_num = 0, request_count = 0\<rparr>"

definition ex_pcb :: "nat list \<Rightarrow> pcb" where
  "ex_pcb ts = \<lparr>counter = 0, pipeline_id = 0, first_rqcbp = Some 0, aqe_empty = (ts = []),
     tmp_queue_len = of_nat (length ts), tmp_request_head = ts\<rparr>"

definition ex_conn :: conn_state where
  "ex_conn = \<lparr>ci = \<lparr>conn_type = CSF_TCP, fd = 5, data_buf = [], data_sent = 0, data_stored = 0, addr = (0, 0), addrlen = 16,
     cp_ops_of = Some tcp_ops\<rparr>, ref_cnt = 9, data = None\<rparr>"

definition ex_state :: "nat list \<Rightarrow> nat list \<Rightarrow> nat list \<Rightarrow> nat list \<Rightarrow> nat list \<Rightarrow> sys" where
  "ex_state hs xs ts ds fs = \<lparr>conns = [0 \<mapsto> ex_conn], connection_counter = 1,
     pc = \<lparr>protocol_session_start = None, protocol_session_entry = None, protocol_session_end = None,
       local_entry = None\<rparr>, trace = [],
     pipeline_queue_size = 4, pipeline_queue_len = of_nat (length (hs @ xs @ ts @ ds)), request_timeout = 0,
     pcbs = [0 \<mapsto> ex_pcb ts], apq = (if ts = [] then [] else [0]),
     rqcbs = [0 \<mapsto> ex_rqcb (Some 1) (Some 3) xs, 1 \<mapsto> ex_rqcb None (Some 4) []],
     done_rqcb = ex_rqcb None None ds, final_request_head = fs, done_signalled = True, pipe_bytes = 1,
     graceful_restart = False, clock_off = 100, inc = 0, ri_queue_size = 4, ri_timeout = 10,
     requests = (\<lambda>r. if r \<in> set (hs @ xs @ ts @ ds @ fs) then Some ex_request else None)\<rparr>"

lemma ex_sel [simp]:
  "conns (ex_state hs xs ts ds fs) = [0 \<mapsto> ex_conn]"
  "pipeline_queue_len (ex_state hs xs ts ds fs) = of_nat (length (hs @ xs @ ts @ ds))"
  "request_timeout (ex_state hs xs ts ds fs) = 0" "pcbs (ex_state hs xs ts ds fs) = [0 \<mapsto> ex_pcb ts]"
  "apq (ex_state hs xs ts ds fs) = (if ts = [] then [] else [0])"
  "rqcbs (ex_state hs xs ts ds fs) = [0 \<mapsto> ex_rqcb (Some 1) (Some 3) xs, 1 \<mapsto> ex_rqcb None (Some 4) []]"
  "done_rqcb (ex_state hs xs ts ds fs) = ex_rqcb None None ds" "final_request_head (ex_state hs xs ts ds fs) = fs"
  "graceful_restart (ex_state hs xs ts ds fs) = False" "clock_off (ex_state hs xs ts ds fs) = 100"
  "inc (ex_state hs xs ts ds fs) = 0" "ri_queue_size (ex_state hs xs ts ds fs) = 4"
  "ri_timeout (ex_state hs xs ts ds fs) = 10" "done_signalled (ex_state hs xs ts ds fs) = True"
  "pc (ex_state hs xs ts ds fs) = \<lparr>protocol_session_start = None, protocol_session_entry = None, protocol_session_end = None,
       local_entry = None\<rparr>"
  "pipe_bytes (ex_state hs xs ts ds fs) = 1" "trace (ex_state hs xs ts ds fs) = []"
  "requests (ex_state hs xs ts ds fs) = (\<lambda>r. if r \<in> set (hs @ xs @ ts @ ds @ fs) then Some ex_request else None)"
  by (simp_all add: ex_state_def)

lemma ex_sel_parts [simp]:
  "request_head (ex_rqcb nx h xs) = xs" "next_rqcb (ex_rqcb nx h xs) = nx" "delay (ex_rqcb nx h xs) = 0"
  "queue_len (ex_rqcb nx h xs) = of_nat (length xs)" "request_handler (ex_rqcb nx h xs) = h"
  "first_rqcbp (ex_pcb ts) = Some 0" "tmp_request_head (ex_pcb ts) = ts" "aqe_empty (ex_pcb ts) = (ts = [])"
  "tmp_queue_len (ex_pcb ts) = of_nat (length ts)" "ref_cnt ex_conn = 9" "csp ex_request = Some 0"
  "nstage ex_request = 0" "cancelled ex_request = 0" "clock ex_request = 50"
  by (simp_all add: ex_rqcb_def ex_pcb_def ex_conn_def ex_request_def)

lemma ex_queues:
  assumes "queues (ex_state hs xs ts ds fs) h = Some zs"
  shows "h = QStage 0 \<and> zs = xs \<or> h = QTmp 0 \<and> zs = ts \<or> h = QDone \<and> zs = ds \<or> h = QFinal \<and> zs = fs \<or> zs = []"
  using assms by (cases h) (auto split: if_splits)

lemma ex_members: "members (queues (ex_state hs xs ts ds fs)) = set xs \<union> set ts \<union> set ds \<union> set fs"
proof -
  let ?Q = "queues (ex_state hs xs ts ds fs)"
  have "?Q (QStage 0) = Some xs" "?Q (QTmp 0) = Some ts" "?Q QDone = Some ds" "?Q QFinal = Some fs" by simp_all
  then have "set xs \<union> set ts \<union> set ds \<union> set fs \<subseteq> members ?Q" unfolding members_def by blast
  moreover have "e \<in> set xs \<union> set ts \<union> set ds \<union> set fs" if "?Q h = Some zs" "e \<in> set zs" for e h zs
    using ex_queues [OF that(1)] that(2) by auto
  ultimately show ?thesis unfolding members_def by blast
qed

lemma ex_plinv:
  assumes "distinct (hs @ xs @ ts @ ds @ fs)"
  shows "plinv (set hs) (ex_state hs xs ts ds fs)"
proof -
  let ?s = "ex_state hs xs ts ds fs"
  have "distinct zs" if "queues ?s h = Some zs" for h zs
    using ex_queues [OF that] assms by auto
  moreover have "set ys \<inter> set zs = {}" if "queues ?s h = Some ys" "queues ?s k = Some zs" "h \<noteq> k" for h k ys zs
    using ex_queues [OF that(1)] ex_queues [OF that(2)] that(3) assms by (elim disjE) auto
  ultimately have "qwf (queues ?s)" unfolding qwf_def by blast
  moreover have "dom (requests ?s) = set (hs @ xs @ ts @ ds @ fs)" by (auto split: if_splits)
  ultimately have "owned (set hs) ?s" using assms unfolding ownedQ_def ex_members by auto
  moreover have "lens ?s" by (simp add: lens_def)
  moreover have "active ?s" by (simp add: active_def)
  moreover have "linked ?s" by (simp add: linked_def)
  ultimately show ?thesis by (simp add: plinv_def)
qed

definition ex_env :: sub_env where
  "ex_env = \<lparr>trylock_ok = True, signal_ok = True, unlock_ok = True, write_ok = True\<rparr>"

section \<open>Submission\<close>

text \<open>C3:
  A submission that passes the checks of \<^verbatim>\<open>submit_request\<close> runs without a fault, keeps the
  pipeline invariant, adds one reference to the connection and leaves every other request's
  connection alone.  If it is accepted, it returns the transaction id, the new request is live
  and is the last in the backlog of its pipeline, whose order is otherwise kept; only requests
  pushed out by the flags leave the backlog, to the final queue, and the counter follows.  If
  it is rejected the live requests are unchanged, and the flags did not force it.
\<close>

theorem submit_request_correct:
  fixes blk :: request and dat cleaner responder :: ptr
  assumes "plinv H s" and "unat pid < PIPELINE_SIZE" and "\<not> graceful_restart s"
    and "pcbs s (unat pid) = Some c"
    and "fl AND REQUEST_FORCE \<noteq> 0 \<or> pipeline_queue_len s < ri_queue_size s"
    and "requests s r = None" and "conns s cs = Some cst"
    and "fl AND REQUEST_FORCE = 0 \<or> fl AND REQUEST_KICK_OUT = 0 \<or> ri_queue_size s \<noteq> 0"
    and "signal_ok env" "unlock_ok env"
  shows "\<exists>res s'. submit_request env (Some (r, blk)) (Some cs) pid dat cleaner responder fl s = Some (Submitted res, s')
     \<and> plinv H s' \<and> conns s' = (conns s)(cs \<mapsto> cst\<lparr>ref_cnt := ref_cnt cst + 1\<rparr>)
     \<and> map_option csp (requests s' r) = Some (Some cs)
     \<and> (\<forall>x. x \<noteq> r \<longrightarrow> map_option csp (requests s' x) = map_option csp (requests s x))
     \<and> (res = sint (make_tid pid (inc s + 1)) \<and> live H s' = insert r (live H s) \<and> r \<notin> live H s
          \<and> (\<exists>out. backlog s' (unat pid) = filter (\<lambda>x. x \<notin> set out) (backlog s (unat pid)) @ [r]
               \<and> final_request_head s' = final_request_head s @ out
               \<and> pipeline_queue_len s' = pipeline_queue_len s + 1 - of_nat (length out)
               \<and> (fl AND REQUEST_KICK_OUT = 0 \<longrightarrow> fl AND REQUEST_TIME_OUT = 0 \<longrightarrow> out = []))
        \<or> res = SUBMIT_GENERIC_ERROR \<and> fl AND REQUEST_FORCE = 0 \<and> live H s' = live H s)"
proof -
  have fresh: "r \<notin> dom (requests s)" using assms(6) by blast
  let ?rq = "(new_request blk s dat cleaner responder)\<lparr>csp := Some cs, tid := make_tid pid (inc s + 1)\<rparr>"
  obtain res s' where run: "submit_request env (Some (r, blk)) (Some cs) pid dat cleaner responder fl s = Some (Submitted res, s')"
    and c: "\<forall>x. map_option csp (requests s' x) = map_option csp (((requests s)(r \<mapsto> ?rq)) x)"
    and conns: "conns s' = (conns s)(cs \<mapsto> cst\<lparr>ref_cnt := ref_cnt cst + 1\<rparr>)"
    and out: "res = sint (make_tid pid (inc s + 1)) \<and> (\<exists>out. submitted H r (unat pid) out s s' \<and>
          (fl AND REQUEST_KICK_OUT = 0 \<longrightarrow> fl AND REQUEST_TIME_OUT = 0 \<longrightarrow> out = []))
        \<or> res = SUBMIT_GENERIC_ERROR \<and> fl AND REQUEST_FORCE = 0 \<and> plinv H s' \<and> live H s' = live H s
          \<and> r \<in> dom (requests s') - live H s'"
    using submit_request_inv [OF assms(1-5) fresh assms(7-), of blk dat cleaner responder] by blast
  have c1: "map_option csp (requests s' r) = Some (Some cs)" using c by simp
  have c2: "\<forall>x. x \<noteq> r \<longrightarrow> map_option csp (requests s' x) = map_option csp (requests s x)" using c by simp
  show ?thesis using out unfolding submitted_def
    by (intro exI [of _ res] exI [of _ s'] conjI run conns c1 c2) blast+
qed

theorem submit_request_correct_witness:
  "\<exists>res s'. submit_request ex_env (Some (5, ex_request)) (Some 0) 0 None None None 0 (ex_state [] [1, 2] [] [] [])
     = Some (Submitted res, s') \<and> plinv {} s'"
  using submit_request_correct [of "{}" "ex_state [] [1, 2] [] [] []" 0 "ex_pcb []" 0 5 0 ex_conn ex_env ex_request
      None None None] ex_plinv [of "[]" "[1, 2]" "[]" "[]" "[]"]
  by (auto simp: ex_env_def pipeline_consts split: if_splits)

text \<open>C15:
  Each check of \<^verbatim>\<open>submit_request\<close> that fails returns its own code and changes nothing: a
  pipeline number out of range, a restart in progress, a pipeline that is not configured or has
  no stage, and a full pipeline without \<^verbatim>\<open>REQUEST_FORCE\<close>.  Without memory the process ends.
\<close>

theorem submit_request_rejects:
  "submit_request env mem p pid dat cleaner responder fl s = Some (x, s') \<Longrightarrow>
     (unat pid \<ge> PIPELINE_SIZE \<or> graceful_restart s \<or> pcbs s (unat pid) = None
        \<or> (\<exists>c. pcbs s (unat pid) = Some c \<and> first_rqcbp c = None) \<longrightarrow> x = Submitted SUBMIT_GENERIC_ERROR \<and> s' = s)
     \<and> (\<forall>c q. unat pid < PIPELINE_SIZE \<and> \<not> graceful_restart s \<and> pcbs s (unat pid) = Some c \<and> first_rqcbp c = Some q \<longrightarrow>
        (fl AND REQUEST_FORCE = 0 \<and> pipeline_queue_len s \<ge> ri_queue_size s \<longrightarrow> x = Submitted SUBMIT_QUEUE_FULL \<and> s' = s)
        \<and> (fl AND REQUEST_FORCE \<noteq> 0 \<and> mem = None \<longrightarrow> x = ProcessExit \<and> s' = s))"
proof -
  assume run: "submit_request env mem p pid dat cleaner responder fl s = Some (x, s')"
  have "x = Submitted SUBMIT_GENERIC_ERROR \<and> s' = s"
    if "unat pid \<ge> PIPELINE_SIZE \<or> graceful_restart s \<or> pcbs s (unat pid) = None
        \<or> (\<exists>c. pcbs s (unat pid) = Some c \<and> first_rqcbp c = None)"
    using that run
    by (elim disjE exE conjE; cases "PIPELINE_SIZE \<le> unat pid"; cases "graceful_restart s")
      (simp_all add: submit_request_def)
  moreover have "(fl AND REQUEST_FORCE = 0 \<and> pipeline_queue_len s \<ge> ri_queue_size s \<longrightarrow> x = Submitted SUBMIT_QUEUE_FULL \<and> s' = s)
        \<and> (fl AND REQUEST_FORCE \<noteq> 0 \<and> mem = None \<longrightarrow> x = ProcessExit \<and> s' = s)"
    if "unat pid < PIPELINE_SIZE \<and> \<not> graceful_restart s \<and> pcbs s (unat pid) = Some c \<and> first_rqcbp c = Some q" for c q
    using that run by (cases "fl AND REQUEST_FORCE = 0"; cases "pipeline_queue_len s \<ge> ri_queue_size s")
      (auto simp: submit_request_def)
  ultimately show ?thesis by blast
qed

theorem submit_request_rejects_witness:
  "(case submit_request ex_env (Some (5, ex_request)) (Some 0) 0 None None None 0 (ex_state [] [1, 2, 3, 4] [] [] [])
     of Some (x, s') \<Rightarrow> x = Submitted SUBMIT_QUEUE_FULL \<and> s' = ex_state [] [1, 2, 3, 4] [] [] [] | None \<Rightarrow> False)"
proof -
  have "submit_request ex_env (Some (5, ex_request)) (Some 0) 0 None None None 0 (ex_state [] [1, 2, 3, 4] [] [] [])
    = Some (Submitted SUBMIT_QUEUE_FULL, ex_state [] [1, 2, 3, 4] [] [] [])"
    by (simp add: submit_request_def pipeline_consts)
  from submit_request_rejects [OF this] this show ?thesis by simp
qed

text \<open>C17:
  The transaction id holds the pipeline number and the sequence number, and as a signed result
  it is positive, so a caller can tell it from every error code.
\<close>

theorem transaction_id_fields:
  assumes "unat pid < 128" and "0 < n" and "n < 2 ^ 56"
  shows "unat (make_tid pid n) div 2 ^ 56 = unat pid \<and> unat (make_tid pid n) mod 2 ^ 56 = unat n
     \<and> 0 < sint (make_tid pid n)"
proof -
  have u: "unat (make_tid pid n) = unat pid * 2 ^ 56 + unat n" using make_tid_fields [OF assms(1,3)] .
  have n: "0 < unat n" "unat n < 2 ^ 56" using assms(2,3) by (simp_all add: unat_gt_0 word_less_nat_alt)
  have p: "unat pid * 2 ^ 56 \<le> 127 * 2 ^ 56" using assms(1) by simp
  have "unat (make_tid pid n) < 2 ^ 63" using p n(2) unfolding u by simp
  then have "int (unat (make_tid pid n)) < int (2 ^ 63)" by (simp only: of_nat_less_iff)
  then have "sint (make_tid pid n) = int (unat (make_tid pid n))"
    using signed_take_bit_int_eq_self [of 63 "uint (make_tid pid n)"] uint_ge_0 [of "make_tid pid n"]
    by (simp add: sint_uint)
  moreover have "0 < int (unat (make_tid pid n))" using u n(1) by (simp only: of_nat_0_less_iff)
  ultimately have "0 < sint (make_tid pid n)" by simp
  then show ?thesis using u n by (simp add: div_mult_self3 div_less)
qed

theorem transaction_id_fields_witness:
  "unat (make_tid 3 5) div 2 ^ 56 = 3 \<and> unat (make_tid 3 5) mod 2 ^ 56 = 5 \<and> 0 < sint (make_tid 3 5)"
  using transaction_id_fields [of 3 5] by simp

section \<open>Workers\<close>

lemma processed_place_cong:
  "request_timeout s' = request_timeout s \<Longrightarrow>
   processed_place handler ini wnext (b\<lparr>request_head := xs, queue_len := n\<rparr>) q s' rq cl = processed_place handler ini wnext b q s rq cl"
  by (simp add: processed_place_def times_out_def next_place_def cong: option.case_cong if_cong)


text \<open>A handler that sends every request on.\<close>

definition ex_handler :: "nat \<Rightarrow> request \<Rightarrow> handler_result" where
  "ex_handler h rq = \<lparr>hr_ret = PIPELINE_CONTINUE, hr_errno = 0, hr_next = None\<rparr>"

lemma ex_handler_ok: "handler_ok ex_handler s"
  by (simp add: handler_ok_def ex_handler_def)




section \<open>Completion\<close>

text \<open>C2:
  When the completion handler runs on a read event with finished requests, every request of the
  final queue and then of the done queue is answered in that order and freed exactly once: none
  of them occurs twice, each was live before, none is live or allocated after, the responder
  calls are those of the requests that have a responder and are not cancelled, every request
  that is not in the batch is untouched, and the invariant holds after it.  This needs that the
  answers do not give back more references to a connection than it has.
\<close>

theorem completion_answers_each_once:
  assumes "plinv H s" and "request_head (done_rqcb s) \<noteq> []"
    and "\<forall>r \<in> set (final_request_head s @ request_head (done_rqcb s)). \<exists>rq c. requests s r = Some rq \<and> csp rq = Some c"
    and "covered (refs s) (drops resp (requests s) (final_request_head s @ request_head (done_rqcb s)) RESPONDER_CLEAN)"
  shows "\<exists>s'. done_requests_handler resp tlk True EV_READ s = Some s' \<and> plinv H s'
     \<and> live H s' = live H s - set (final_request_head s @ request_head (done_rqcb s))
     \<and> final_request_head s' = [] \<and> request_head (done_rqcb s') = []
     \<and> requests s' = requests s |` (- set (final_request_head s @ request_head (done_rqcb s)))
     \<and> freed (trace s') = freed (trace s) @ final_request_head s @ request_head (done_rqcb s)
     \<and> answered (trace s') = answered (trace s) @ answers (requests s) (final_request_head s @ request_head (done_rqcb s))
     \<and> distinct (final_request_head s @ request_head (done_rqcb s))
     \<and> set (final_request_head s @ request_head (done_rqcb s)) \<subseteq> live H s"
proof -
  obtain s' where s': "done_requests_handler resp tlk True EV_READ s = Some s'" "plinv H s'"
    "live H s' = live H s - set (batch s)" "batch s' = []" "requests s' = requests s |` (- set (batch s))"
    "freed (trace s') = freed (trace s) @ batch s"
    "answered (trace s') = answered (trace s) @ answers (requests s) (batch s)"
    "distinct (batch s)" "set (batch s) \<subseteq> live H s"
    using done_requests_handler_inv [OF assms] by blast
  then have "final_request_head s' = []" "request_head (done_rqcb s') = []" by simp_all
  then show ?thesis using s' by blast
qed

text \<open>The example connection has references for all its requests.\<close>

definition ex_resp :: "nat \<Rightarrow> nat \<Rightarrow> ptr \<Rightarrow> int \<Rightarrow> int" where
  "ex_resp f c d fl = RESPONDER_CLEAN"

lemma ex_covered: "covered (refs (ex_state [] [] [] [1] [2])) (drops ex_resp (requests (ex_state [] [] [] [1] [2])) [2, 1] rc)"
proof -
  have "drops ex_resp (requests (ex_state [] [] [] [1] [2])) [2, 1] rc c = (if c = 0 then 2 else 0)" for c
    by (simp add: eff_rc_def ex_request_def ex_resp_def gives_back_def disconnects_def pipeline_consts)
  then show ?thesis by (simp add: covered_def refs_def)
qed

theorem completion_answers_each_once_witness:
  "\<exists>s'. done_requests_handler ex_resp (\<lambda>p. True) True EV_READ (ex_state [] [] [] [1] [2]) = Some s'
     \<and> freed (trace s') = [2, 1] \<and> answered (trace s') = [(7, 0, None, 0), (7, 0, None, 0)]"
proof -
  have "answers (requests (ex_state [] [] [] [1] [2])) [2, 1] = [(7, 0, None, 0), (7, 0, None, 0)]"
    by (simp add: answer_calls_def ex_request_def)
  then show ?thesis
    using completion_answers_each_once [of "{}" "ex_state [] [] [] [1] [2]" ex_resp "\<lambda>p. True"] ex_covered
      ex_plinv [of "[]" "[]" "[]" "[1]" "[2]"] by auto
qed

text \<open>C37:
  \<^verbatim>\<open>pipeline_queue_len\<close> counts the live requests less those in the final queue and less \<open>k\<close>:
  a submission keeps \<open>k\<close>, but the completion handler adds the length of the final queue to it,
  because a request that was kicked out or dropped there is subtracted a second time.  So every
  request pushed out of a full queue makes the counter one too small for ever, and it can wrap
  around below zero, after which every submission without \<^verbatim>\<open>REQUEST_FORCE\<close> is refused.
\<close>

theorem completion_counts_pushed_out_twice:
  assumes "plinv H s" and "request_head (done_rqcb s) \<noteq> []"
    and "\<forall>r \<in> set (final_request_head s @ request_head (done_rqcb s)). \<exists>rq c. requests s r = Some rq \<and> csp rq = Some c"
    and "covered (refs s) (drops resp (requests s) (final_request_head s @ request_head (done_rqcb s)) RESPONDER_CLEAN)"
    and "counts k H s"
  shows "\<exists>s'. done_requests_handler resp tlk True EV_READ s = Some s'
     \<and> counts (k + length (final_request_head s)) H s'"
proof -
  obtain s' where s': "done_requests_handler resp tlk True EV_READ s = Some s'"
    and l: "live H s' = live H s - set (batch s)" and f: "batch s' = []"
    and n: "pipeline_queue_len s' = pipeline_queue_len s - of_nat (length (batch s))"
    and d: "distinct (batch s)" "set (batch s) \<subseteq> live H s"
    using done_requests_handler_inv [OF assms(1-4)] by blast
  have "card (live H s') + length (batch s) = card (live H s)"
    using card_Diff_subset [of "set (batch s)" "live H s"] d l finite_live [OF assms(1)] distinct_card [OF d(1)]
      card_mono [OF finite_live [OF assms(1)] d(2)] by simp
  then have "of_nat (card (live H s)) = (of_nat (card (live H s')) + of_nat (length (batch s)) :: u64)"
    by (metis of_nat_add)
  moreover have "p - (F + D) + (k + F) = c" if "p + F + k = c + (F + D)" for p F k c D :: u64
    using that by (simp add: algebra_simps)
  ultimately have "counts (k + length (final_request_head s)) H s'"
    using assms(5) n f unfolding counts_def by (simp del: add_diff_eq)
  then show ?thesis using s' by blast
qed

theorem completion_counts_pushed_out_twice_witness:
  "\<exists>s'. done_requests_handler ex_resp (\<lambda>p. True) True EV_READ (ex_state [] [] [] [1] [2]) = Some s' \<and> counts 1 {} s'"
proof -
  have "live {} (ex_state [] [] [] [1] [2]) = {1, 2}" by (auto simp: live_def ex_members)
  then have "counts 0 {} (ex_state [] [] [] [1] [2])" by (simp add: counts_def)
  then show ?thesis
    using completion_counts_pushed_out_twice [of "{}" "ex_state [] [] [] [1] [2]" ex_resp 0 "\<lambda>p. True"] ex_covered
      ex_plinv [of "[]" "[]" "[]" "[1]" "[2]"] by auto
qed

section \<open>The concurrent system\<close>

text \<open>Runs in which, in addition, no timer event consumes a pending signal.\<close>

inductive attentive :: "system \<Rightarrow> system \<Rightarrow> bool" for z0 where
  start: "attentive z0 z0"
| more: "attentive z0 z \<Longrightarrow> \<not> overflow z \<Longrightarrow> step z z' \<Longrightarrow> \<not> swallows z z' \<Longrightarrow> attentive z0 z'"

lemma attentive_inv: "attentive z0 z \<Longrightarrow> sysinv z0 \<Longrightarrow> woken z0 \<Longrightarrow> sysinv z \<and> woken z"
  by (induction rule: attentive.induct) (auto intro: sysinv_step woken_step)

definition ex_thread :: "wpc \<Rightarrow> thread" where
  "ex_thread at = \<lparr>thr_rqcb = 0, wti_next = None, init_ok = True, wpc_of = at\<rparr>"

definition ex_system :: "sys \<Rightarrow> system" where
  "ex_system s = \<lparr>st = s, threads = [0 \<mapsto> ex_thread WTop], mpc_of = MIdle\<rparr>"

lemma ex_sysinv: "distinct (xs @ ts @ ds @ fs) \<Longrightarrow> sysinv (ex_system (ex_state [] xs ts ds fs))"
  using ex_plinv [of "[]" xs ts ds fs]
  by (simp add: sysinv_def threads_ok_def exclusive_def held_def ex_system_def ex_thread_def)

text \<open>The first worker takes the first request.\<close>

definition ex_system1 :: system where
  "ex_system1 = set_pc 0 ((ex_thread WTop)\<lparr>wpc_of := WHas 1 50\<rparr>)
     ((ex_system (ex_state [] [1, 2] [] [] []))\<lparr>st :=
        put_rqcb 0 ((ex_rqcb (Some 1) (Some 3) [1, 2])\<lparr>request_head := [2], queue_len := 1\<rparr>) (ex_state [] [1, 2] [] [] [])\<rparr>)"

lemma ex_step: "step (ex_system (ex_state [] [1, 2] [] [] [])) ex_system1"
  unfolding ex_system1_def
  by (rule step.take) (simp_all add: ex_system_def ex_thread_def worker_take_def Let_def)

lemma ex_calm: "\<not> overflow (ex_system s)" "\<not> swallows (ex_system s) ex_system1"
  by (simp_all add: overflow_def held_def swallows_def ex_system1_def ex_system_def ex_thread_def set_pc_def)

text \<open>C1:
  In every run of the main thread and any number of workers in which no request passes the jump
  limit, a request is at any time linked in at most one queue, at most once, and then no worker
  holds it; two workers never hold the same request; every linked or held request is allocated;
  and the length field of every stage is the length of its queue.
\<close>

theorem system_owns_requests_once:
  assumes run: "reach z0 z" and init: "sysinv z0"
  shows "sysinv z
    \<and> (\<forall>h xs r. queues (st z) h = Some xs \<longrightarrow> r \<in> set xs \<longrightarrow> distinct xs \<and> r \<notin> held z \<and> requests (st z) r \<noteq> None
         \<and> (\<forall>k ys. queues (st z) k = Some ys \<longrightarrow> r \<in> set ys \<longrightarrow> k = h))
    \<and> (\<forall>t th t' th' r cl cl'. threads z t = Some th \<longrightarrow> threads z t' = Some th' \<longrightarrow>
         wpc_of th = WHas r cl \<longrightarrow> wpc_of th' = WHas r cl' \<longrightarrow> t = t' \<and> requests (st z) r \<noteq> None)
    \<and> (\<forall>q b. rqcbs (st z) q = Some b \<longrightarrow> queue_len b = of_nat (length (request_head b)))"
proof -
  have z: "sysinv z" using sysinv_reach [OF run init] .
  note i = sysinvD(1) [OF z]
  have q: "qwf (queues (st z))" and m: "held z \<inter> members (queues (st z)) = {}"
    using invD(1) [OF i] by (simp_all add: ownedQ_def)
  have "distinct xs \<and> r \<notin> held z \<and> requests (st z) r \<noteq> None \<and>
      (\<forall>k ys. queues (st z) k = Some ys \<longrightarrow> r \<in> set ys \<longrightarrow> k = h)"
    if "queues (st z) h = Some xs" "r \<in> set xs" for h xs r
    using qwfD(1) [OF q that(1)] qwfD(2) [OF q that(1) _ _ that(2)] m membersI [of "queues (st z)", OF that]
      inv_request(1) [OF i that] by blast
  moreover have "t = t' \<and> requests (st z) r \<noteq> None" if "threads z t = Some th" "threads z t' = Some th'"
    "wpc_of th = WHas r cl" "wpc_of th' = WHas r cl'" for t th t' th' r cl cl'
  proof
    show "t = t'" using sysinvD(4) [OF z] that unfolding exclusive_def by blast
    have "r \<in> held z" using that(1,3) by (auto simp: held_def)
    then show "requests (st z) r \<noteq> None" using inv_request(2) [OF i] by blast
  qed
  moreover have "\<forall>q b. rqcbs (st z) q = Some b \<longrightarrow> queue_len b = of_nat (length (request_head b))"
    using invD(2) [OF i] by (simp add: lens_def)
  ultimately show ?thesis using z by blast
qed

theorem system_owns_requests_once_witness:
  "reach (ex_system (ex_state [] [1, 2] [] [] [])) ex_system1 \<and> sysinv ex_system1"
proof -
  have "reach (ex_system (ex_state [] [1, 2] [] [] [])) ex_system1"
    using reach.more [OF reach.start ex_calm(1) ex_step] .
  then show ?thesis using system_owns_requests_once ex_sysinv [of "[1, 2]" "[]" "[]" "[]"] by simp
qed

text \<open>C14:
  In such a run no worker and no kick of the main thread accesses a missing object: taking a
  request, processing a held one with handlers that choose existing stages, and moving the
  buffered requests always have a result.
\<close>

theorem system_steps_do_not_fault:
  assumes run: "reach z0 z" and init: "sysinv z0" and t: "threads z t = Some th"
  shows "worker_take (thr_rqcb th) (st z) \<noteq> None
    \<and> (\<forall>r cl handler w. wpc_of th = WHas r cl \<longrightarrow> handler_ok handler (st z) \<longrightarrow> \<not> overflow z \<longrightarrow>
        worker_process True w handler (init_ok th) (wti_next th) (thr_rqcb th) r cl (st z) \<noteq> None)
    \<and> (\<forall>tlk. kick_request_queue tlk (read_pipe (st z)) \<noteq> None)"
proof -
  have z: "sysinv z" using sysinv_reach [OF run init] .
  note i = sysinvD(1) [OF z]
  obtain b where b: "rqcbs (st z) (thr_rqcb th) = Some b" using sysinvD(2) [OF z t] by blast
  have "worker_take (thr_rqcb th) (st z) \<noteq> None" using worker_take_inv [OF i b] by auto
  moreover have "worker_process True w handler (init_ok th) (wti_next th) (thr_rqcb th) r cl (st z) \<noteq> None"
    if "wpc_of th = WHas r cl" "handler_ok handler (st z)" "\<not> overflow z" for r cl handler w
  proof -
    have r: "r \<in> held z" using t that(1) by (auto simp: held_def)
    obtain rq where rq: "requests (st z) r = Some rq" using inv_request(2) [OF i r] by blast
    have "nstage rq \<le> MAX_STAGE_JUMP" using that(3) r rq by (auto simp: overflow_def not_less)
    from worker_process_inv [OF i r b rq sysinvD(3) [OF z t] that(2) this, of w "init_ok th" cl]
    show ?thesis by auto
  qed
  moreover have "kick_request_queue tlk (read_pipe (st z)) \<noteq> None" for tlk
    using kick_request_queue_inv [of "held z" "read_pipe (st z)" tlk] i by auto
  ultimately show ?thesis by blast
qed

theorem system_steps_do_not_fault_witness:
  "worker_take 0 (st (ex_system (ex_state [] [1, 2] [] [] []))) \<noteq> None"
  using system_steps_do_not_fault [OF reach.start ex_sysinv [of "[1, 2]" "[]" "[]" "[]"], of 0 "ex_thread WTop"]
  by (simp add: ex_system_def ex_thread_def)

text \<open>C12:
  No lost wake-up: in every run without a timer event that consumes a signal, whenever finished
  requests wait, the main thread is idle and no worker is about to signal, the signal is set and a
  byte is in the pipe, so the main loop can enter the completion handler with a read event, with
  the finished requests still there.
\<close>

theorem finished_requests_wake_main:
  assumes run: "attentive z0 z" and init: "sysinv z0" "woken z0"
    and fin: "request_head (done_rqcb (st z)) \<noteq> []" and idle: "mpc_of z = MIdle" "\<not> notifying z"
  shows "done_signalled (st z) \<and> pipe_bytes (st z) > 0
    \<and> (\<exists>z'. step z z' \<and> mpc_of z' = MHandle EV_READ \<and> done_rqcb (st z') = done_rqcb (st z))"
proof -
  have z: "sysinv z" "woken z" using attentive_inv [OF run init] by simp_all
  have sig: "done_signalled (st z)" "pipe_bytes (st z) > 0" using z(2) fin idle by (auto simp: woken_def)
  have "plinv (held z) (read_pipe (st z))" using sysinvD(1) [OF z(1)] by simp
  then obtain s' where s': "kick_request_queue (\<lambda>p. True) (read_pipe (st z)) = Some s'"
    using kick_request_queue_inv [of "held z" "read_pipe (st z)" "\<lambda>p. True"] by blast
  have "step z (z\<lparr>st := s', mpc_of := MHandle EV_READ\<rparr>)"
    by (rule step.event [OF idle(1)]) (use sig s' in auto)
  moreover have "done_rqcb s' = done_rqcb (st z)"
    using s' still_kick_loop by (fastforce simp: kick_request_queue_def still_def)
  ultimately show ?thesis using sig by (intro conjI exI [of _ "z\<lparr>st := s', mpc_of := MHandle EV_READ\<rparr>"]) simp_all
qed

theorem finished_requests_wake_main_witness:
  "\<exists>z'. step (ex_system (ex_state [] [] [] [1] [])) z' \<and> mpc_of z' = MHandle EV_READ"
proof -
  let ?z = "ex_system (ex_state [] [] [] [1] [])"
  have "woken ?z" by (simp add: woken_def ex_system_def)
  moreover have "\<not> notifying ?z" by (auto simp: notifying_def ex_system_def ex_thread_def split: if_splits)
  ultimately show ?thesis
    using finished_requests_wake_main [OF attentive.start ex_sysinv [of "[]" "[]" "[1]" "[]"]]
    by (auto simp: ex_system_def)
qed

section \<open>Faults\<close>

text \<open>C38:
  The timer event loses a wake-up: the handler clears the signal and reads the pipe, but leaves
  the finished requests where they are, so no event tells the main loop of them until another
  request finishes.
\<close>

theorem timer_event_loses_signal:
  assumes inv: "plinv H s" and sig: "done_signalled s" and few: "pipe_bytes s \<le> 16"
  shows "\<exists>s'. done_requests_handler resp tlk lk EV_TIMEOUT s = Some s' \<and> \<not> done_signalled s' \<and> pipe_bytes s' = 0
    \<and> done_rqcb s' = done_rqcb s \<and> plinv H s'"
proof -
  have "plinv H (read_pipe s)" using inv by simp
  then obtain s' where s': "kick_request_queue tlk (read_pipe s) = Some s'" "kicked H (read_pipe s) s'"
    using kick_request_queue_inv [of H "read_pipe s" tlk] by blast
  have "still (read_pipe s) s'" using s'(1) still_kick_loop by (simp add: kick_request_queue_def)
  then show ?thesis using s' sig few
    by (auto simp: done_requests_handler_def process_done_def still_def read_pipe_def kicked_def)
qed

theorem timer_event_loses_signal_witness:
  "\<exists>s'. done_requests_handler ex_resp (\<lambda>p. True) True EV_TIMEOUT (ex_state [] [] [] [1] []) = Some s'
     \<and> \<not> done_signalled s' \<and> request_head (done_rqcb s') = [1]"
  using timer_event_loses_signal [of "{}" "ex_state [] [] [] [1] []" ex_resp "\<lambda>p. True" True]
    ex_plinv [of "[]" "[]" "[]" "[1]" "[]"] by auto

text \<open>C39:
  The loop check of \<^verbatim>\<open>submit_next\<close> does not end the switch: a request past the jump limit
  that a handler continues is appended to the done queue and to its next stage as well, so it
  is linked in two queues at once.
\<close>

theorem loop_check_links_twice:
  assumes inv: "plinv H s" and r: "r \<in> H" and b: "rqcbs s q = Some b" and rq: "requests s r = Some rq"
    and cont: "ret rq = PIPELINE_CONTINUE" "nstage rq > MAX_STAGE_JUMP" and nx: "next_rqcb b = Some n"
  shows "\<exists>s' xs ys. submit_next True w None q r s = Some (None, s')
    \<and> queues s' QDone = Some (xs @ [r]) \<and> queues s' (QStage n) = Some (ys @ [r]) \<and> \<not> qwf (queues s')"
proof -
  let ?s0 = "put_request r (rq\<lparr>err := REQUEST_LOOP\<rparr>) s"
  have m: "moved H s H ?s0" using moved_put_request [OF inv rq] by simp
  obtain s1 where s1: "to_done_stage True w r ?s0 = Some s1" "moved H ?s0 (H - {r}) s1"
    "queues s1 = (queues s)(QDone \<mapsto> request_head (done_rqcb s) @ [r])" "requests s1 = requests ?s0"
    using to_done_stage_inv [OF movedD(1) [OF m] r, of w] by auto
  have "n \<in> dom (rqcbs s)" using invD(4) [OF inv] b nx unfolding linked_def by blast
  then obtain bn where bn: "rqcbs s1 n = Some bn" using movedD(3) [OF s1(2)] by auto
  have r1: "requests s1 r = Some (rq\<lparr>err := REQUEST_LOOP\<rparr>)" using s1(4) by simp
  let ?s2 = "put_request r (rq\<lparr>err := REQUEST_LOOP, nstage := nstage rq + 1\<rparr>)
    (put_rqcb n (bn\<lparr>request_head := request_head bn @ [r], queue_len := queue_len bn + 1,
       request_count := request_count bn + 1\<rparr>) s1)"
  have run: "submit_next True w None q r s = Some (None, ?s2)"
    using b rq cont nx s1(1) bn r1 by (simp add: submit_next_def loop_check_def to_next_stage_def Let_def pipeline_consts)
  have two: "queues ?s2 QDone = Some (request_head (done_rqcb s) @ [r])" "queues ?s2 (QStage n) = Some (request_head bn @ [r])"
    using s1(3) queues_at(3) [of s1] by auto
  have "\<not> qwf (queues ?s2)" using qwfD(2) [of "queues ?s2", OF _ two(1,2), of r] by auto
  then show ?thesis using run two by blast
qed

text \<open>A held request that has made 257 stage jumps.\<close>

definition ex_looping :: sys where
  "ex_looping = put_request 1 (ex_request\<lparr>nstage := 257\<rparr>) (ex_state [1] [] [] [] [])"

theorem loop_check_links_twice_witness:
  "\<exists>s'. submit_next True True None 0 1 ex_looping = Some (None, s') \<and> \<not> qwf (queues s')"
proof -
  have "moved {1} (ex_state [1] [] [] [] []) {1} ex_looping"
    unfolding ex_looping_def
    using moved_put_request [OF ex_plinv [of "[1]" "[]" "[]" "[]" "[]"], of 1 ex_request] by simp
  then have "plinv {1} ex_looping" by (rule movedD(1))
  then show ?thesis
    using loop_check_links_twice [of "{1}" ex_looping 1 0 "ex_rqcb (Some 1) (Some 3) []" "ex_request\<lparr>nstage := 257\<rparr>" 1 True]
    by (auto simp: ex_looping_def ex_request_def pipeline_consts)
qed

text \<open>
  A forced submission that kicks out the oldest request dereferences a null pointer when the
  queue is empty and the configured limit is zero, which is its value when the configuration
  gives none.
\<close>

theorem kick_out_of_empty_queue_faults:
  assumes "unat pid < PIPELINE_SIZE" "\<not> graceful_restart s" "pcbs s (unat pid) = Some c" "first_rqcbp c = Some q"
    and "rqcbs s q = Some b" "request_head b = []" "tmp_request_head c = []"
    and "ri_queue_size s = 0" "fl AND REQUEST_FORCE \<noteq> 0" "fl AND REQUEST_KICK_OUT \<noteq> 0"
    and "conns s cs = Some cst" "trylock_ok env"
  shows "submit_request env (Some (r, blk)) (Some cs) pid dat cleaner responder fl s = None"
  using assms submit_request_eq [of pid s c q fl cs cst env r blk dat cleaner responder]
  by (simp add: with_request_def send_to_pipeline_def send_locked_def send_concat_def send_push_def kick_out_def Let_def)

theorem kick_out_of_empty_queue_faults_witness:
  "submit_request ex_env (Some (5, ex_request)) (Some 0) 0 None None None 3
     ((ex_state [] [] [] [] [])\<lparr>ri_queue_size := 0\<rparr>) = None"
  by (rule kick_out_of_empty_queue_faults [of _ _ "ex_pcb []" 0 "ex_rqcb (Some 1) (Some 3) []" _ _ ex_conn])
    (simp_all add: pipeline_consts ex_env_def)

text \<open>
  Two answers in one batch that both disconnect the same connection: the second one releases
  a connection that has been freed.
\<close>

lemma double_disconnect_uses_freed:
  "done_requests_handler (\<lambda>f c d fl. RESPONDER_DISCONNECT) (\<lambda>p. True) True EV_READ
     ((ex_state [] [] [] [1, 2] [])\<lparr>conns := [0 \<mapsto> ex_conn\<lparr>ref_cnt := 3\<rparr>]\<rparr>) = None"
  by (simp add: done_requests_handler_def kick_request_queue_def read_pipe_def process_done_def get_done_requests_def
      respond_one_def call_responder_def disconnect_def conn_close_def tcp_conn_close_def conn_state_cleanup_def
      connection_lost_def do_protocol_session_end_def CS_RELE_def cleanup_request_def ex_request_def ex_conn_def
      pipeline_consts Let_def emit_def put_request_def)

end
