(* ===== verification/Strl.thy ===== *)
theory Strl
  imports Prelude
begin

text \<open>
  The bounded string functions \<^verbatim>\<open>strlcpy\<close> and \<^verbatim>\<open>strlcat\<close> of \<^verbatim>\<open>src/utils\<close>,
  loop by loop on checked buffers, and what they compute.
\<close>

section \<open>strlcpy\<close>

text \<open>The copying loop: destination, its position, the position in the source, and \<open>n\<close> at the exit.\<close>

fun cpy_loop :: "buf \<Rightarrow> nat \<Rightarrow> buf \<Rightarrow> nat \<Rightarrow> nat \<Rightarrow> (buf \<times> nat \<times> nat \<times> nat) option" where
  "cpy_loop dst d src s 0 = None"
| "cpy_loop dst d src s (Suc n) = (if n = 0 then Some (dst, d, s, 0) else do {
     c \<leftarrow> rd src s;
     dst' \<leftarrow> wr dst d c;
     if c = NUL then Some (dst', d + 1, s + 1, n) else cpy_loop dst' (d + 1) src (s + 1) n
   })"

text \<open>\<^verbatim>\<open>while (*s++)\<close>: the position behind the next NUL.\<close>

function scan_nul :: "buf \<Rightarrow> nat \<Rightarrow> nat option" where
  "scan_nul src s = (if s < length src then if src ! s = NUL then Some (s + 1) else scan_nul src (s + 1) else None)"
  by pat_completeness auto
termination by (relation "measure (\<lambda>(src, s). length src - s)") auto

declare scan_nul.simps [simp del]

definition strlcpy :: "buf \<Rightarrow> buf \<Rightarrow> nat \<Rightarrow> (buf \<times> nat) option" where
  "strlcpy dst src siz = do {
     (dst, d, s, n) \<leftarrow> (if siz \<noteq> 0 then cpy_loop dst 0 src 0 siz else Some (dst, 0, 0, 0));
     if n = 0 then do {
       dst \<leftarrow> (if siz \<noteq> 0 then wr dst d NUL else Some dst);
       s \<leftarrow> scan_nul src s;
       Some (dst, s - 1)
     } else Some (dst, s - 1)
   }"

section \<open>strlcat\<close>

text \<open>The position of the end of the destination string, at most \<open>n\<close> further.\<close>

fun cat_end :: "buf \<Rightarrow> nat \<Rightarrow> nat \<Rightarrow> nat option" where
  "cat_end dst d 0 = Some d"
| "cat_end dst d (Suc n) = do {
     c \<leftarrow> rd dst d;
     if c \<noteq> NUL then cat_end dst (d + 1) n else Some d
   }"

text \<open>The appending loop; it reads the source to its end and writes while more than one byte is left.\<close>

function cat_loop :: "buf \<Rightarrow> nat \<Rightarrow> buf \<Rightarrow> nat \<Rightarrow> nat \<Rightarrow> (buf \<times> nat \<times> nat) option" where
  "cat_loop dst d src s n = (if s < length src then
     if src ! s = NUL then Some (dst, d, s)
     else if n \<noteq> 1 then do { dst' \<leftarrow> wr dst d (src ! s); cat_loop dst' (d + 1) src (s + 1) (n - 1) }
     else cat_loop dst d src (s + 1) n
   else None)"
  by pat_completeness auto
termination by (relation "measure (\<lambda>(dst, d, src, s, n). length src - s)") auto

declare cat_loop.simps [simp del]

definition strlcat :: "buf \<Rightarrow> buf \<Rightarrow> nat \<Rightarrow> (buf \<times> nat) option" where
  "strlcat dst src siz = do {
     dlen \<leftarrow> cat_end dst 0 siz;
     let n = siz - dlen;
     if n = 0 then do { e \<leftarrow> scan_nul src 0; Some (dst, dlen + (e - 1)) }
     else do {
       (dst, d, s) \<leftarrow> cat_loop dst dlen src 0 n;
       dst \<leftarrow> wr dst d NUL;
       Some (dst, dlen + s)
     }
   }"

section \<open>What they compute\<close>

text \<open>A source buffer that holds the string \<open>t\<close>.\<close>

definition holds :: "buf \<Rightarrow> string \<Rightarrow> bool" where
  "holds b t \<longleftrightarrow> NUL \<notin> set t \<and> (\<exists>r. b = t @ NUL # r)"

lemma holdsD:
  assumes "holds b t"
  shows "length t < length b" "b ! length t = NUL" "i < length t \<Longrightarrow> b ! i = t ! i"
    "i < length t \<Longrightarrow> b ! i \<noteq> NUL" "i \<le> length t \<Longrightarrow> i < length b"
  using assms by (auto simp: holds_def nth_append) (metis nth_mem)

lemma holds_cstr: "holds b t \<Longrightarrow> cstr b = t"
  by (auto simp: holds_def)

lemma scan_nul_holds: "holds src t \<Longrightarrow> s \<le> length t \<Longrightarrow> scan_nul src s = Some (Suc (length t))"
proof (induction "length t - s" arbitrary: s)
  case 0
  then show ?case using holdsD(1,2) [OF 0(2)] by (subst scan_nul.simps) auto
next
  case (Suc k)
  then show ?case using holdsD(4,5) [OF Suc.prems(1), of s] by (subst scan_nul.simps) auto
qed

lemma update_behind:
  assumes "length x = k" and "k < length dst" and "n = Suc k"
  shows "(x @ drop k dst)[k := c] = x @ c # drop n dst"
  using assms by (simp add: list_update_append Cons_nth_drop_Suc [symmetric])

lemma cpy_loop_holds:
  assumes "holds src t" and "n > 0" and "s \<le> length t" and "length p + n \<le> length p + length dst"
  shows "cpy_loop (p @ dst) (length p) src s n =
    (let m = min (n - 1) (length t - s) in
     if n - 1 \<le> length t - s then Some (p @ take m (drop s t) @ drop m dst, length p + m, s + m, 0)
     else Some (p @ drop s t @ NUL # drop (Suc m) dst, length p + m + 1, length t + 1, n - 1 - m))"
  using assms
proof (induction n arbitrary: p dst s)
  case (Suc n)
  show ?case
  proof (cases "n = 0")
    case True
    then show ?thesis by simp
  next
    case n: False
    obtain x xs where dst: "dst = x # xs" using Suc.prems(4) n by (cases dst) auto
    show ?thesis
    proof (cases "s = length t")
      case True
      then show ?thesis using n dst holdsD(1,2) [OF Suc.prems(1)] by (simp add: Let_def)
    next
      case False
      then have s: "s < length t" using Suc.prems(3) by simp
      note h = holdsD(3-5) [OF Suc.prems(1)]
      have step: "cpy_loop (p @ dst) (length p) src s (Suc n) = cpy_loop ((p @ [t ! s]) @ xs) (length (p @ [t ! s])) src (Suc s) n"
        using n dst s h(1) [OF s] h(2) [OF s] h(3) [of s] by simp
      have ih: "cpy_loop ((p @ [t ! s]) @ xs) (length (p @ [t ! s])) src (Suc s) n =
        (let m = min (n - 1) (length t - Suc s) in
         if n - 1 \<le> length t - Suc s then Some ((p @ [t ! s]) @ take m (drop (Suc s) t) @ drop m xs, length (p @ [t ! s]) + m, Suc s + m, 0)
         else Some ((p @ [t ! s]) @ drop (Suc s) t @ NUL # drop (Suc m) xs, length (p @ [t ! s]) + m + 1, length t + 1, n - 1 - m))"
        using Suc.IH [OF Suc.prems(1), of "Suc s" "p @ [t ! s]" xs] n s Suc.prems(4) dst by simp
      have d: "drop s t = t ! s # drop (Suc s) t" using s by (simp add: Cons_nth_drop_Suc)
      show ?thesis unfolding step ih using s n dst d
        by (cases n; cases "length t - s") (auto simp: Let_def min_def Suc_diff_Suc)
    qed
  qed
qed simp

lemma strlcpy_holds:
  assumes "holds src t" and "siz \<le> length dst"
  shows "strlcpy dst src siz = Some
    (if siz = 0 then dst else take (siz - 1) t @ NUL # drop (Suc (min (siz - 1) (length t))) dst, length t)"
proof (cases "siz = 0")
  case True
  then show ?thesis using scan_nul_holds [OF assms(1), of 0] by (simp add: strlcpy_def)
next
  case False
  let ?m = "min (siz - 1) (length t)"
  note loop = cpy_loop_holds [OF assms(1), of siz 0 "[]" dst, simplified Let_def]
  show ?thesis
  proof (cases "siz - 1 \<le> length t")
    case True
    then have "cpy_loop dst 0 src 0 siz = Some (take (siz - 1) t @ drop (siz - 1) dst, siz - 1, siz - 1, 0)"
      using loop False assms(2) by simp
    moreover have "(take (siz - 1) t @ drop (siz - 1) dst)[siz - 1 := NUL] = take (siz - 1) t @ NUL # drop siz dst"
      using True False assms(2) by (intro update_behind) auto
    ultimately show ?thesis using scan_nul_holds [OF assms(1), of "siz - 1"] True False assms(2)
      by (simp add: strlcpy_def min_def)
  next
    case f: False
    then have "\<not> siz \<le> Suc (length t)" by simp
    then show ?thesis using f loop False assms(2) by (simp add: strlcpy_def)
  qed
qed

lemma cat_end_holds:
  assumes "holds dst u" and "d \<le> length u"
  shows "cat_end dst d n = Some (min (d + n) (length u))"
  using assms(2)
proof (induction n arbitrary: d)
  case (Suc n)
  then show ?case using holdsD [OF assms(1)] by (cases "d = length u") (auto simp: min_def)
qed simp

lemma cat_loop_holds:
  assumes "holds src t" and "n > 0" and "s \<le> length t" and "n \<le> length dst"
  shows "cat_loop (p @ dst) (length p) src s n =
    (let m = min (n - 1) (length t - s) in
     Some (p @ take m (drop s t) @ drop m dst, length p + m, length t))"
  using assms
proof (induction "length t - s" arbitrary: p dst s n)
  case 0
  then show ?case using holdsD(1,2) [OF 0(2)] by (subst cat_loop.simps) simp
next
  case (Suc k)
  then have s: "s < length t" by simp
  have h: "s < length src" "src ! s = t ! s" "src ! s \<noteq> NUL"
    using holdsD(3-5) [OF Suc.prems(1), of s] s by auto
  have d: "drop s t = t ! s # drop (Suc s) t" using s by (simp add: Cons_nth_drop_Suc)
  have k: "k = length t - Suc s" and s1: "Suc s \<le> length t" using Suc.hyps(2) s by simp_all
  show ?case
  proof (cases "n = 1")
    case True
    have "cat_loop (p @ dst) (length p) src s n = cat_loop (p @ dst) (length p) src (Suc s) 1"
      unfolding True using h by (subst cat_loop.simps) simp
    also have "\<dots> = Some (p @ dst, length p, length t)"
      using Suc.hyps(1) [OF k Suc.prems(1) _ s1, of 1 dst p] Suc.prems(4) True by simp
    finally show ?thesis using True by simp
  next
    case False
    obtain x xs where dst: "dst = x # xs" using Suc.prems(2,4) by (cases dst) auto
    obtain n' where n': "n = Suc (Suc n')" using False Suc.prems(2) by (cases n; cases "n - 1") auto
    have "cat_loop (p @ dst) (length p) src s n = cat_loop ((p @ [t ! s]) @ xs) (length (p @ [t ! s])) src (Suc s) (Suc n')"
      using h n' dst by (subst cat_loop.simps) simp
    also have "\<dots> = (let m = min n' (length t - Suc s) in
       Some ((p @ [t ! s]) @ take m (drop (Suc s) t) @ drop m xs, length (p @ [t ! s]) + m, length t))"
      using Suc.hyps(1) [OF k Suc.prems(1) _ s1, of "Suc n'" xs "p @ [t ! s]"] Suc.prems(4) n' dst by simp
    finally show ?thesis using n' d dst by (simp add: Let_def Suc.hyps(2) [symmetric] flip: k)
  qed
qed

lemma strlcat_holds:
  assumes "holds dst u" and "holds src t" and "siz \<le> length dst"
  shows "strlcat dst src siz = Some (if siz \<le> length u then (dst, siz + length t)
     else (u @ take (siz - length u - 1) t @ NUL # drop (Suc (length u + min (siz - length u - 1) (length t))) dst,
           length u + length t))"
proof (cases "siz \<le> length u")
  case True
  then show ?thesis
    using cat_end_holds [OF assms(1), of 0 siz] scan_nul_holds [OF assms(2), of 0] by (simp add: strlcat_def)
next
  case False
  obtain r where r: "dst = u @ r" using assms(1) by (auto simp: holds_def)
  let ?n = "siz - length u"
  let ?m = "min (?n - 1) (length t)"
  have e: "cat_end dst 0 siz = Some (length u)" using cat_end_holds [OF assms(1), of 0 siz] False by simp
  have l: "cat_loop (u @ r) (length u) src 0 ?n = Some (u @ take ?m t @ drop ?m r, length u + ?m, length t)"
    using cat_loop_holds [OF assms(2), of ?n 0 r u] False assms(3) r by (simp add: Let_def)
  have w: "?m < length r" using False assms(3) r by auto
  have u: "((u @ take ?m t) @ drop (length u + ?m) dst)[length u + ?m := NUL] = (u @ take ?m t) @ NUL # drop (Suc (length u + ?m)) dst"
    using w r by (intro update_behind) auto
  have m: "take ?m t = take (?n - 1) t" by (simp add: min_def)
  have "strlcat dst src siz = wr (u @ take ?m t @ drop ?m r) (length u + ?m) NUL \<bind> (\<lambda>dst. Some (dst, length u + length t))"
    using e l False r by (simp add: strlcat_def)
  also have "\<dots> = Some (u @ take ?m t @ NUL # drop (Suc (length u + ?m)) dst, length u + length t)"
    using u w r by simp
  finally show ?thesis using False m by simp
qed

text \<open>C21:
  \<^verbatim>\<open>strlcpy\<close> and \<^verbatim>\<open>strlcat\<close> on a destination of at least \<open>siz\<close> bytes never touch memory
  outside their buffers; the result is the longest prefix that fits, always terminated, the rest
  of the destination is unchanged, and the return value is the length of the string they tried to
  create, so that a value of at least \<open>siz\<close> tells of truncation.
\<close>

theorem strl_functions_correct:
  assumes src: "holds src t" and e: "siz \<le> length e" and dst: "holds dst u" and siz: "siz \<le> length dst"
  shows "(\<exists>d. strlcpy e src siz = Some (d, length t) \<and> length d = length e
        \<and> (siz > 0 \<longrightarrow> holds d (take (siz - 1) t)) \<and> drop siz d = drop siz e)
    \<and> (\<exists>d. strlcat dst src siz = Some (d, min siz (length u) + length t) \<and> length d = length dst
        \<and> (length u < siz \<longrightarrow> holds d (take (siz - 1) (u @ t))) \<and> drop siz d = drop siz dst)"
proof
  have nul: "NUL \<notin> set (take k t)" "NUL \<notin> set u" for k using src dst by (auto simp: holds_def dest: in_set_takeD)
  let ?c = "if siz = 0 then e else take (siz - 1) t @ NUL # drop (Suc (min (siz - 1) (length t))) e"
  have "length ?c = length e" "drop siz ?c = drop siz e" using e by (cases siz; auto simp: min_def drop_Cons')+
  then show "\<exists>d. strlcpy e src siz = Some (d, length t) \<and> length d = length e
      \<and> (siz > 0 \<longrightarrow> holds d (take (siz - 1) t)) \<and> drop siz d = drop siz e"
    using strlcpy_holds [OF src e] nul by (intro exI [of _ ?c]) (auto simp: holds_def)
  show "\<exists>d. strlcat dst src siz = Some (d, min siz (length u) + length t) \<and> length d = length dst
      \<and> (length u < siz \<longrightarrow> holds d (take (siz - 1) (u @ t))) \<and> drop siz d = drop siz dst"
  proof (cases "length u < siz")
    case True
    let ?d = "u @ take (siz - length u - 1) t @ NUL # drop (Suc (length u + min (siz - length u - 1) (length t))) dst"
    have "strlcat dst src siz = Some (?d, min siz (length u) + length t)"
      using strlcat_holds [OF dst src siz] True by simp
    moreover have "length ?d = length dst" "drop siz ?d = drop siz dst"
      using siz True by (auto simp: min_def drop_Cons')
    moreover have "holds ?d (take (siz - 1) (u @ t))" using True nul by (auto simp: holds_def)
    ultimately show ?thesis by blast
  next
    case False
    then show ?thesis using strlcat_holds [OF dst src siz] by simp
  qed
qed

theorem strl_functions_correct_witness:
  "(\<exists>d. strlcpy ''xyzab'' (''csf'' @ [NUL]) 3 = Some (d, 3) \<and> holds d ''cs'')
   \<and> (\<exists>d. strlcat (''a'' @ NUL # ''bcd'') (''csf'' @ [NUL]) 3 = Some (d, 4) \<and> holds d ''ac'')"
proof -
  have "holds (''csf'' @ [NUL]) ''csf''" "holds (''a'' @ NUL # ''bcd'') ''a''" by (simp_all add: holds_def)
  then show ?thesis using strl_functions_correct [of "''csf'' @ [NUL]" "''csf''" 3 "''xyzab''" "''a'' @ NUL # ''bcd''" "''a''"]
    by auto
qed

end
