(* ===== verification/Dictionary.thy ===== *)
theory Dictionary
  imports Prelude
begin

text \<open>
  The string dictionary of \<^verbatim>\<open>confparser/dictionary.c\<close>: three parallel arrays with a hash
  per key, grown by doubling.  It implements a finite map from keys to (possibly null) values.
  An array pointer is \<^const>\<open>None\<close> when it is null; whether an allocation succeeds is a parameter.
\<close>

section \<open>Data\<close>

record dictionary =
  dict_n :: int
  dict_size :: int
  dict_val :: "string option list option"
  dict_key :: "string option list option"
  dict_hash :: "u32 list option"

text \<open>A \<^verbatim>\<open>char *\<close> result: null, the token for an invalid key, or a string.\<close>

datatype cptr = NULLP | INVALID_KEY | Str string

text \<open>Which of the allocations of one \<^verbatim>\<open>dictionary_set\<close> succeed.\<close>

record dict_alloc =
  grow_val :: bool
  grow_key :: bool
  grow_hash :: bool
  dup_key :: bool
  dup_val :: bool

definition DICTMINSZ :: int where "DICTMINSZ = 128"

text \<open>Checked access to an array behind a pointer.\<close>

definition arr_get :: "'a list option \<Rightarrow> nat \<Rightarrow> 'a option" where
  "arr_get a i = (case a of Some xs \<Rightarrow> if i < length xs then Some (xs ! i) else None | None \<Rightarrow> None)"

definition arr_set :: "'a list option \<Rightarrow> nat \<Rightarrow> 'a \<Rightarrow> 'a list option option" where
  "arr_set a i x = (case a of Some xs \<Rightarrow> if i < length xs then Some (Some (xs[i := x])) else None | None \<Rightarrow> None)"

lemma arr_simps [simp]:
  "i < length xs \<Longrightarrow> arr_get (Some xs) i = Some (xs ! i)"
  "i < length xs \<Longrightarrow> arr_set (Some xs) i x = Some (Some (xs[i := x]))"
  by (simp_all add: arr_get_def arr_set_def)

section \<open>Operations\<close>

definition mem_double :: "bool \<Rightarrow> 'a \<Rightarrow> 'a list option \<Rightarrow> nat \<Rightarrow> 'a list option option" where
  "mem_double ok zero a sz = (if \<not> ok then Some None else do {
     xs \<leftarrow> a;
     if sz \<le> length xs then Some (Some (take sz xs @ replicate sz zero)) else None
   })"

definition xstrdup :: "bool \<Rightarrow> string option \<Rightarrow> string option" where
  "xstrdup ok s = (case s of None \<Rightarrow> None | Some t \<Rightarrow> if ok then Some t else None)"

text \<open>The value of a \<^verbatim>\<open>char\<close> converted to \<^verbatim>\<open>unsigned\<close>; \<^verbatim>\<open>char\<close> is signed.\<close>

definition uchar :: "char \<Rightarrow> u32" where
  "uchar c = word_of_int (signed_take_bit 7 (of_char c))"

definition hash_step :: "u32 \<Rightarrow> char \<Rightarrow> u32" where
  "hash_step h c = (let h = h + uchar c; h = h + push_bit 10 h in h XOR drop_bit 6 h)"

definition dictionary_hash :: "string \<Rightarrow> u32" where
  "dictionary_hash key = (let h = foldl hash_step 0 key; h = h + push_bit 3 h; h = h XOR drop_bit 11 h
     in h + push_bit 15 h)"

definition calloc :: "bool \<Rightarrow> int \<Rightarrow> 'a \<Rightarrow> 'a list option" where
  "calloc ok sz zero = (if ok then Some (replicate (nat sz) zero) else None)"

definition dictionary_new :: "bool \<Rightarrow> bool \<Rightarrow> bool \<Rightarrow> bool \<Rightarrow> int \<Rightarrow> dictionary option" where
  "dictionary_new ok okv okk okh sz = (let sz = (if sz < DICTMINSZ then DICTMINSZ else sz) in
     if ok then Some \<lparr>dict_n = 0, dict_size = sz, dict_val = calloc okv sz None,
       dict_key = calloc okk sz None, dict_hash = calloc okh sz 0\<rparr> else None)"

text \<open>The search loop: the slot of a key, or the size; \<open>m\<close> slots are left to look at.\<close>

fun find_slot :: "dictionary \<Rightarrow> string \<Rightarrow> u32 \<Rightarrow> nat \<Rightarrow> nat \<Rightarrow> nat option" where
  "find_slot d key h i 0 = Some i"
| "find_slot d key h i (Suc m) = do {
     k \<leftarrow> arr_get (dict_key d) i;
     (case k of None \<Rightarrow> find_slot d key h (Suc i) m
      | Some k \<Rightarrow> do {
          hv \<leftarrow> arr_get (dict_hash d) i;
          if h = hv \<and> key = k then Some i else find_slot d key h (Suc i) m
        })
   }"

fun free_slot :: "dictionary \<Rightarrow> nat \<Rightarrow> nat \<Rightarrow> nat option" where
  "free_slot d i 0 = Some i"
| "free_slot d i (Suc m) = do {
     k \<leftarrow> arr_get (dict_key d) i;
     if k = None then Some i else free_slot d (Suc i) m
   }"

definition cptr_of :: "string option \<Rightarrow> cptr" where
  "cptr_of v = (case v of None \<Rightarrow> NULLP | Some s \<Rightarrow> Str s)"

definition dictionary_get :: "dictionary \<Rightarrow> string \<Rightarrow> cptr \<Rightarrow> cptr option" where
  "dictionary_get d key def = do {
     i \<leftarrow> find_slot d key (dictionary_hash key) 0 (nat (dict_size d));
     if i < nat (dict_size d) then do { v \<leftarrow> arr_get (dict_val d) i; Some (cptr_of v) } else Some def
   }"

text \<open>Doubling the three arrays; the flag says whether it succeeded.\<close>

definition dict_grow :: "dict_alloc \<Rightarrow> dictionary \<Rightarrow> (bool \<times> dictionary) option" where
  "dict_grow al d = do {
     v \<leftarrow> mem_double (grow_val al) None (dict_val d) (nat (dict_size d));
     k \<leftarrow> mem_double (grow_key al) None (dict_key d) (nat (dict_size d));
     h \<leftarrow> mem_double (grow_hash al) 0 (dict_hash d) (nat (dict_size d));
     let d' = d\<lparr>dict_val := v, dict_key := k, dict_hash := h\<rparr>;
     if v = None \<or> k = None \<or> h = None then Some (False, d')
     else Some (True, d'\<lparr>dict_size := dict_size d * 2\<rparr>)
   }"

text \<open>Storing a key in the first empty slot.\<close>

definition dict_insert :: "dict_alloc \<Rightarrow> dictionary \<Rightarrow> string \<Rightarrow> string option \<Rightarrow> dictionary option" where
  "dict_insert al d key v = do {
     i \<leftarrow> free_slot d 0 (nat (dict_size d));
     ks \<leftarrow> arr_set (dict_key d) i (xstrdup (dup_key al) (Some key));
     vs \<leftarrow> arr_set (dict_val d) i (xstrdup (dup_val al) v);
     hs \<leftarrow> arr_set (dict_hash d) i (dictionary_hash key);
     Some (d\<lparr>dict_key := ks, dict_val := vs, dict_hash := hs, dict_n := dict_n d + 1\<rparr>)
   }"

definition dictionary_set ::
  "dict_alloc \<Rightarrow> dictionary option \<Rightarrow> string option \<Rightarrow> string option \<Rightarrow> (int \<times> dictionary option) option" where
  "dictionary_set al dp keyp v = (case (dp, keyp) of
     (Some d, Some key) \<Rightarrow> do {
       let h = dictionary_hash key;
       i \<leftarrow> (if dict_n d > 0 then find_slot d key h 0 (nat (dict_size d)) else Some (nat (dict_size d)));
       if i < nat (dict_size d) then do {
         vs \<leftarrow> arr_set (dict_val d) i (xstrdup (dup_val al) v);
         Some (0, Some (d\<lparr>dict_val := vs\<rparr>))
       } else do {
         (ok, d) \<leftarrow> (if dict_n d = dict_size d then dict_grow al d else Some (True, d));
         if \<not> ok then Some (-1, Some d)
         else do { d \<leftarrow> dict_insert al d key v; Some (0, Some d) }
       }
     }
   | _ \<Rightarrow> Some (-1, dp))"

definition dictionary_unset :: "dictionary \<Rightarrow> string option \<Rightarrow> dictionary option" where
  "dictionary_unset d keyp = (case keyp of None \<Rightarrow> Some d
   | Some key \<Rightarrow> do {
       i \<leftarrow> find_slot d key (dictionary_hash key) 0 (nat (dict_size d));
       if i \<ge> nat (dict_size d) then Some d
       else do {
         ks \<leftarrow> arr_set (dict_key d) i None;
         vs \<leftarrow> arr_set (dict_val d) i None;
         hs \<leftarrow> arr_set (dict_hash d) i 0;
         Some (d\<lparr>dict_key := ks, dict_val := vs, dict_hash := hs, dict_n := dict_n d - 1\<rparr>)
       }
     })"

text \<open>What \<^verbatim>\<open>dictionary_del\<close> gives to \<^verbatim>\<open>free\<close>, in order.\<close>

datatype dict_block = KeyStr nat | ValStr nat | ValArr | KeyArr | HashArr | DictObj

fun del_slots :: "dictionary \<Rightarrow> nat \<Rightarrow> nat \<Rightarrow> dict_block list option" where
  "del_slots d i 0 = Some []"
| "del_slots d i (Suc m) = do {
     k \<leftarrow> arr_get (dict_key d) i;
     v \<leftarrow> arr_get (dict_val d) i;
     rest \<leftarrow> del_slots d (Suc i) m;
     Some ((if k \<noteq> None then [KeyStr i] else []) @ (if v \<noteq> None then [ValStr i] else []) @ rest)
   }"

definition dictionary_del :: "dictionary option \<Rightarrow> dict_block list option" where
  "dictionary_del dp = (case dp of None \<Rightarrow> Some []
   | Some d \<Rightarrow> do {
       fs \<leftarrow> del_slots d 0 (nat (dict_size d));
       Some (fs @ [ValArr, KeyArr, HashArr, DictObj])
     })"

text \<open>\<^verbatim>\<open>%20s\<close> and the dump.\<close>

definition pad_left :: "nat \<Rightarrow> string \<Rightarrow> string" where
  "pad_left w s = replicate (w - length s) CHR '' '' @ s"

fun dump_slots :: "dictionary \<Rightarrow> nat \<Rightarrow> nat \<Rightarrow> string option" where
  "dump_slots d i 0 = Some []"
| "dump_slots d i (Suc m) = do {
     k \<leftarrow> arr_get (dict_key d) i;
     line \<leftarrow> (case k of None \<Rightarrow> Some []
       | Some k \<Rightarrow> do {
           v \<leftarrow> arr_get (dict_val d) i;
           Some (pad_left 20 k @ [CHR 0x09] @ ''['' @ (case v of Some s \<Rightarrow> s | None \<Rightarrow> ''UNDEF'') @ '']'' @ [CHR 0x0A])
         });
     rest \<leftarrow> dump_slots d (Suc i) m;
     Some (line @ rest)
   }"

definition dictionary_dump :: "dictionary option \<Rightarrow> string option" where
  "dictionary_dump dp = (case dp of None \<Rightarrow> Some []
   | Some d \<Rightarrow> if dict_n d < 1 then Some (''empty dictionary'' @ [CHR 0x0A]) else dump_slots d 0 (nat (dict_size d)))"

section \<open>The invariant and the abstract map\<close>

text \<open>The number of used slots.\<close>

definition used :: "'a option list \<Rightarrow> nat" where
  "used xs = length (filter (\<lambda>x. x \<noteq> None) xs)"

lemma used_update:
  assumes "i < length xs"
  shows "xs ! i = None \<Longrightarrow> used (xs[i := Some x]) = Suc (used xs)"
    and "xs ! i \<noteq> None \<Longrightarrow> used xs = Suc (used (xs[i := None]))"
proof -
  have "used xs = length (filter (\<lambda>x. x \<noteq> None) (take i xs)) + length (filter (\<lambda>x. x \<noteq> None) (xs ! i # drop (Suc i) xs))"
    using arg_cong [OF id_take_nth_drop [OF assms], of used] by (simp only: used_def filter_append length_append)
  then show "xs ! i = None \<Longrightarrow> used (xs[i := Some x]) = Suc (used xs)"
    and "xs ! i \<noteq> None \<Longrightarrow> used xs = Suc (used (xs[i := None]))"
    using assms by (simp_all add: used_def upd_conv_take_nth_drop)
qed

lemma used_simps [simp]: "used (xs @ replicate n None) = used xs" "used (replicate n None) = 0" "used xs \<le> length xs"
  by (simp_all add: used_def filter_replicate)

lemma used_less: "used xs < length xs \<Longrightarrow> None \<in> set xs"
proof (rule ccontr)
  assume less: "used xs < length xs" and "None \<notin> set xs"
  then have "filter (\<lambda>x. x \<noteq> None) xs = xs" by (intro filter_True ballI) metis
  then show False using less by (simp add: used_def)
qed

definition dict_arrays :: "dictionary \<Rightarrow> string option list \<Rightarrow> string option list \<Rightarrow> u32 list \<Rightarrow> bool" where
  "dict_arrays d ks vs hs \<longleftrightarrow> dict_key d = Some ks \<and> dict_val d = Some vs \<and> dict_hash d = Some hs
     \<and> length ks = nat (dict_size d) \<and> length vs = length ks \<and> length hs = length ks \<and> dict_size d > 0
     \<and> dict_n d = int (used ks)
     \<and> (\<forall>i < length ks. \<forall>k. ks ! i = Some k \<longrightarrow> hs ! i = dictionary_hash k)
     \<and> (\<forall>i < length ks. \<forall>j < length ks. ks ! i \<noteq> None \<longrightarrow> ks ! i = ks ! j \<longrightarrow> i = j)
     \<and> (\<forall>i < length ks. ks ! i = None \<longrightarrow> vs ! i = None)"

definition dict_ok :: "dictionary \<Rightarrow> bool" where
  "dict_ok d \<longleftrightarrow> (\<exists>ks vs hs. dict_arrays d ks vs hs)"

definition slot_of :: "string option list \<Rightarrow> string \<Rightarrow> nat option" where
  "slot_of ks k = List.find (\<lambda>i. ks ! i = Some k) [0..<length ks]"

definition dict_map :: "dictionary \<Rightarrow> string \<Rightarrow> string option option" where
  "dict_map d k = (case (dict_key d, dict_val d) of
     (Some ks, Some vs) \<Rightarrow> map_option ((!) vs) (slot_of ks k) | _ \<Rightarrow> None)"

lemma dict_arraysD:
  assumes "dict_arrays d ks vs hs"
  shows "dict_key d = Some ks" "dict_val d = Some vs" "dict_hash d = Some hs"
    "length ks = nat (dict_size d)" "length vs = length ks" "length hs = length ks" "dict_size d > 0"
    "dict_n d = int (used ks)"
    "\<And>i k. i < length ks \<Longrightarrow> ks ! i = Some k \<Longrightarrow> hs ! i = dictionary_hash k"
    "\<And>i j. i < length ks \<Longrightarrow> j < length ks \<Longrightarrow> ks ! i \<noteq> None \<Longrightarrow> ks ! i = ks ! j \<Longrightarrow> i = j"
    "\<And>i. i < length ks \<Longrightarrow> ks ! i = None \<Longrightarrow> vs ! i = None"
  using assms unfolding dict_arrays_def by blast+

lemma dict_okI:
  assumes "dict_key d = Some ks" "dict_val d = Some vs" "dict_hash d = Some hs"
    "length ks = nat (dict_size d)" "length vs = length ks" "length hs = length ks" "dict_size d > 0"
    "dict_n d = int (used ks)"
    "\<And>i k. i < length ks \<Longrightarrow> ks ! i = Some k \<Longrightarrow> hs ! i = dictionary_hash k"
    "\<And>i j. i < length ks \<Longrightarrow> j < length ks \<Longrightarrow> ks ! i \<noteq> None \<Longrightarrow> ks ! i = ks ! j \<Longrightarrow> i = j"
    "\<And>i. i < length ks \<Longrightarrow> ks ! i = None \<Longrightarrow> vs ! i = None"
  shows "dict_ok d"
  unfolding dict_ok_def dict_arrays_def using assms by blast

lemma slot_of_Some: "slot_of ks k = Some i \<Longrightarrow> i < length ks \<and> ks ! i = Some k"
  by (auto simp: slot_of_def find_Some_iff)

lemma slot_of_None: "slot_of ks k = None \<longleftrightarrow> Some k \<notin> set ks"
  by (auto simp: slot_of_def find_None_iff in_set_conv_nth)

lemma slot_of_unique:
  assumes "\<And>i j. i < length ks \<Longrightarrow> j < length ks \<Longrightarrow> ks ! i \<noteq> None \<Longrightarrow> ks ! i = ks ! j \<Longrightarrow> i = j"
    and "i < length ks" and "ks ! i = Some k"
  shows "slot_of ks k = Some i"
proof (cases "slot_of ks k")
  case None
  then have "Some k \<notin> set ks" by (simp add: slot_of_None)
  then show ?thesis using assms(2,3) nth_mem by metis
next
  case (Some j)
  then have "j < length ks" "ks ! j = Some k" using slot_of_Some by auto
  then show ?thesis using assms(1) [of i j] assms(2,3) Some by simp
qed

lemma find_slot_ok:
  assumes "dict_ok d" and "dict_key d = Some ks" and "i + m = length ks"
  shows "find_slot d k (dictionary_hash k) i m =
    Some (case List.find (\<lambda>j. ks ! j = Some k) [i..<length ks] of None \<Rightarrow> length ks | Some j \<Rightarrow> j)"
  using assms(3)
proof (induction m arbitrary: i)
  case (Suc m)
  obtain vs hs where a: "dict_arrays d ks vs hs" using assms(1,2) by (auto simp: dict_ok_def dict_arrays_def)
  note h = dict_arraysD(3,6,9) [OF a]
  have i: "i < length ks" "[i..<length ks] = i # [Suc i..<length ks]" using Suc.prems by (auto simp: upt_conv_Cons)
  show ?case
  proof (cases "ks ! i")
    case None
    then show ?thesis using i assms(2) Suc by simp
  next
    case (Some k')
    then show ?thesis using i assms(2) Suc h(1,2) h(3) [OF i(1) Some] by auto
  qed
qed simp

lemma find_slot_all:
  assumes "dict_ok d" and "dict_key d = Some ks"
  shows "find_slot d k (dictionary_hash k) 0 (nat (dict_size d)) =
    Some (case slot_of ks k of None \<Rightarrow> nat (dict_size d) | Some j \<Rightarrow> j)"
proof -
  have "length ks = nat (dict_size d)" using assms by (auto simp: dict_ok_def dict_arrays_def)
  then show ?thesis using find_slot_ok [OF assms, of 0 "length ks" k] by (simp add: slot_of_def cong: option.case_cong)
qed

lemma free_slot_ok:
  assumes "dict_key d = Some ks" and "i + m = length ks" and "\<exists>j. i \<le> j \<and> j < length ks \<and> ks ! j = None"
  shows "\<exists>j. free_slot d i m = Some j \<and> i \<le> j \<and> j < length ks \<and> ks ! j = None"
  using assms(2,3)
proof (induction m arbitrary: i)
  case (Suc m)
  show ?case
  proof (cases "ks ! i = None")
    case True
    then show ?thesis using Suc.prems assms(1) by auto
  next
    case False
    have "\<exists>j. Suc i \<le> j \<and> j < length ks \<and> ks ! j = None"
      using Suc.prems(2) False by (metis Suc_leI le_neq_implies_less)
    then obtain j where "free_slot d (Suc i) m = Some j" "Suc i \<le> j" "j < length ks" "ks ! j = None"
      using Suc.IH [of "Suc i"] Suc.prems(1) by auto
    then show ?thesis using False Suc.prems(1) assms(1) by auto
  qed
qed auto

section \<open>The operations implement the map\<close>

lemma dictionary_new_ok:
  "\<exists>d. dictionary_new True True True True sz = Some d \<and> dict_ok d \<and> dict_map d = (\<lambda>_. None)"
proof -
  obtain d where d: "dictionary_new True True True True sz = Some d" by (simp add: dictionary_new_def Let_def)
  let ?n = "nat (dict_size d)"
  have "dict_ok d"
    by (rule dict_okI [of _ "replicate ?n None" "replicate ?n None" "replicate ?n 0"])
      (use d in \<open>auto simp: dictionary_new_def calloc_def DICTMINSZ_def split: if_splits\<close>)
  moreover have "dict_map d k = None" for k
    using d by (auto simp: dictionary_new_def calloc_def dict_map_def slot_of_None split: if_splits)
  ultimately show ?thesis using d by auto
qed

lemma dictionary_get_ok:
  assumes "dict_ok d"
  shows "dictionary_get d k def = Some (case dict_map d k of None \<Rightarrow> def | Some v \<Rightarrow> cptr_of v)"
proof -
  obtain ks vs hs where a: "dict_arrays d ks vs hs" using assms by (auto simp: dict_ok_def)
  note d = dict_arraysD(1,2,4,5) [OF a]
  show ?thesis
  proof (cases "slot_of ks k")
    case None
    then show ?thesis using find_slot_all [OF assms d(1), of k] d by (simp add: dictionary_get_def dict_map_def)
  next
    case (Some i)
    then show ?thesis using find_slot_all [OF assms d(1), of k] d slot_of_Some [OF Some]
      by (simp add: dictionary_get_def dict_map_def)
  qed
qed

text \<open>Every allocation succeeds.\<close>

definition mem_ok :: "dict_alloc \<Rightarrow> bool" where
  "mem_ok al \<longleftrightarrow> grow_val al \<and> grow_key al \<and> grow_hash al \<and> dup_key al \<and> dup_val al"

lemma xstrdup_ok [simp]: "xstrdup True s = s"
  by (simp add: xstrdup_def split: option.splits)

lemma dict_grow_ok:
  assumes "dict_ok d" and "mem_ok al"
  shows "\<exists>d'. dict_grow al d = Some (True, d') \<and> dict_ok d' \<and> dict_map d' = dict_map d
    \<and> dict_n d' = dict_n d \<and> dict_size d' = 2 * dict_size d"
proof -
  obtain ks vs hs where a: "dict_arrays d ks vs hs" using assms(1) by (auto simp: dict_ok_def)
  note d = dict_arraysD [OF a]
  let ?n = "length ks"
  let ?ks = "ks @ replicate ?n None" and ?vs = "vs @ replicate ?n None" and ?hs = "hs @ replicate ?n 0"
  let ?d = "d\<lparr>dict_val := Some ?vs, dict_key := Some ?ks, dict_hash := Some ?hs, dict_size := dict_size d * 2\<rparr>"
  have run: "dict_grow al d = Some (True, ?d)"
    using assms(2) d(1-6) by (simp add: dict_grow_def mem_double_def mem_ok_def)
  have k: "?ks ! i = Some k \<longleftrightarrow> i < ?n \<and> ks ! i = Some k" if "i < length ?ks" for i k
    using that by (auto simp: nth_append)
  have u: "i = j" if ij: "i < length ?ks" "j < length ?ks" "?ks ! i \<noteq> None" "?ks ! i = ?ks ! j" for i j
  proof -
    obtain x where "?ks ! i = Some x" "?ks ! j = Some x" using ij(3,4) by auto
    then show ?thesis using k ij(1,2) d(10) [of i j] by auto
  qed
  have "slot_of ?ks x = slot_of ks x" for x
  proof (cases "slot_of ks x")
    case None
    then have "slot_of ?ks x = None" unfolding slot_of_None by auto
    then show ?thesis using None by simp
  next
    case (Some i)
    have "slot_of ?ks x = Some i"
      by (rule slot_of_unique [OF u]) (use slot_of_Some [OF Some] in \<open>auto simp: nth_append\<close>)
    then show ?thesis using Some by simp
  qed
  moreover have "?vs ! i = vs ! i" if "slot_of ks x = Some i" for x i
    using slot_of_Some [OF that] d(5) by (simp add: nth_append)
  ultimately have "map_option ((!) ?vs) (slot_of ?ks x) = map_option ((!) vs) (slot_of ks x)" for x
    by (cases "slot_of ks x") auto
  then have "dict_map ?d = dict_map d" using d(1,2) by (simp add: dict_map_def fun_eq_iff)
  moreover have "dict_ok ?d"
  proof (rule dict_okI [of _ ?ks ?vs ?hs])
    show "?hs ! i = dictionary_hash x" if "i < length ?ks" "?ks ! i = Some x" for i x
      using that k [OF that(1), of x] d(6,9) by (simp add: nth_append)
    show "?vs ! i = None" if "i < length ?ks" "?ks ! i = None" for i
      using that d(5,11) by (simp add: nth_append split: if_splits)
  qed (use d(4-8) in \<open>simp_all add: nat_mult_distrib u\<close>)
  ultimately show ?thesis using run by simp
qed

lemma dict_insert_ok:
  assumes "dict_ok d" and "mem_ok al" and "dict_n d < dict_size d" and new: "dict_map d k = None"
  shows "\<exists>d'. dict_insert al d k v = Some d' \<and> dict_ok d' \<and> dict_map d' = (dict_map d)(k \<mapsto> v)"
proof -
  obtain ks vs hs where a: "dict_arrays d ks vs hs" using assms(1) by (auto simp: dict_ok_def)
  note d = dict_arraysD [OF a]
  have nk: "Some k \<notin> set ks" using new d(1,2) by (simp add: dict_map_def slot_of_None)
  have "None \<in> set ks" by (rule used_less) (use assms(3) d(4,8) in simp)
  then have "\<exists>j. 0 \<le> j \<and> j < length ks \<and> ks ! j = None" by (metis in_set_conv_nth le0)
  then obtain i where i: "free_slot d 0 (length ks) = Some i" "i < length ks" "ks ! i = None"
    using free_slot_ok [OF d(1), of 0 "length ks"] by auto
  let ?ks = "ks[i := Some k]" and ?vs = "vs[i := v]" and ?hs = "hs[i := dictionary_hash k]"
  let ?d = "d\<lparr>dict_key := Some ?ks, dict_val := Some ?vs, dict_hash := Some ?hs, dict_n := dict_n d + 1\<rparr>"
  have run: "dict_insert al d k v = Some ?d"
    using i d(1-6) assms(2) by (simp add: dict_insert_def mem_ok_def)
  have u: "a = b" if ab: "a < length ?ks" "b < length ?ks" "?ks ! a \<noteq> None" "?ks ! a = ?ks ! b" for a b
  proof (rule ccontr)
    assume ne: "a \<noteq> b"
    have "ks ! j \<noteq> Some k" if "j < length ks" for j using nk that nth_mem by metis
    then have "a \<noteq> i \<and> b \<noteq> i" using ne ab i(2) by (auto simp: nth_list_update split: if_splits)
    then show False using ne ab d(10) [of a b] by simp
  qed
  have "dict_ok ?d"
  proof (rule dict_okI [of _ ?ks ?vs ?hs])
    show "?hs ! j = dictionary_hash x" if "j < length ?ks" "?ks ! j = Some x" for j x
      using that d(6,9) i(2) by (cases "j = i") simp_all
    show "?vs ! j = None" if "j < length ?ks" "?ks ! j = None" for j
      using that d(5,11) i(2) by (cases "j = i") simp_all
    show "dict_n ?d = int (used ?ks)"
      using used_update(1) [OF i(2,3), of k] d(8) by simp
  qed (use d(4-7) u in simp_all)
  moreover have "dict_map ?d x = ((dict_map d)(k \<mapsto> v)) x" for x
  proof (cases "x = k")
    case True
    have "slot_of ?ks k = Some i" by (rule slot_of_unique [OF u]) (use i(2) in auto)
    then show ?thesis using True i(2) d(5) by (simp add: dict_map_def)
  next
    case False
    show ?thesis
    proof (cases "slot_of ks x")
      case None
      then have "slot_of ?ks x = None"
        unfolding slot_of_None using False set_update_subset_insert [of ks i "Some k"] by auto
      then show ?thesis using False None d(1,2) by (simp add: dict_map_def)
    next
      case (Some j)
      have j: "j < length ks" "ks ! j = Some x" "j \<noteq> i" using slot_of_Some [OF Some] i(3) by auto
      have "slot_of ?ks x = Some j" by (rule slot_of_unique [OF u]) (use j in auto)
      then show ?thesis using False Some j d(1,2) by (simp add: dict_map_def)
    qed
  qed
  ultimately show ?thesis using run by auto
qed

lemma dictionary_set_ok:
  assumes "dict_ok d" and "mem_ok al"
  shows "\<exists>d'. dictionary_set al (Some d) (Some k) v = Some (0, Some d') \<and> dict_ok d' \<and> dict_map d' = (dict_map d)(k \<mapsto> v)"
proof -
  obtain ks vs hs where a: "dict_arrays d ks vs hs" using assms(1) by (auto simp: dict_ok_def)
  note d = dict_arraysD [OF a]
  have fs: "find_slot d k (dictionary_hash k) 0 (nat (dict_size d)) =
      Some (case slot_of ks k of None \<Rightarrow> nat (dict_size d) | Some j \<Rightarrow> j)"
    by (rule find_slot_all [OF assms(1) d(1)])
  show ?thesis
  proof (cases "slot_of ks k")
    case (Some i)
    have i: "i < length ks" "ks ! i = Some k" using slot_of_Some [OF Some] by auto
    have n: "dict_n d > 0" using used_update(2) [OF i(1)] i(2) d(8) by simp
    let ?d = "d\<lparr>dict_val := Some (vs[i := v])\<rparr>"
    have run: "dictionary_set al (Some d) (Some k) v = Some (0, Some ?d)"
      using n fs Some i d(2,4,5) assms(2) by (simp add: dictionary_set_def mem_ok_def)
    have "dict_ok ?d"
      by (rule dict_okI [of _ ks "vs[i := v]" hs]) (use d i in \<open>auto simp: nth_list_update\<close>)
    moreover have "dict_map ?d x = ((dict_map d)(k \<mapsto> v)) x" for x
    proof (cases "x = k")
      case True
      then show ?thesis using Some i d(1,5) by (simp add: dict_map_def)
    next
      case False
      then have "j \<noteq> i" if "slot_of ks x = Some j" for j using slot_of_Some [OF that] i by auto
      then show ?thesis using False d(1,2) by (cases "slot_of ks x") (simp_all add: dict_map_def)
    qed
    ultimately show ?thesis using run by auto
  next
    case None
    have new: "dict_map d k = None" using None d(1,2) by (simp add: dict_map_def)
    have le: "dict_n d \<le> dict_size d" using d(4,7,8) used_simps(3) [of ks] by linarith
    show ?thesis
    proof (cases "dict_n d = dict_size d")
      case True
      obtain d1 where d1: "dict_grow al d = Some (True, d1)" "dict_ok d1" "dict_map d1 = dict_map d"
        "dict_n d1 < dict_size d1" using dict_grow_ok [OF assms] True d(7) by auto
      then show ?thesis using dict_insert_ok [OF d1(2) assms(2) d1(4), of k v] new True fs None d(7)
        by (auto simp: dictionary_set_def)
    next
      case False
      then have "dict_n d < dict_size d" using le by simp
      from dict_insert_ok [OF assms this new, of v] show ?thesis using False fs None
        by (auto simp: dictionary_set_def)
    qed
  qed
qed

lemma dictionary_unset_ok:
  assumes "dict_ok d"
  shows "\<exists>d'. dictionary_unset d (Some k) = Some d' \<and> dict_ok d' \<and> dict_map d' = (dict_map d)(k := None)"
proof -
  obtain ks vs hs where a: "dict_arrays d ks vs hs" using assms(1) by (auto simp: dict_ok_def)
  note d = dict_arraysD [OF a]
  note fs = find_slot_all [OF assms(1) d(1), of k]
  show ?thesis
  proof (cases "slot_of ks k")
    case None
    then have "dict_map d k = None" using d(1,2) by (simp add: dict_map_def)
    then show ?thesis using None fs assms by (auto simp: dictionary_unset_def)
  next
    case (Some i)
    have i: "i < length ks" "ks ! i = Some k" using slot_of_Some [OF Some] by auto
    let ?ks = "ks[i := None]" and ?vs = "vs[i := None]" and ?hs = "hs[i := 0]"
    let ?d = "d\<lparr>dict_key := Some ?ks, dict_val := Some ?vs, dict_hash := Some ?hs, dict_n := dict_n d - 1\<rparr>"
    have run: "dictionary_unset d (Some k) = Some ?d"
      using fs Some i d(1-6) by (simp add: dictionary_unset_def)
    have u: "a = b" if ab: "a < length ?ks" "b < length ?ks" "?ks ! a \<noteq> None" "?ks ! a = ?ks ! b" for a b
    proof -
      have "a \<noteq> i" "b \<noteq> i" using ab i(1) by auto
      then show ?thesis using ab d(10) [of a b] by simp
    qed
    have "dict_ok ?d"
    proof (rule dict_okI [of _ ?ks ?vs ?hs])
      show "?hs ! j = dictionary_hash x" if "j < length ?ks" "?ks ! j = Some x" for j x
        using that d(6,9) i(1) by (cases "j = i") simp_all
      show "?vs ! j = None" if "j < length ?ks" "?ks ! j = None" for j
        using that d(5,11) i(1) by (cases "j = i") simp_all
      show "dict_n ?d = int (used ?ks)"
        using used_update(2) [OF i(1)] i(2) d(8) by simp
    qed (use d(4-7) u in simp_all)
    moreover have "dict_map ?d x = ((dict_map d)(k := None)) x" for x
    proof (cases "x = k")
      case True
      have "Some k \<notin> set ?ks"
      proof
        assume "Some k \<in> set ?ks"
        then obtain j where "j < length ks" "?ks ! j = Some k" by (auto simp: in_set_conv_nth)
        then show False using d(10) [of j i] i by (cases "j = i") simp_all
      qed
      then have "slot_of ?ks k = None" by (simp add: slot_of_None)
      then show ?thesis using True by (simp add: dict_map_def)
    next
      case False
      show ?thesis
      proof (cases "slot_of ks x")
        case None
        then have "slot_of ?ks x = None"
          unfolding slot_of_None using set_update_subset_insert [of ks i None] by auto
        then show ?thesis using False None d(1,2) by (simp add: dict_map_def)
      next
        case (Some j)
        have j: "j < length ks" "ks ! j = Some x" "j \<noteq> i" using slot_of_Some [OF Some] i(2) False by auto
        have "slot_of ?ks x = Some j" by (rule slot_of_unique [OF u]) (use j in auto)
        then show ?thesis using False Some j d(1,2) by (simp add: dict_map_def)
      qed
    qed
    ultimately show ?thesis using run by auto
  qed
qed

section \<open>The interface of a string map\<close>

text \<open>Storing a list of pairs, one after the other.\<close>

fun put_all :: "('d \<Rightarrow> string \<Rightarrow> string option \<Rightarrow> 'd option) \<Rightarrow> (string \<times> string option) list \<Rightarrow> 'd \<Rightarrow> 'd option" where
  "put_all put [] d = Some d"
| "put_all put ((k, v) # kvs) d = do { d' \<leftarrow> put d k v; put_all put kvs d' }"

locale string_map =
  fixes ok :: "'d \<Rightarrow> bool" and look :: "'d \<Rightarrow> string \<Rightarrow> string option option"
    and get :: "'d \<Rightarrow> string \<Rightarrow> cptr \<Rightarrow> cptr option"
    and put :: "'d \<Rightarrow> string \<Rightarrow> string option \<Rightarrow> 'd option" and del :: "'d \<Rightarrow> string \<Rightarrow> 'd option"
  assumes get_look: "ok d \<Longrightarrow> get d k def = Some (case look d k of None \<Rightarrow> def | Some v \<Rightarrow> cptr_of v)"
    and put_look: "ok d \<Longrightarrow> \<exists>d'. put d k v = Some d' \<and> ok d' \<and> look d' = (look d)(k \<mapsto> v)"
    and del_look: "ok d \<Longrightarrow> \<exists>d'. del d k = Some d' \<and> ok d' \<and> look d' = (look d)(k := None)"
begin

lemma put_all_look:
  "ok d \<Longrightarrow> \<exists>d'. put_all put kvs d = Some d' \<and> ok d' \<and> look d' = look d ++ map_of (rev kvs)"
proof (induction kvs arbitrary: d)
  case (Cons kv kvs)
  obtain k v where kv: "kv = (k, v)" by (cases kv)
  obtain d1 where d1: "put d k v = Some d1" "ok d1" "look d1 = (look d)(k \<mapsto> v)"
    using put_look [OF Cons.prems] by blast
  obtain d2 where "put_all put kvs d1 = Some d2" "ok d2" "look d2 = look d1 ++ map_of (rev kvs)"
    using Cons.IH [OF d1(2)] by blast
  moreover have "look d1 ++ map_of (rev kvs) = look d ++ map_of (rev (kv # kvs))"
    unfolding d1(3) kv by (simp add: map_add_assoc [symmetric] map_add_upd_left [symmetric])
  ultimately show ?case using kv d1(1) by simp
qed simp

lemma get_put: "ok d \<Longrightarrow> \<exists>d'. put d k v = Some d' \<and> get d' k def = Some (cptr_of v)
    \<and> (\<forall>k'. k' \<noteq> k \<longrightarrow> get d' k' def = get d k' def)"
  using put_look [of d k v] get_look by fastforce

lemma get_del: "ok d \<Longrightarrow> \<exists>d'. del d k = Some d' \<and> get d' k def = Some def
    \<and> (\<forall>k'. k' \<noteq> k \<longrightarrow> get d' k' def = get d k' def)"
  using del_look [of d k] get_look by fastforce

end

text \<open>\<^verbatim>\<open>dictionary_set\<close> with memory, and \<^verbatim>\<open>dictionary_unset\<close>, as operations of this interface.\<close>

definition mem_all :: dict_alloc where
  "mem_all = \<lparr>grow_val = True, grow_key = True, grow_hash = True, dup_key = True, dup_val = True\<rparr>"

lemma mem_all_ok [simp]: "mem_ok mem_all"
  by (simp add: mem_ok_def mem_all_def)

definition dict_put :: "dict_alloc \<Rightarrow> dictionary \<Rightarrow> string \<Rightarrow> string option \<Rightarrow> dictionary option" where
  "dict_put al d k v = (case dictionary_set al (Some d) (Some k) v of
     Some (rc, d') \<Rightarrow> if rc = 0 then d' else None | None \<Rightarrow> None)"

interpretation dict: string_map dict_ok dict_map dictionary_get "dict_put mem_all" "\<lambda>d k. dictionary_unset d (Some k)"
proof
  show "dict_ok d \<Longrightarrow> dictionary_get d k def = Some (case dict_map d k of None \<Rightarrow> def | Some v \<Rightarrow> cptr_of v)" for d k def
    by (rule dictionary_get_ok)
  show "dict_ok d \<Longrightarrow> \<exists>d'. dict_put mem_all d k v = Some d' \<and> dict_ok d' \<and> dict_map d' = (dict_map d)(k \<mapsto> v)" for d k v
    using dictionary_set_ok [of d mem_all k v] by (auto simp: dict_put_def)
  show "dict_ok d \<Longrightarrow> \<exists>d'. dictionary_unset d (Some k) = Some d' \<and> dict_ok d' \<and> dict_map d' = (dict_map d)(k := None)" for d k
    by (rule dictionary_unset_ok)
qed

section \<open>Properties\<close>



text \<open>The blocks that a slot gives to \<^verbatim>\<open>free\<close>.\<close>

lemma del_slots_ok:
  assumes "dict_arrays d ks vs hs" and "i + m = length ks"
  shows "\<exists>fs. del_slots d i m = Some fs \<and> distinct fs
    \<and> set fs = KeyStr ` {j. i \<le> j \<and> j < length ks \<and> ks ! j \<noteq> None} \<union> ValStr ` {j. i \<le> j \<and> j < length ks \<and> vs ! j \<noteq> None}"
  using assms(2)
proof (induction m arbitrary: i)
  case (Suc m)
  note d = dict_arraysD [OF assms(1)]
  obtain fs where fs: "del_slots d (Suc i) m = Some fs" "distinct fs"
    "set fs = KeyStr ` {j. Suc i \<le> j \<and> j < length ks \<and> ks ! j \<noteq> None} \<union> ValStr ` {j. Suc i \<le> j \<and> j < length ks \<and> vs ! j \<noteq> None}"
    using Suc.IH [of "Suc i"] Suc.prems by auto
  have i: "i < length ks" using Suc.prems by simp
  let ?fs = "(if ks ! i \<noteq> None then [KeyStr i] else []) @ (if vs ! i \<noteq> None then [ValStr i] else []) @ fs"
  have "del_slots d i (Suc m) = Some ?fs" using d(1,2,5) i fs(1) by simp
  moreover have "distinct ?fs" using fs(2,3) by auto
  moreover have sp: "{j. i \<le> j \<and> j < length ks \<and> xs ! j \<noteq> None} =
      (if xs ! i \<noteq> None then {i} else {}) \<union> {j. Suc i \<le> j \<and> j < length ks \<and> xs ! j \<noteq> None}" for xs :: "string option list"
    using i by (auto simp: Suc_le_eq le_less)
  then have "set ?fs = KeyStr ` {j. i \<le> j \<and> j < length ks \<and> ks ! j \<noteq> None} \<union> ValStr ` {j. i \<le> j \<and> j < length ks \<and> vs ! j \<noteq> None}"
    unfolding sp [of ks] sp [of vs] using fs(3) by (auto split: if_splits)
  ultimately show ?case by blast
qed simp

text \<open>C28:
  \<^verbatim>\<open>dictionary_del\<close> of a well-formed dictionary frees every block of it exactly once: the
  stored keys and values, the three arrays and the dictionary itself.
\<close>

theorem dictionary_del_frees_once:
  assumes "dict_ok d"
  shows "\<exists>fs ks vs. dictionary_del (Some d) = Some fs \<and> distinct fs \<and> dict_key d = Some ks \<and> dict_val d = Some vs
    \<and> set fs = KeyStr ` {j. j < length ks \<and> ks ! j \<noteq> None} \<union> ValStr ` {j. j < length ks \<and> vs ! j \<noteq> None}
        \<union> {ValArr, KeyArr, HashArr, DictObj}"
proof -
  obtain ks vs hs where a: "dict_arrays d ks vs hs" using assms by (auto simp: dict_ok_def)
  note d = dict_arraysD(1,2,4) [OF a]
  obtain fs where fs: "del_slots d 0 (nat (dict_size d)) = Some fs" "distinct fs"
    "set fs = KeyStr ` {j. j < length ks \<and> ks ! j \<noteq> None} \<union> ValStr ` {j. j < length ks \<and> vs ! j \<noteq> None}"
    using del_slots_ok [OF a, of 0 "length ks"] d(3) by auto
  let ?fs = "fs @ [ValArr, KeyArr, HashArr, DictObj]"
  have "dictionary_del (Some d) = Some ?fs" using fs(1) by (simp add: dictionary_del_def)
  moreover have "distinct ?fs" using fs(2,3) by auto
  moreover have "set ?fs = KeyStr ` {j. j < length ks \<and> ks ! j \<noteq> None} \<union> ValStr ` {j. j < length ks \<and> vs ! j \<noteq> None}
        \<union> {ValArr, KeyArr, HashArr, DictObj}" using fs(3) by simp
  ultimately show ?thesis using d(1,2) by blast
qed

theorem dictionary_del_frees_once_witness:
  "\<exists>d fs. dictionary_new True True True True 0 = Some d \<and> dictionary_del (Some d) = Some fs \<and> distinct fs"
proof -
  obtain d where "dictionary_new True True True True 0 = Some d" "dict_ok d" using dictionary_new_ok [of 0] by blast
  then show ?thesis using dictionary_del_frees_once [of d] by blast
qed

text \<open>C30:
  When the dictionary is full and one of the arrays cannot grow, \<^verbatim>\<open>dictionary_set\<close> returns -1 but
  leaves a null pointer in the dictionary, and the \<^verbatim>\<open>dictionary_del\<close> that the parser calls
  next dereferences it when the key array is the one.
\<close>

theorem failed_growth_breaks_del:
  assumes d: "dict_ok d" and full: "dict_n d = dict_size d" and new: "dict_map d k = None" and al: "\<not> grow_key al"
  shows "\<exists>d'. dictionary_set al (Some d) (Some k) v = Some (-1, Some d') \<and> dictionary_del (Some d') = None"
proof -
  obtain ks vs hs where a: "dict_arrays d ks vs hs" using d by (auto simp: dict_ok_def)
  note d' = dict_arraysD(1-7) [OF a]
  have "slot_of ks k = None" using new d'(1,2) by (simp add: dict_map_def)
  then have fs: "find_slot d k (dictionary_hash k) 0 (nat (dict_size d)) = Some (nat (dict_size d))"
    using find_slot_all [OF d d'(1), of k] by simp
  obtain m where m: "nat (dict_size d) = Suc m" using d'(7) by (metis gr0_implies_Suc zero_less_nat_eq)
  obtain v' h' where "mem_double (grow_val al) None (dict_val d) (nat (dict_size d)) = Some v'"
    "mem_double (grow_hash al) 0 (dict_hash d) (nat (dict_size d)) = Some h'"
    using d'(2-6) by (cases "grow_val al"; cases "grow_hash al") (auto simp: mem_double_def)
  moreover have "mem_double (grow_key al) None (dict_key d) (nat (dict_size d)) = Some None"
    using al by (simp add: mem_double_def)
  ultimately have "dict_grow al d = Some (False, d\<lparr>dict_val := v', dict_key := None, dict_hash := h'\<rparr>)"
    by (simp add: dict_grow_def)
  then have "dictionary_set al (Some d) (Some k) v = Some (-1, Some (d\<lparr>dict_val := v', dict_key := None, dict_hash := h'\<rparr>))"
    using full fs d'(7) by (simp add: dictionary_set_def)
  moreover have "dictionary_del (Some (d\<lparr>dict_val := v', dict_key := None, dict_hash := h'\<rparr>)) = None"
    using m by (simp add: dictionary_del_def arr_get_def)
  ultimately show ?thesis by blast
qed

text \<open>A full dictionary of one slot.\<close>

definition ex_dict :: dictionary where
  "ex_dict = \<lparr>dict_n = 1, dict_size = 1, dict_val = Some [None], dict_key = Some [Some ''a''],
     dict_hash = Some [dictionary_hash ''a'']\<rparr>"

theorem failed_growth_breaks_del_witness:
  "\<exists>d'. dictionary_set (mem_all\<lparr>grow_key := False\<rparr>) (Some ex_dict) (Some ''b'') None = Some (-1, Some d')
     \<and> dictionary_del (Some d') = None"
proof -
  have "dict_ok ex_dict"
    by (rule dict_okI [of _ "[Some ''a'']" "[None]" "[dictionary_hash ''a'']"]) (auto simp: ex_dict_def used_def)
  moreover have "dict_map ex_dict ''b'' = None" by (simp add: ex_dict_def dict_map_def slot_of_None)
  ultimately show ?thesis using failed_growth_breaks_del [of ex_dict "''b''" "mem_all\<lparr>grow_key := False\<rparr>" None]
    by (simp add: ex_dict_def)
qed

end
