(* ===== verification/Iniparser.thy ===== *)
theory Iniparser
  imports Dictionary
begin

text \<open>
  The INI parser of \<^verbatim>\<open>confparser/iniparser.c\<close>: reading files and memory into a dictionary,
  typed access to the entries, and writing a dictionary back.  A local \<^verbatim>\<open>char\<close> array is the C
  string in it; a write past its \<^verbatim>\<open>ASCIILINESZ+1\<close> bytes has no result.  The byte before the
  line buffer, which the code reads for an empty line, is the parameter \<open>ub\<close>.
\<close>

definition ASCIILINESZ :: nat where "ASCIILINESZ = 1024"

datatype line_status = LINE_UNPROCESSED | LINE_ERROR | LINE_EMPTY | LINE_COMMENT | LINE_SECTION | LINE_VALUE

abbreviation NL :: char where "NL \<equiv> CHR 0x0A"
abbreviation CR :: char where "CR \<equiv> CHR 0x0D"
abbreviation BACKSLASH :: char where "BACKSLASH \<equiv> CHR 0x5C"
abbreviation DQUOTE :: char where "DQUOTE \<equiv> CHR 0x22"
abbreviation SQUOTE :: char where "SQUOTE \<equiv> CHR 0x27"

section \<open>The C library\<close>

text \<open>\<^verbatim>\<open>isspace\<close> and \<^verbatim>\<open>tolower\<close> of the C locale.\<close>

definition isspace :: "char \<Rightarrow> bool" where
  "isspace c \<longleftrightarrow> c \<in> {CHR '' '', CHR 0x09, NL, CHR 0x0B, CHR 0x0C, CR}"

definition tolower :: "char \<Rightarrow> char" where
  "tolower c = (let n = of_char c :: nat in if 65 \<le> n \<and> n \<le> 90 then char_of (n + 32) else c)"

text \<open>The directives of the \<^verbatim>\<open>sscanf\<close> formats and the list of conversions they make.\<close>

datatype directive = Lit char | Ws | Conv "char \<Rightarrow> bool"

fun sscanf :: "directive list \<Rightarrow> string \<Rightarrow> string list" where
  "sscanf [] s = []"
| "sscanf (Ws # ds) s = sscanf ds (dropWhile isspace s)"
| "sscanf (Lit c # ds) s = (case s of [] \<Rightarrow> [] | x # r \<Rightarrow> if x = c then sscanf ds r else [])"
| "sscanf (Conv P # ds) s = (let t = takeWhile P s in if t = [] then [] else t # sscanf ds (dropWhile P s))"

text \<open>The output arguments of a \<^verbatim>\<open>sscanf\<close> with two conversions.\<close>

fun assign :: "string list \<Rightarrow> string \<times> string \<Rightarrow> string \<times> string" where
  "assign [] kv = kv"
| "assign [k] kv = (k, snd kv)"
| "assign (k # v # _) kv = (k, v)"

text \<open>\<^verbatim>\<open>fgets\<close> with a limit of \<open>n\<close> bytes; \<^const>\<open>None\<close> at the end of the file.\<close>

definition fgets :: "nat \<Rightarrow> string \<Rightarrow> (string \<times> string) option" where
  "fgets n s = (if s = [] then None
     else let t = takeWhile (\<lambda>c. c \<noteq> NL) s;
              k = min (n - 1) (if length t < length s then Suc (length t) else length t)
          in Some (take k s, drop k s))"

lemma fgets_rest: "fgets n s = Some (chunk, rest) \<Longrightarrow> \<not> n < 2 \<Longrightarrow> length rest < length s"
  using length_takeWhile_le [of "\<lambda>c. c \<noteq> NL" s] by (auto simp: fgets_def Let_def min_def split: if_splits)

text \<open>\<^verbatim>\<open>strtol\<close> with base 0 and 64-bit \<^verbatim>\<open>long\<close>.\<close>

definition digit_val :: "char \<Rightarrow> nat" where
  "digit_val c = (let n = of_char c :: nat in
     if 48 \<le> n \<and> n \<le> 57 then n - 48
     else if 97 \<le> n \<and> n \<le> 122 then n - 87
     else if 65 \<le> n \<and> n \<le> 90 then n - 55 else 36)"

definition number :: "nat \<Rightarrow> string \<Rightarrow> nat" where
  "number b s = foldl (\<lambda>v c. v * b + digit_val c) 0 (takeWhile (\<lambda>c. digit_val c < b) s)"

definition unsigned_value :: "string \<Rightarrow> nat" where
  "unsigned_value s = (case s of
     CHR ''0'' # x # c # r \<Rightarrow> if (x = CHR ''x'' \<or> x = CHR ''X'') \<and> digit_val c < 16 then number 16 (c # r) else number 8 s
   | CHR ''0'' # r \<Rightarrow> number 8 s
   | _ \<Rightarrow> number 10 s)"

definition strtol :: "string \<Rightarrow> int" where
  "strtol s = (let s = dropWhile isspace s;
     v = (case s of [] \<Rightarrow> 0
        | c # r \<Rightarrow> if c = CHR ''-'' then - int (unsigned_value r)
                   else if c = CHR ''+'' then int (unsigned_value r) else int (unsigned_value s))
     in max (- (2 ^ 63)) (min (2 ^ 63 - 1) v))"

section \<open>String helpers\<close>

definition strlwc :: "string option \<Rightarrow> string option" where
  "strlwc s = (case s of None \<Rightarrow> None | Some s \<Rightarrow> Some (map tolower (take ASCIILINESZ s)))"

definition rstrip :: "string \<Rightarrow> string" where
  "rstrip s = rev (dropWhile isspace (rev s))"

text \<open>The copy into the buffer of \<^verbatim>\<open>strstrip\<close> happens before the end is stripped.\<close>

definition strstrip :: "string option \<Rightarrow> string option option" where
  "strstrip s = (case s of None \<Rightarrow> Some None
   | Some s \<Rightarrow> (let t = dropWhile isspace s in
       if length t \<le> ASCIILINESZ then Some (Some (rstrip t)) else None))"

section \<open>Sections\<close>

fun count_sections :: "dictionary \<Rightarrow> nat \<Rightarrow> nat \<Rightarrow> int option" where
  "count_sections d i 0 = Some 0"
| "count_sections d i (Suc m) = do {
     k \<leftarrow> arr_get (dict_key d) i;
     c \<leftarrow> count_sections d (Suc i) m;
     Some ((case k of None \<Rightarrow> 0 | Some k \<Rightarrow> if CHR '':'' \<in> set k then 0 else 1) + c)
   }"

definition iniparser_getnsec :: "dictionary option \<Rightarrow> int option" where
  "iniparser_getnsec dp = (case dp of None \<Rightarrow> Some (-1) | Some d \<Rightarrow> count_sections d 0 (nat (dict_size d)))"

text \<open>The loop of \<^verbatim>\<open>iniparser_getsecname\<close>: the number of sections found and the slot at its exit.\<close>

fun find_section :: "dictionary \<Rightarrow> int \<Rightarrow> int \<Rightarrow> nat \<Rightarrow> nat \<Rightarrow> (int \<times> nat) option" where
  "find_section d n found i 0 = Some (found, i)"
| "find_section d n found i (Suc m) = do {
     k \<leftarrow> arr_get (dict_key d) i;
     (case k of None \<Rightarrow> find_section d n found (Suc i) m
      | Some k \<Rightarrow> if CHR '':'' \<in> set k then find_section d n found (Suc i) m
                  else if found + 1 > n then Some (found + 1, i) else find_section d n (found + 1) (Suc i) m)
   }"

definition iniparser_getsecname :: "dictionary option \<Rightarrow> int \<Rightarrow> string option option" where
  "iniparser_getsecname dp n = (case dp of None \<Rightarrow> Some None
   | Some d \<Rightarrow> if n < 0 then Some None
     else do {
       (found, i) \<leftarrow> find_section d n 0 0 (nat (dict_size d));
       if found \<le> n then Some None else arr_get (dict_key d) i
     })"

section \<open>Output\<close>

fun dump_loop :: "(string \<Rightarrow> string option \<Rightarrow> string option) \<Rightarrow> dictionary \<Rightarrow> nat \<Rightarrow> nat \<Rightarrow> string option" where
  "dump_loop f d i 0 = Some []"
| "dump_loop f d i (Suc m) = do {
     k \<leftarrow> arr_get (dict_key d) i;
     line \<leftarrow> (case k of None \<Rightarrow> Some [] | Some k \<Rightarrow> do { v \<leftarrow> arr_get (dict_val d) i; f k v });
     rest \<leftarrow> dump_loop f d (Suc i) m;
     Some (line @ rest)
   }"

definition iniparser_dump :: "dictionary option \<Rightarrow> string option" where
  "iniparser_dump dp = (case dp of None \<Rightarrow> Some []
   | Some d \<Rightarrow> dump_loop (\<lambda>k v. Some (case v of
       Some v \<Rightarrow> ''['' @ k @ '']=['' @ v @ '']'' @ [NL]
     | None \<Rightarrow> ''['' @ k @ '']=UNDEF'' @ [NL])) d 0 (nat (dict_size d)))"

definition pad_right :: "nat \<Rightarrow> string \<Rightarrow> string" where
  "pad_right w s = s @ replicate (w - length s) CHR '' ''"

text \<open>One section of \<^verbatim>\<open>iniparser_dump_ini\<close>: its header and the entries with its prefix.\<close>

definition dump_entry :: "string \<Rightarrow> string \<Rightarrow> string option \<Rightarrow> string" where
  "dump_entry sec k v = (if take (length sec + 1) k = sec @ '':''
     then pad_right 30 (drop (length sec + 1) k) @ '' = '' @ (case v of Some v \<Rightarrow> v | None \<Rightarrow> []) @ [NL] else [])"

definition dump_section :: "dictionary \<Rightarrow> string \<Rightarrow> string option" where
  "dump_section d sec = (if length sec + 2 > ASCIILINESZ + 1 then None else do {
     body \<leftarrow> dump_loop (\<lambda>k v. Some (dump_entry sec k v)) d 0 (nat (dict_size d));
     Some ([NL] @ ''['' @ sec @ '']'' @ [NL] @ body)
   })"

fun dump_sections :: "dictionary \<Rightarrow> nat \<Rightarrow> nat \<Rightarrow> string option" where
  "dump_sections d i 0 = Some []"
| "dump_sections d i (Suc m) = do {
     secp \<leftarrow> iniparser_getsecname (Some d) (int i);
     sec \<leftarrow> secp;
     s \<leftarrow> dump_section d sec;
     rest \<leftarrow> dump_sections d (Suc i) m;
     Some (s @ rest)
   }"

definition iniparser_dump_ini :: "dictionary option \<Rightarrow> string option" where
  "iniparser_dump_ini dp = (case dp of None \<Rightarrow> Some []
   | Some d \<Rightarrow> do {
       nsec \<leftarrow> iniparser_getnsec (Some d);
       if nsec < 1 then dump_loop (\<lambda>k v. map_option (\<lambda>v. k @ '' = '' @ v @ [NL]) v) d 0 (nat (dict_size d))
       else do { s \<leftarrow> dump_sections d 0 (nat nsec); Some (s @ [NL]) }
     })"

section \<open>Access\<close>

definition iniparser_getstring :: "dictionary option \<Rightarrow> string option \<Rightarrow> cptr \<Rightarrow> cptr option" where
  "iniparser_getstring dp keyp def = (case (dp, strlwc keyp) of
     (Some d, Some key) \<Rightarrow> dictionary_get d key def | _ \<Rightarrow> Some def)"

definition iniparser_getint :: "dictionary option \<Rightarrow> string option \<Rightarrow> int \<Rightarrow> int option" where
  "iniparser_getint dp keyp notfound = do {
     str \<leftarrow> iniparser_getstring dp keyp INVALID_KEY;
     (case str of INVALID_KEY \<Rightarrow> Some notfound | NULLP \<Rightarrow> None | Str s \<Rightarrow> Some (to_int32 (strtol s)))
   }"

text \<open>\<open>atof\<close> is the conversion of the C library.\<close>

definition iniparser_getdouble :: "(string \<Rightarrow> 'f) \<Rightarrow> dictionary option \<Rightarrow> string option \<Rightarrow> 'f \<Rightarrow> 'f option" where
  "iniparser_getdouble atof dp keyp notfound = do {
     str \<leftarrow> iniparser_getstring dp keyp INVALID_KEY;
     (case str of INVALID_KEY \<Rightarrow> Some notfound | NULLP \<Rightarrow> None | Str s \<Rightarrow> Some (atof s))
   }"

definition first_char :: "string \<Rightarrow> char" where
  "first_char s = (case s of [] \<Rightarrow> NUL | c # _ \<Rightarrow> c)"

definition iniparser_getboolean :: "dictionary option \<Rightarrow> string option \<Rightarrow> int \<Rightarrow> int option" where
  "iniparser_getboolean dp keyp notfound = do {
     str \<leftarrow> iniparser_getstring dp keyp INVALID_KEY;
     (case str of INVALID_KEY \<Rightarrow> Some notfound | NULLP \<Rightarrow> None
      | Str s \<Rightarrow> Some (if first_char s \<in> set ''yY1tT'' then 1
                       else if first_char s \<in> set ''nN0fF'' then 0 else notfound))
   }"

definition iniparser_find_entry :: "dictionary option \<Rightarrow> string option \<Rightarrow> int option" where
  "iniparser_find_entry dp entry = do {
     str \<leftarrow> iniparser_getstring dp entry INVALID_KEY;
     Some (if str \<noteq> INVALID_KEY then 1 else 0)
   }"

definition iniparser_set ::
  "dict_alloc \<Rightarrow> dictionary option \<Rightarrow> string option \<Rightarrow> string option \<Rightarrow> (int \<times> dictionary option) option" where
  "iniparser_set al dp entry v = dictionary_set al dp (strlwc entry) v"

definition iniparser_unset :: "dictionary \<Rightarrow> string option \<Rightarrow> dictionary option" where
  "iniparser_unset d entry = dictionary_unset d (strlwc entry)"

definition iniparser_freedict :: "dictionary option \<Rightarrow> dict_block list option" where
  "iniparser_freedict dp = dictionary_del dp"

section \<open>One line\<close>

definition fmt_section :: "directive list" where
  "fmt_section = [Lit CHR ''['', Conv (\<lambda>c. c \<noteq> CHR '']'')]"

definition fmt_value :: "directive list \<Rightarrow> directive list" where
  "fmt_value rest = [Conv (\<lambda>c. c \<noteq> CHR ''=''), Ws, Lit CHR ''='', Ws] @ rest"

definition fmt_quoted :: "char \<Rightarrow> directive list" where
  "fmt_quoted q = fmt_value [Lit q, Conv (\<lambda>c. c \<noteq> q), Lit q]"

definition fmt_plain :: "directive list" where
  "fmt_plain = fmt_value [Conv (\<lambda>c. c \<noteq> CHR '';'' \<and> c \<noteq> CHR ''#'')]"

definition fmt_comment :: "directive list" where
  "fmt_comment = fmt_value [Conv (\<lambda>c. c = CHR '';'' \<or> c = CHR ''#'')]"

definition fmt_nothing :: "directive list" where
  "fmt_nothing = [Conv (\<lambda>c. c \<noteq> CHR ''=''), Ws, Conv (\<lambda>c. c = CHR ''='')]"

text \<open>
  \<^verbatim>\<open>sscanf(...) == 2 || ...\<close>: the formats are tried in order, each writes its conversions;
  the result says whether one made two conversions.
\<close>

fun try_formats :: "directive list list \<Rightarrow> string \<Rightarrow> string \<times> string \<Rightarrow> bool \<times> string \<times> string" where
  "try_formats [] line kv = (False, kv)"
| "try_formats (f # fs) line kv = (let r = sscanf f line; kv' = assign r kv in
     if length r = 2 then (True, kv') else try_formats fs line kv')"

text \<open>Strip and lower a name, as done for sections and keys.\<close>

definition clean_name :: "string \<Rightarrow> string option" where
  "clean_name s = do { t \<leftarrow> strstrip (Some s); strlwc t }"

definition iniparser_line ::
  "string \<Rightarrow> string \<Rightarrow> string \<Rightarrow> string \<Rightarrow> (line_status \<times> string \<times> string \<times> string) option" where
  "iniparser_line input_line sec key val = do {
     linep \<leftarrow> strstrip (Some input_line);
     line \<leftarrow> linep;
     if line = [] then Some (LINE_EMPTY, sec, key, val)
     else if hd line = CHR ''#'' then Some (LINE_COMMENT, sec, key, val)
     else if hd line = CHR ''['' \<and> last line = CHR '']'' then do {
       let sec = (case sscanf fmt_section line of [] \<Rightarrow> sec | s # _ \<Rightarrow> s);
       sec \<leftarrow> clean_name sec;
       Some (LINE_SECTION, sec, key, val)
     }
     else (let (ok, key, val) = try_formats [fmt_quoted DQUOTE, fmt_quoted SQUOTE, fmt_plain] line (key, val) in
       if ok then do {
         key \<leftarrow> clean_name key;
         valp \<leftarrow> strstrip (Some val);
         val \<leftarrow> valp;
         Some (LINE_VALUE, sec, key, if val = [DQUOTE, DQUOTE] \<or> val = [SQUOTE, SQUOTE] then [] else val)
       }
       else (let (ok, key, val) = try_formats [fmt_comment, fmt_nothing] line (key, val) in
         if ok then do { key \<leftarrow> clean_name key; Some (LINE_VALUE, sec, key, []) }
         else Some (LINE_ERROR, sec, key, val)))
   }"

section \<open>Loading\<close>

text \<open>What the \<^verbatim>\<open>switch\<close> does with a line: the new \<open>errs\<close> and dictionary.\<close>

definition store_line ::
  "dict_alloc \<Rightarrow> line_status \<Rightarrow> string \<Rightarrow> string \<Rightarrow> string \<Rightarrow> int \<Rightarrow> dictionary option \<Rightarrow> (int \<times> dictionary option) option" where
  "store_line al sta sec key val errs d = (case sta of
     LINE_SECTION \<Rightarrow> dictionary_set al d (Some sec) None
   | LINE_VALUE \<Rightarrow> (let tmp = sec @ '':'' @ key in
       if length tmp \<le> ASCIILINESZ then dictionary_set al d (Some tmp) (Some val) else None)
   | LINE_ERROR \<Rightarrow> Some (errs + 1, d)
   | _ \<Rightarrow> Some (errs, d))"

text \<open>
  The loop of \<^verbatim>\<open>iniparser_load\<close>.  \<open>pre\<close> is the part of a continued line before its
  backslash, \<open>al\<close> the allocations for each line number.  The inner \<^const>\<open>None\<close> is the early
  return for a line that is too long; with less than two bytes of room \<^verbatim>\<open>fgets\<close> stores no
  byte, so that the line has no newline.
\<close>

function load_loop ::
  "(nat \<Rightarrow> dict_alloc) \<Rightarrow> char \<Rightarrow> nat \<Rightarrow> string \<Rightarrow> string \<times> string \<times> string \<Rightarrow> int \<Rightarrow> dictionary option \<Rightarrow> string \<Rightarrow>
     (int \<times> dictionary option) option option" where
  "load_loop al ub lineno pre skv errs d input =
     (if input = [] then Some (Some (errs, d))
      else if ASCIILINESZ - length pre < 2 then do { _ \<leftarrow> dictionary_del d; Some None }
      else do {
        (chunk, rest) \<leftarrow> fgets (ASCIILINESZ - length pre) input;
        let line = pre @ cstr chunk;
        if (if line = [] then ub else last line) \<noteq> NL then do { _ \<leftarrow> dictionary_del d; Some None }
        else do {
          let line = rstrip line;
          if (if line = [] then ub else last line) = BACKSLASH then
            (if line = [] then None else load_loop al ub (lineno + 1) (butlast line) skv errs d rest)
          else do {
            (sta, skv) \<leftarrow> iniparser_line line (fst skv) (fst (snd skv)) (snd (snd skv));
            (errs, d) \<leftarrow> store_line (al lineno) sta (fst skv) (fst (snd skv)) (snd (snd skv)) errs d;
            if errs < 0 then Some (Some (errs, d)) else load_loop al ub (lineno + 1) [] skv errs d rest
          }
        }
      })"
  by pat_completeness auto
termination
  by (relation "measure (\<lambda>(al, ub, lineno, pre, skv, errs, d, input). length input)")
    (auto dest: fgets_rest)

declare load_loop.simps [simp del]

text \<open>The end of both load functions.\<close>

definition load_result :: "int \<Rightarrow> dictionary option \<Rightarrow> dictionary option option" where
  "load_result errs d = (if errs \<noteq> 0 then do { _ \<leftarrow> dictionary_del d; Some None } else Some d)"

definition iniparser_load ::
  "bool \<times> bool \<times> bool \<times> bool \<Rightarrow> (nat \<Rightarrow> dict_alloc) \<Rightarrow> char \<Rightarrow> string option \<Rightarrow> dictionary option option" where
  "iniparser_load mem al ub file = (case file of None \<Rightarrow> Some None
   | Some input \<Rightarrow> (case dictionary_new (fst mem) (fst (snd mem)) (fst (snd (snd mem))) (snd (snd (snd mem))) 0 of
       None \<Rightarrow> Some None
     | Some d \<Rightarrow> do {
         r \<leftarrow> load_loop al ub 0 [] ([], [], []) 0 (Some d) input;
         (case r of None \<Rightarrow> Some None | Some (errs, d) \<Rightarrow> load_result errs d)
       }))"

text \<open>
  \<^verbatim>\<open>getnstr\<close>: the bytes written to the buffer and the position of the end, or 0.  The source is
  the memory from the current position on; reading behind it has no result.
\<close>

fun getnstr_loop :: "string \<Rightarrow> string \<Rightarrow> nat \<Rightarrow> (string \<times> nat) option" where
  "getnstr_loop acc [] n = None"
| "getnstr_loop acc (c # s) n =
     (if c = CR \<or> c = NL \<or> c = NUL then do {
        crlf \<leftarrow> (if c = CR then (case s of [] \<Rightarrow> None | x # _ \<Rightarrow> Some (x = NL \<and> n \<noteq> 1)) else Some False);
        let acc = (if crlf then acc @ [CR, NL] else acc @ [c]);
        let n = (if crlf then n - 1 else n);
        Some (if n - 1 \<noteq> 0 then (acc @ [NUL], length acc) else (butlast acc @ [NUL], length acc - 1))
      }
      else if n - 1 \<noteq> 0 then getnstr_loop (acc @ [c]) s (n - 1) else Some (acc @ [c], 0))"

definition getnstr :: "string \<Rightarrow> nat \<Rightarrow> (string \<times> nat) option" where
  "getnstr s n = (if n \<noteq> 0 then getnstr_loop [] s n else Some ([], 0))"

text \<open>
  The loop of \<^verbatim>\<open>iniparser_load_mem\<close>.  Its \<open>len\<close> is the length of the line, so that it looks
  at the terminating NUL: nothing is stripped and no line is continued.
\<close>

function load_mem_loop ::
  "(nat \<Rightarrow> dict_alloc) \<Rightarrow> string \<Rightarrow> nat \<Rightarrow> nat \<Rightarrow> nat \<Rightarrow> string \<times> string \<times> string \<Rightarrow> int \<Rightarrow> dictionary option \<Rightarrow>
     (int \<times> dictionary option) option" where
  "load_mem_loop al ini inilen tpos lineno skv errs d = do {
     (line, rpos) \<leftarrow> getnstr (drop tpos ini) ASCIILINESZ;
     if rpos \<noteq> 0 \<and> tpos < inilen then do {
       (sta, skv) \<leftarrow> iniparser_line (cstr line) (fst skv) (fst (snd skv)) (snd (snd skv));
       (errs, d) \<leftarrow> store_line (al lineno) sta (fst skv) (fst (snd skv)) (snd (snd skv)) errs d;
       if errs < 0 then Some (errs, d) else load_mem_loop al ini inilen (tpos + rpos) (lineno + 1) skv errs d
     } else Some (errs, d)
   }"
  by pat_completeness auto
termination
  by (relation "measure (\<lambda>(al, ini, inilen, tpos, lineno, skv, errs, d). inilen - tpos)") auto

declare load_mem_loop.simps [simp del]

definition iniparser_load_mem ::
  "bool \<times> bool \<times> bool \<times> bool \<Rightarrow> (nat \<Rightarrow> dict_alloc) \<Rightarrow> string \<Rightarrow> nat \<Rightarrow> dictionary option option" where
  "iniparser_load_mem mem al ini inilen =
     (case dictionary_new (fst mem) (fst (snd mem)) (fst (snd (snd mem))) (snd (snd (snd mem))) 0 of
       None \<Rightarrow> Some None
     | Some d \<Rightarrow> do {
         (errs, d) \<leftarrow> load_mem_loop al ini inilen 0 0 ([], [], []) 0 (Some d);
         load_result errs d
       })"

end
