(* ===== verification/Ini_Roundtrip.thy ===== *)
theory Ini_Roundtrip
  imports Iniparser
begin

text \<open>
  What the INI parser computes: the text of a list of sections and entries is read back as
  exactly those entries, and a dictionary written by \<^verbatim>\<open>iniparser_dump_ini\<close> and loaded again has
  the same contents.
\<close>

section \<open>Texts of sections and entries\<close>

datatype item = Blank | Section string | Entry string string

fun item_text :: "item \<Rightarrow> string" where
  "item_text Blank = []"
| "item_text (Section s) = ''['' @ s @ '']''"
| "item_text (Entry k v) = pad_right 30 k @ '' = '' @ v"

definition items_text :: "item list \<Rightarrow> string" where
  "items_text is = concat (map (\<lambda>i. item_text i @ [NL]) is)"

text \<open>The pairs that the items store, beginning in section \<open>sec\<close>.\<close>

fun item_puts :: "string \<Rightarrow> item list \<Rightarrow> (string \<times> string option) list" where
  "item_puts sec [] = []"
| "item_puts sec (Blank # is) = item_puts sec is"
| "item_puts sec (Section s # is) = (s, None) # item_puts s is"
| "item_puts sec (Entry k v # is) = (sec @ '':'' @ k, Some v) # item_puts sec is"

definition stripped :: "string \<Rightarrow> bool" where
  "stripped s \<longleftrightarrow> s \<noteq> [] \<and> \<not> isspace (hd s) \<and> \<not> isspace (last s)"

definition plain_name :: "string \<Rightarrow> bool" where
  "plain_name s \<longleftrightarrow> stripped s \<and> map tolower s = s \<and> NUL \<notin> set s \<and> NL \<notin> set s"

definition section_name :: "string \<Rightarrow> bool" where
  "section_name s \<longleftrightarrow> plain_name s \<and> CHR '']'' \<notin> set s \<and> CHR '':'' \<notin> set s"

definition entry_key :: "string \<Rightarrow> bool" where
  "entry_key k \<longleftrightarrow> plain_name k \<and> CHR ''='' \<notin> set k \<and> hd k \<noteq> CHR ''#'' \<and> hd k \<noteq> CHR ''[''"

definition entry_val :: "string \<Rightarrow> bool" where
  "entry_val v \<longleftrightarrow> stripped v \<and> NUL \<notin> set v \<and> NL \<notin> set v \<and> CHR '';'' \<notin> set v \<and> CHR ''#'' \<notin> set v
     \<and> hd v \<noteq> DQUOTE \<and> hd v \<noteq> SQUOTE \<and> last v \<noteq> BACKSLASH"

fun item_ok :: "item \<Rightarrow> bool" where
  "item_ok Blank = True"
| "item_ok (Section s) = (section_name s \<and> length s + 2 \<le> 1022)"
| "item_ok (Entry k v) = (entry_key k \<and> entry_val v \<and> length (pad_right 30 k) + 3 + length v \<le> 1022)"

section \<open>Lines\<close>

lemma isspace_simps [simp]:
  "isspace CHR '' ''" "isspace NL" "\<not> isspace CHR ''=''" "\<not> isspace CHR ''[''" "\<not> isspace CHR '']''"
  by (simp_all add: isspace_def)

lemma rstrip_append_space [simp]: "isspace c \<Longrightarrow> rstrip (s @ [c]) = rstrip s"
  by (simp add: rstrip_def)

lemma rstrip_id: "stripped s \<Longrightarrow> rstrip s = s"
  by (cases s rule: rev_cases) (auto simp: stripped_def rstrip_def)

lemma rstrip_spaces: "rstrip (s @ replicate n CHR '' '') = rstrip s"
proof -
  have "dropWhile isspace (replicate n CHR '' '' @ xs) = dropWhile isspace xs" for xs by (induction n) simp_all
  then show ?thesis by (simp add: rstrip_def)
qed

lemma strstrip_id: "stripped s \<Longrightarrow> length s \<le> 1024 \<Longrightarrow> strstrip (Some s) = Some (Some s)"
  by (cases s) (auto simp: strstrip_def stripped_def ASCIILINESZ_def rstrip_id)

lemma clean_name_padded:
  assumes "plain_name k" and "length k + n \<le> 1024"
  shows "clean_name (k @ replicate n CHR '' '') = Some k"
proof -
  have k: "stripped k" "k \<noteq> []" "\<not> isspace (hd k)" using assms(1) by (simp_all add: plain_name_def stripped_def)
  then have "dropWhile isspace (k @ replicate n CHR '' '') = k @ replicate n CHR '' ''" by (cases k) auto
  then have "strstrip (Some (k @ replicate n CHR '' '')) = Some (Some k)"
    using assms(2) rstrip_id [OF k(1)] by (simp add: strstrip_def ASCIILINESZ_def rstrip_spaces)
  then show ?thesis using assms by (simp add: clean_name_def strlwc_def ASCIILINESZ_def plain_name_def)
qed

lemma pad_right_eq: "pad_right w k = k @ replicate (w - length k) CHR '' ''"
  by (simp add: pad_right_def)

lemma iniparser_line_section:
  assumes "section_name s" and "length s + 2 \<le> 1022"
  shows "iniparser_line (item_text (Section s)) sec key val = Some (LINE_SECTION, s, key, val)"
proof -
  have s: "plain_name s" "s \<noteq> []" "CHR '']'' \<notin> set s"
    using assms(1) by (auto simp: section_name_def plain_name_def stripped_def)
  have "stripped (''['' @ s @ '']'')" by (simp add: stripped_def)
  then have st: "strstrip (Some (''['' @ s @ '']'')) = Some (Some (''['' @ s @ '']''))"
    using assms(2) by (intro strstrip_id) auto
  have "takeWhile (\<lambda>c. c \<noteq> CHR '']'') (s @ '']'') = s" using s(3) by (subst takeWhile_append2) auto
  then have "sscanf fmt_section (''['' @ s @ '']'') = [s]" using s(2) by (simp add: fmt_section_def)
  then show ?thesis
    using st clean_name_padded [OF s(1), of 0] assms(2) by (simp add: iniparser_line_def)
qed

lemma sscanf_value:
  assumes "CHR ''='' \<notin> set k" and "stripped v"
  shows "sscanf (fmt_value rest) (pad_right 30 k @ '' = '' @ v) = (pad_right 30 k @ '' '') # sscanf rest v"
proof -
  let ?p = "pad_right 30 k @ '' ''"
  have n: "CHR ''='' \<notin> set ?p" using assms(1) by (auto simp: pad_right_eq)
  have e: "pad_right 30 k @ '' = '' @ v = ?p @ CHR ''='' # CHR '' '' # v" by simp
  have t: "takeWhile (\<lambda>c. c \<noteq> CHR ''='') (?p @ CHR ''='' # CHR '' '' # v) = ?p"
    using n by (subst takeWhile_append2) auto
  have d: "dropWhile (\<lambda>c. c \<noteq> CHR ''='') (?p @ CHR ''='' # CHR '' '' # v) = CHR ''='' # CHR '' '' # v"
    using n by (subst dropWhile_append2) auto
  have v: "dropWhile isspace v = v" using assms(2) by (cases v) (auto simp: stripped_def)
  show ?thesis unfolding e fmt_value_def using t d v by simp
qed

lemma stripped_entry: "stripped k \<Longrightarrow> stripped v \<Longrightarrow> stripped (pad_right 30 k @ '' = '' @ v)"
  by (auto simp: stripped_def pad_right_eq)

lemma iniparser_line_entry:
  assumes k: "entry_key k" and v: "entry_val v" and len: "length (pad_right 30 k) + 3 + length v \<le> 1022"
  shows "iniparser_line (item_text (Entry k v)) sec key val = Some (LINE_VALUE, sec, k, v)"
proof -
  have k': "plain_name k" "stripped k" "k \<noteq> []" "CHR ''='' \<notin> set k" "hd k \<noteq> CHR ''#''" "hd k \<noteq> CHR ''[''"
    using k by (auto simp: entry_key_def plain_name_def stripped_def)
  have v': "stripped v" "v \<noteq> []" "hd v \<noteq> DQUOTE" "hd v \<noteq> SQUOTE" "CHR '';'' \<notin> set v" "CHR ''#'' \<notin> set v"
    using v by (auto simp: entry_val_def stripped_def)
  let ?l = "pad_right 30 k @ '' = '' @ v"
  have hd: "hd ?l = hd k" "?l \<noteq> []" using k'(3) by (auto simp: pad_right_eq)
  have "stripped ?l" using stripped_entry [OF k'(2) v'(1)] .
  then have st: "strstrip (Some ?l) = Some (Some ?l)" using len by (intro strstrip_id) auto
  have q: "sscanf [Lit q, Conv (\<lambda>c. c \<noteq> q), Lit q] v = []" if "hd v \<noteq> q" for q
    using that v'(2) by (cases v) auto
  have qs: "sscanf (fmt_quoted q) ?l = [pad_right 30 k @ '' '']" if "hd v \<noteq> q" for q
    unfolding fmt_quoted_def sscanf_value [OF k'(4) v'(1)] q [OF that] ..
  have tw: "takeWhile (\<lambda>c. c \<noteq> CHR '';'' \<and> c \<noteq> CHR ''#'') v = v" using v'(5,6) by (auto simp: takeWhile_eq_all_conv)
  have p: "sscanf fmt_plain ?l = [pad_right 30 k @ '' '', v]"
    unfolding fmt_plain_def sscanf_value [OF k'(4) v'(1)] using v'(2) by (simp add: tw Let_def)
  have tf: "try_formats [fmt_quoted DQUOTE, fmt_quoted SQUOTE, fmt_plain] ?l (key, val) = (True, pad_right 30 k @ '' '', v)"
    using qs [OF v'(3)] qs [OF v'(4)] p by simp
  have "pad_right 30 k @ '' '' = k @ replicate (Suc (30 - length k)) CHR '' ''"
    by (simp add: pad_right_eq replicate_append_same)
  then have cn: "clean_name (pad_right 30 k @ '' '') = Some k"
    using clean_name_padded [OF k'(1), of "Suc (30 - length k)"] len by (simp add: pad_right_eq del: replicate.simps)
  have sv: "strstrip (Some v) = Some (Some v)" using v'(1) len by (intro strstrip_id) auto
  have nq: "v \<noteq> [DQUOTE, DQUOTE]" "v \<noteq> [SQUOTE, SQUOTE]" using v'(3,4) by auto
  show ?thesis using st hd k'(5,6) tf cn sv nq by (simp add: iniparser_line_def)
qed

section \<open>Loading a text\<close>

lemma item_text_props:
  assumes "item_ok i"
  shows "NL \<notin> set (item_text i)" "NUL \<notin> set (item_text i)" "length (item_text i) \<le> 1022"
    "rstrip (item_text i) = item_text i" "i \<noteq> Blank \<Longrightarrow> item_text i \<noteq> [] \<and> last (item_text i) \<noteq> BACKSLASH"
proof -
  have "NL \<notin> set (item_text i) \<and> NUL \<notin> set (item_text i) \<and> length (item_text i) \<le> 1022
    \<and> rstrip (item_text i) = item_text i \<and> (i \<noteq> Blank \<longrightarrow> item_text i \<noteq> [] \<and> last (item_text i) \<noteq> BACKSLASH)"
  proof (cases i)
    case Blank
    then show ?thesis by (simp add: rstrip_def)
  next
    case (Section s)
    have "stripped (item_text i)" using Section by (simp add: stripped_def)
    then show ?thesis using rstrip_id assms Section by (auto simp: section_name_def plain_name_def)
  next
    case (Entry k v)
    have kv: "stripped k" "stripped v" "NL \<notin> set k" "NUL \<notin> set k" "NL \<notin> set v" "NUL \<notin> set v" "last v \<noteq> BACKSLASH"
      using assms Entry by (simp_all add: entry_key_def entry_val_def plain_name_def)
    have "v \<noteq> []" using kv(2) by (simp add: stripped_def)
    then show ?thesis using rstrip_id [OF stripped_entry [OF kv(1,2)]] kv(3-7) assms Entry by (simp add: pad_right_eq)
  qed
  then show "NL \<notin> set (item_text i)" "NUL \<notin> set (item_text i)" "length (item_text i) \<le> 1022"
    "rstrip (item_text i) = item_text i" "i \<noteq> Blank \<Longrightarrow> item_text i \<noteq> [] \<and> last (item_text i) \<noteq> BACKSLASH" by blast+
qed

lemma fgets_line:
  assumes "NL \<notin> set t" and "length t \<le> 1022"
  shows "fgets 1024 (t @ NL # rest) = Some (t @ [NL], rest)"
proof -
  have "takeWhile (\<lambda>c. c \<noteq> NL) (t @ NL # rest) = t" using assms(1) by (subst takeWhile_append2) auto
  then show ?thesis using assms(2) by (simp add: fgets_def)
qed

text \<open>One line of the loop.\<close>

lemma load_loop_line:
  assumes i: "item_ok i" and ub: "ub \<noteq> BACKSLASH"
    and line: "iniparser_line (item_text i) sec key val = Some (sta, sec', key', val')"
    and store: "store_line (al ln) sta sec' key' val' errs d = Some (errs', d')" and errs: "errs' \<ge> 0"
  shows "load_loop al ub ln [] (sec, key, val) errs d (item_text i @ NL # rest)
    = load_loop al ub (ln + 1) [] (sec', key', val') errs' d' rest"
proof -
  note p = item_text_props [OF i]
  have "cstr (item_text i @ [NL]) = item_text i @ [NL]" using p(2) by (auto simp: cstr_def takeWhile_eq_all_conv)
  moreover have "(if item_text i = [] then ub else last (item_text i)) \<noteq> BACKSLASH" using p(5) ub by (cases i) auto
  ultimately show ?thesis
    using p(4) fgets_line [OF p(1,3), of rest] line store errs
    by (subst load_loop.simps) (simp add: ASCIILINESZ_def)
qed

lemma mem_ok_all: "mem_ok al \<longleftrightarrow> al = mem_all"
  by (cases al) (auto simp: mem_ok_def mem_all_def)

definition loads :: "(nat \<Rightarrow> dict_alloc) \<Rightarrow> char \<Rightarrow> bool" where
  "loads al ub \<longleftrightarrow> ub \<noteq> BACKSLASH \<and> (\<forall>n. mem_ok (al n))"

lemma dict_put_eq:
  assumes "dict_ok d"
  shows "\<exists>d'. dictionary_set mem_all (Some d) (Some k) v = Some (0, Some d') \<and> dict_put mem_all d k v = Some d' \<and> dict_ok d'"
  using dictionary_set_ok [OF assms mem_all_ok, of k v] by (auto simp: dict_put_def)

lemma load_loop_items:
  assumes "\<forall>i \<in> set is. item_ok i" and "\<forall>(k, v) \<in> set (item_puts sec is). length k \<le> ASCIILINESZ"
    and "loads al ub" and "dict_ok d" and "errs \<ge> 0"
  shows "\<exists>d' skv. load_loop al ub ln [] (sec, key, val) errs (Some d) (items_text is @ rest)
      = load_loop al ub (ln + length is) [] skv (if item_puts sec is = [] then errs else 0) (Some d') rest
    \<and> put_all (dict_put mem_all) (item_puts sec is) d = Some d'"
  using assms
proof (induction "is" arbitrary: ln sec key val d errs)
  case Nil
  then show ?case by (auto simp: items_text_def)
next
  case (Cons i "is")
  have ub: "ub \<noteq> BACKSLASH" and al: "al n = mem_all" for n
    using Cons.prems(3) by (auto simp: loads_def mem_ok_all)
  have t: "items_text (i # is) = item_text i @ NL # items_text is" by (simp add: items_text_def)
  have i: "item_ok i" and oks: "\<forall>i \<in> set is. item_ok i" using Cons.prems(1) by simp_all
  note step = load_loop_line [where al = al and ln = ln, OF i ub]
  show ?case
  proof (cases i)
    case Blank
    have l: "iniparser_line (item_text i) sec key val = Some (LINE_EMPTY, sec, key, val)"
      using Blank by (simp add: iniparser_line_def strstrip_def rstrip_def)
    have "store_line (al ln) LINE_EMPTY sec key val errs (Some d) = Some (errs, Some d)" by (simp add: store_line_def)
    from step [OF l this Cons.prems(5), of "items_text is @ rest"]
    show ?thesis using Cons.IH [OF oks _ Cons.prems(3,4,5), of sec "ln + 1" key val] Cons.prems(2) Blank t by simp
  next
    case (Section s)
    have l: "iniparser_line (item_text i) sec key val = Some (LINE_SECTION, s, key, val)"
      using iniparser_line_section i Section by simp
    obtain d1 where d1: "dictionary_set mem_all (Some d) (Some s) None = Some (0, Some d1)"
      "dict_put mem_all d s None = Some d1" "dict_ok d1" using dict_put_eq [OF Cons.prems(4)] by blast
    have "store_line (al ln) LINE_SECTION s key val errs (Some d) = Some (0, Some d1)"
      using d1(1) al [of ln] by (simp add: store_line_def)
    from step [OF l this, of "items_text is @ rest"]
    show ?thesis using Cons.IH [OF oks _ Cons.prems(3) d1(3), of s 0 "ln + 1" key val] Cons.prems(2) Section t d1(2) by simp
  next
    case (Entry k v)
    have l: "iniparser_line (item_text i) sec key val = Some (LINE_VALUE, sec, k, v)"
      using iniparser_line_entry i Entry by simp
    obtain d1 where d1: "dictionary_set mem_all (Some d) (Some (sec @ '':'' @ k)) (Some v) = Some (0, Some d1)"
      "dict_put mem_all d (sec @ '':'' @ k) (Some v) = Some d1" "dict_ok d1" using dict_put_eq [OF Cons.prems(4)] by blast
    have "length (sec @ '':'' @ k) \<le> ASCIILINESZ" using Cons.prems(2) Entry by simp
    then have "store_line (al ln) LINE_VALUE sec k v errs (Some d) = Some (0, Some d1)"
      using d1(1) al [of ln] by (simp add: store_line_def)
    from step [OF l this, of "items_text is @ rest"]
    show ?thesis using Cons.IH [OF oks _ Cons.prems(3) d1(3), of sec 0 "ln + 1" k v] Cons.prems(2) Entry t d1(2) by simp
  qed
qed

lemma dictionary_del_ok: "dict_ok d \<Longrightarrow> \<exists>fs. dictionary_del (Some d) = Some fs"
proof -
  assume "dict_ok d"
  then obtain ks vs hs where a: "dict_arrays d ks vs hs" by (auto simp: dict_ok_def)
  then show ?thesis
    using del_slots_ok [OF a, of 0 "length ks"] dict_arraysD(4) [OF a] by (auto simp: dictionary_del_def)
qed

lemma load_loop_end [simp]: "load_loop al ub ln pre skv errs d [] = Some (Some (errs, d))"
  by (subst load_loop.simps) simp

text \<open>The dictionary that a list of items builds.\<close>

lemma load_items_dict:
  assumes "\<forall>i \<in> set is. item_ok i" and "\<forall>(k, v) \<in> set (item_puts [] is). length k \<le> ASCIILINESZ" and "loads al ub"
    and "errs \<ge> 0" and "dict_ok d0" and "dict_map d0 = (\<lambda>_. None)"
  shows "\<exists>d skv. load_loop al ub ln [] ([], key, val) errs (Some d0) (items_text is @ rest)
      = load_loop al ub (ln + length is) [] skv (if item_puts [] is = [] then errs else 0) (Some d) rest
    \<and> dict_ok d \<and> dict_map d = map_of (rev (item_puts [] is))"
proof -
  obtain d skv where d: "load_loop al ub ln [] ([], key, val) errs (Some d0) (items_text is @ rest)
      = load_loop al ub (ln + length is) [] skv (if item_puts [] is = [] then errs else 0) (Some d) rest"
    "put_all (dict_put mem_all) (item_puts [] is) d0 = Some d"
    using load_loop_items [OF assms(1-3,5,4)] by blast
  have "dict_ok d \<and> dict_map d = dict_map d0 ++ map_of (rev (item_puts [] is))"
    using dict.put_all_look [OF assms(5), of "item_puts [] is"] d(2) by auto
  then have "dict_ok d \<and> dict_map d = map_of (rev (item_puts [] is))"
    using assms(6) by (simp add: map_add_def option.case_eq_if)
  then show ?thesis using d(1) by blast
qed

lemma iniparser_load_items:
  assumes "\<forall>i \<in> set is. item_ok i" and "\<forall>(k, v) \<in> set (item_puts [] is). length k \<le> ASCIILINESZ" and "loads al ub"
  shows "\<exists>d. iniparser_load (True, True, True, True) al ub (Some (items_text is)) = Some (Some d) \<and> dict_ok d
    \<and> dict_map d = map_of (rev (item_puts [] is))"
proof -
  obtain d0 where d0: "dictionary_new True True True True 0 = Some d0" "dict_ok d0" "dict_map d0 = (\<lambda>_. None)"
    using dictionary_new_ok by blast
  from load_items_dict [OF assms order_refl d0(2,3), of 0 "[]" "[]" "[]"] d0(1)
  show ?thesis by (auto simp: iniparser_load_def load_result_def)
qed

text \<open>A line without an equals sign that is no section and no comment.\<close>

lemma bad_line:
  assumes "loads al ub"
  shows "load_loop al ub ln [] skv errs d (''port 80'' @ NL # rest)
    = (if errs + 1 < 0 then Some (Some (errs + 1, d))
       else load_loop al ub (ln + 1) [] (fst skv, ''port 80'', snd (snd skv)) (errs + 1) d rest)"
proof -
  have f: "fgets 1024 (''port 80'' @ NL # rest) = Some (''port 80'' @ [NL], rest)"
    by (rule fgets_line) auto
  have l: "iniparser_line ''port 80'' a b c = Some (LINE_ERROR, a, ''port 80'', c)" for a b c
    by (simp add: iniparser_line_def strstrip_def ASCIILINESZ_def isspace_def rstrip_def fmt_quoted_def fmt_plain_def
        fmt_comment_def fmt_nothing_def fmt_value_def)
  have r: "rstrip (''port 80'' @ [NL]) = ''port 80''" "cstr (''port 80'' @ [NL]) = ''port 80'' @ [NL]"
    by (simp_all add: rstrip_def isspace_def cstr_def)
  show ?thesis using f l r by (subst load_loop.simps) (simp add: ASCIILINESZ_def store_line_def)
qed

section \<open>Writing a dictionary\<close>

definition sec_names :: "string option list \<Rightarrow> string list" where
  "sec_names ks = concat (map (\<lambda>k. case k of Some k \<Rightarrow> if CHR '':'' \<in> set k then [] else [k] | None \<Rightarrow> []) ks)"

lemma sec_names_Cons:
  "sec_names (k # ks) = (case k of Some k \<Rightarrow> if CHR '':'' \<in> set k then [] else [k] | None \<Rightarrow> []) @ sec_names ks"
  by (simp add: sec_names_def)

lemma set_sec_names: "s \<in> set (sec_names ks) \<longleftrightarrow> Some s \<in> set ks \<and> CHR '':'' \<notin> set s"
  by (induction ks) (auto simp: sec_names_def split: option.splits)

lemma count_sections_ok:
  assumes "dict_key d = Some ks" and "i + m = length ks"
  shows "count_sections d i m = Some (int (length (sec_names (drop i ks))))"
  using assms(2)
proof (induction m arbitrary: i)
  case (Suc m)
  then have "drop i ks = ks ! i # drop (Suc i) ks" by (simp add: Cons_nth_drop_Suc)
  then show ?case using Suc assms(1) by (auto simp: sec_names_Cons split: option.splits)
qed (simp add: sec_names_def)

lemma find_section_ok:
  assumes "dict_key d = Some ks" and "i + m = length ks" and "nat (n - found) < length (sec_names (drop i ks))" and "found \<le> n"
  shows "\<exists>j. find_section d n found i m = Some (n + 1, j) \<and> j < length ks
    \<and> ks ! j = Some (sec_names (drop i ks) ! nat (n - found))"
  using assms(2-4)
proof (induction m arbitrary: i found)
  case (Suc m)
  have i: "i < length ks" using Suc.prems(1) by simp
  have dr: "drop i ks = ks ! i # drop (Suc i) ks" using i by (simp add: Cons_nth_drop_Suc)
  show ?case
  proof (cases "\<exists>k. ks ! i = Some k \<and> CHR '':'' \<notin> set k")
    case False
    then have same: "sec_names (drop i ks) = sec_names (drop (Suc i) ks)"
      and eq: "find_section d n found i (Suc m) = find_section d n found (Suc i) m"
      using dr i assms(1) by (auto simp: sec_names_Cons split: option.splits)
    show ?thesis unfolding eq using Suc.IH [of "Suc i" found] Suc.prems same by simp
  next
    case True
    then obtain k where k: "ks ! i = Some k" "CHR '':'' \<notin> set k" by blast
    then have l: "sec_names (drop i ks) = k # sec_names (drop (Suc i) ks)" using dr by (simp add: sec_names_Cons)
    show ?thesis
    proof (cases "found + 1 > n")
      case t: True
      then have "found = n" using Suc.prems(3) by simp
      then show ?thesis using k i l assms(1) by simp
    next
      case f: False
      have "nat (n - found) = Suc (nat (n - (found + 1)))" using f by simp
      then show ?thesis using Suc.IH [of "Suc i" "found + 1"] Suc.prems f k i l assms(1) by auto
    qed
  qed
qed (simp add: sec_names_def)

lemma getsecname_ok:
  assumes "dict_key d = Some ks" and "length ks = nat (dict_size d)" and "i < length (sec_names ks)"
  shows "iniparser_getsecname (Some d) (int i) = Some (Some (sec_names ks ! i))"
  using find_section_ok [OF assms(1), of 0 "length ks" "int i" 0] assms by (auto simp: iniparser_getsecname_def)

text \<open>The entries of one section, and the items of a dictionary.\<close>

definition slot_entries :: "string \<Rightarrow> string option \<times> string option \<Rightarrow> item list" where
  "slot_entries sec kv = (case fst kv of None \<Rightarrow> []
     | Some k \<Rightarrow> if take (length sec + 1) k = sec @ '':''
         then [Entry (drop (length sec + 1) k) (case snd kv of Some v \<Rightarrow> v | None \<Rightarrow> [])] else [])"

definition section_items :: "string option list \<Rightarrow> string option list \<Rightarrow> string \<Rightarrow> item list" where
  "section_items ks vs sec = Blank # Section sec # concat (map (slot_entries sec) (zip ks vs))"

definition dict_items :: "string option list \<Rightarrow> string option list \<Rightarrow> item list" where
  "dict_items ks vs = concat (map (section_items ks vs) (sec_names ks)) @ [Blank]"

lemma items_text_append [simp]: "items_text (a @ b) = items_text a @ items_text b" "items_text [] = []"
  by (simp_all add: items_text_def)

lemma items_text_Cons: "items_text (i # is) = item_text i @ NL # items_text is"
  by (simp add: items_text_def)

lemma dump_loop_ok:
  assumes "dict_key d = Some ks" and "dict_val d = Some vs" and "length vs = length ks" and "i + m = length ks"
  shows "dump_loop (\<lambda>k v. Some (dump_entry sec k v)) d i m =
    Some (items_text (concat (map (slot_entries sec) (zip (drop i ks) (drop i vs)))))"
  using assms(4)
proof (induction m arbitrary: i)
  case (Suc m)
  then have "drop i ks = ks ! i # drop (Suc i) ks" "drop i vs = vs ! i # drop (Suc i) vs"
    using assms(3) by (simp_all add: Cons_nth_drop_Suc)
  then show ?case using Suc assms(1-3)
    by (auto simp: slot_entries_def dump_entry_def items_text_Cons split: option.splits)
qed simp

lemma dump_section_ok:
  assumes "dict_key d = Some ks" and "dict_val d = Some vs" and "length vs = length ks" and "length ks = nat (dict_size d)"
    and "length sec + 2 \<le> 1022"
  shows "dump_section d sec = Some (items_text (section_items ks vs sec))"
  using dump_loop_ok [OF assms(1-3), of 0 "length ks" sec] assms(4,5)
  by (simp add: dump_section_def section_items_def items_text_Cons ASCIILINESZ_def)

lemma dump_sections_ok:
  assumes "dict_key d = Some ks" and "dict_val d = Some vs" and "length vs = length ks" and "length ks = nat (dict_size d)"
    and "\<forall>sec \<in> set (sec_names ks). length sec + 2 \<le> 1022" and "i + m = length (sec_names ks)"
  shows "dump_sections d i m = Some (items_text (concat (map (section_items ks vs) (drop i (sec_names ks)))))"
  using assms(6)
proof (induction m arbitrary: i)
  case (Suc m)
  let ?s = "sec_names ks ! i"
  have i: "i < length (sec_names ks)" using Suc.prems by simp
  have "drop i (sec_names ks) = ?s # drop (Suc i) (sec_names ks)" using i by (simp add: Cons_nth_drop_Suc)
  then show ?case
    using Suc getsecname_ok [OF assms(1,4) i] dump_section_ok [OF assms(1-4), of ?s] assms(5) nth_mem [OF i] by simp
qed simp

lemma dump_ini_ok:
  assumes "dict_arrays d ks vs hs" and "sec_names ks \<noteq> []" and "\<forall>sec \<in> set (sec_names ks). length sec + 2 \<le> 1022"
  shows "iniparser_dump_ini (Some d) = Some (items_text (dict_items ks vs))"
proof -
  note d = dict_arraysD [OF assms(1)]
  have "iniparser_getnsec (Some d) = Some (int (length (sec_names ks)))"
    using count_sections_ok [OF d(1), of 0 "length ks"] d(4) by (simp add: iniparser_getnsec_def)
  then show ?thesis
    using assms(2) dump_sections_ok [OF d(1,2,5,4) assms(3), of 0 "length (sec_names ks)"]
    by (simp add: iniparser_dump_ini_def dict_items_def items_text_Cons)
qed

section \<open>The round trip\<close>

text \<open>
  A dictionary as the parser builds it: the entries without a colon are sections without a
  value, every other entry is a section of the dictionary, a colon and a key, with a value.
\<close>

definition entry_ok :: "dictionary \<Rightarrow> string \<Rightarrow> string option \<Rightarrow> bool" where
  "entry_ok d k v \<longleftrightarrow> (if CHR '':'' \<notin> set k then v = None \<and> item_ok (Section k)
     else \<exists>sec key w. k = sec @ '':'' @ key \<and> CHR '':'' \<notin> set sec \<and> dict_map d sec = Some None \<and> v = Some w
       \<and> item_ok (Entry key w) \<and> length k \<le> ASCIILINESZ)"

definition ini_dict :: "dictionary \<Rightarrow> bool" where
  "ini_dict d \<longleftrightarrow> dict_ok d \<and> (\<forall>k v. dict_map d k = Some v \<longrightarrow> entry_ok d k v) \<and> (\<exists>k. dict_map d k = Some None)"

lemma dict_map_zip:
  assumes "dict_arrays d ks vs hs"
  shows "dict_map d k = Some v \<longleftrightarrow> (Some k, v) \<in> set (zip ks vs)"
proof -
  note d = dict_arraysD [OF assms]
  have z: "(Some k, v) \<in> set (zip ks vs) \<longleftrightarrow> (\<exists>i < length ks. ks ! i = Some k \<and> vs ! i = v)"
    by (simp add: in_set_zip d(5,6)) blast
  have "(\<exists>i < length ks. ks ! i = Some k \<and> vs ! i = v) \<longleftrightarrow> (\<exists>i. slot_of ks k = Some i \<and> vs ! i = v)"
    using slot_of_Some [of ks k] slot_of_unique [OF d(10), of ks] by blast
  then show ?thesis unfolding z by (auto simp: dict_map_def d(1,2))
qed

lemma map_of_graph:
  assumes "\<And>k v. (k, v) \<in> set l \<longleftrightarrow> m k = Some v"
  shows "map_of l = m"
proof
  fix k
  show "map_of l k = m k"
  proof (cases "m k")
    case None
    then have "k \<notin> fst ` set l" using assms by force
    then show ?thesis using None by (simp add: map_of_eq_None_iff)
  next
    case (Some v)
    then have "map_of l k \<noteq> None" using assms [of k v] by (metis weak_map_of_SomeI option.distinct(1))
    then show ?thesis using map_of_SomeD [of l k] assms Some by fastforce
  qed
qed

lemma item_puts_entries:
  "\<forall>i \<in> set es. \<exists>k v. i = Entry k v \<Longrightarrow>
   set (item_puts sec (es @ is)) = {(sec @ '':'' @ k, Some v) | k v. Entry k v \<in> set es} \<union> set (item_puts sec is)"
  by (induction es) auto

lemma slot_entries_Entry: "i \<in> set (concat (map (slot_entries sec) l)) \<Longrightarrow> \<exists>k v. i = Entry k v"
  by (auto simp: slot_entries_def split: option.splits if_splits)

lemma item_puts_sections:
  "set (item_puts s (concat (map (section_items ks vs) secs) @ [Blank])) =
   (\<Union>sec \<in> set secs. insert (sec, None)
      {(sec @ '':'' @ k, Some v) | k v. Entry k v \<in> set (concat (map (slot_entries sec) (zip ks vs)))})"
proof (induction secs arbitrary: s)
  case (Cons sec secs)
  have "\<forall>i \<in> set (concat (map (slot_entries sec) (zip ks vs))). \<exists>k v. i = Entry k v" using slot_entries_Entry by blast
  from item_puts_entries [OF this] show ?case using Cons by (simp add: section_items_def)
qed simp

lemma prefix_split: "take (length p) x = p \<and> k = drop (length p) x \<longleftrightarrow> x = p @ k"
  by (metis append_eq_conv_conj append_take_drop_id)

lemma slot_entries_iff:
  "Entry k v \<in> set (concat (map (slot_entries sec) l)) \<longleftrightarrow>
   (\<exists>w. (Some (sec @ '':'' @ k), w) \<in> set l \<and> v = (case w of Some v \<Rightarrow> v | None \<Rightarrow> []))"
proof -
  have "Entry k v \<in> set (slot_entries sec (x, w)) \<longleftrightarrow> x = Some (sec @ '':'' @ k) \<and> v = (case w of Some v \<Rightarrow> v | None \<Rightarrow> [])" for x w
    using prefix_split [of "sec @ '':''" "the x" k] by (cases x) (auto simp: slot_entries_def)
  then show ?thesis by auto
qed

lemma ini_dictD: "ini_dict d \<Longrightarrow> dict_map d k = Some v \<Longrightarrow> entry_ok d k v"
  by (simp add: ini_dict_def)

lemma ini_section:
  assumes a: "dict_arrays d ks vs hs" and ini: "ini_dict d"
  shows "s \<in> set (sec_names ks) \<longleftrightarrow> dict_map d s = Some None \<and> CHR '':'' \<notin> set s"
    and "s \<in> set (sec_names ks) \<Longrightarrow> item_ok (Section s)"
proof -
  note z = dict_map_zip [OF a]
  have sec: "dict_map d s = Some None \<and> item_ok (Section s) \<and> CHR '':'' \<notin> set s" if "s \<in> set (sec_names ks)"
  proof -
    have s: "Some s \<in> set ks" "CHR '':'' \<notin> set s" using that by (simp_all add: set_sec_names)
    then obtain w where "(Some s, w) \<in> set (zip ks vs)"
      using dict_arraysD(5) [OF a] by (metis in_set_impl_in_set_zip1)
    then show ?thesis using z ini_dictD [OF ini] s(2) by (metis entry_ok_def)
  qed
  then show "s \<in> set (sec_names ks) \<longleftrightarrow> dict_map d s = Some None \<and> CHR '':'' \<notin> set s"
    using z by (metis set_sec_names set_zip_leftD)
  show "item_ok (Section s)" if "s \<in> set (sec_names ks)" using sec [OF that] by simp
qed

lemma colon_split:
  assumes "s @ '':'' @ k = s' @ '':'' @ k'" and "CHR '':'' \<notin> set s" and "CHR '':'' \<notin> set s'"
  shows "s = s' \<and> k = k'"
proof -
  have "s = takeWhile (\<lambda>c. c \<noteq> CHR '':'') (s @ '':'' @ k)" using assms(2) by (subst takeWhile_append2) auto
  moreover have "s' = takeWhile (\<lambda>c. c \<noteq> CHR '':'') (s' @ '':'' @ k')" using assms(3) by (subst takeWhile_append2) auto
  ultimately have "s = s'" using assms(1) by simp
  then show ?thesis using assms(1) by simp
qed

lemma ini_entry:
  assumes a: "dict_arrays d ks vs hs" and ini: "ini_dict d"
    and s: "s \<in> set (sec_names ks)" and e: "Entry k v \<in> set (concat (map (slot_entries s) (zip ks vs)))"
  shows "item_ok (Entry k v) \<and> dict_map d (s @ '':'' @ k) = Some (Some v)"
proof -
  obtain w where w: "dict_map d (s @ '':'' @ k) = Some w" "v = (case w of Some v \<Rightarrow> v | None \<Rightarrow> [])"
    using e dict_map_zip [OF a] unfolding slot_entries_iff by blast
  obtain s' k' v' where o: "s @ '':'' @ k = s' @ '':'' @ k'" "CHR '':'' \<notin> set s'" "w = Some v'" "item_ok (Entry k' v')"
    using ini_dictD [OF ini w(1)] unfolding entry_ok_def by auto
  have "CHR '':'' \<notin> set s" using s by (simp add: set_sec_names)
  from colon_split [OF o(1) this o(2)] show ?thesis using o w by simp
qed

lemma dict_items_ok:
  assumes a: "dict_arrays d ks vs hs" and ini: "ini_dict d" and i: "i \<in> set (dict_items ks vs)"
  shows "item_ok i"
proof -
  consider "i = Blank" | s where "s \<in> set (sec_names ks)" "i = Section s"
    | s where "s \<in> set (sec_names ks)" "i \<in> set (concat (map (slot_entries s) (zip ks vs)))"
    using i unfolding dict_items_def section_items_def set_append set_concat set_map by (auto split: if_splits)
  then show ?thesis
  proof cases
    case 3
    then obtain k v where "i = Entry k v" using slot_entries_Entry by blast
    then show ?thesis using ini_entry [OF a ini 3(1)] 3(2) by blast
  qed (use ini_section [OF a ini] in simp_all)
qed

lemma dict_items_puts:
  assumes a: "dict_arrays d ks vs hs" and ini: "ini_dict d"
  shows "(k, v) \<in> set (item_puts [] (dict_items ks vs)) \<longleftrightarrow> dict_map d k = Some v" (is "?l \<longleftrightarrow> ?r")
proof
  show ?r if ?l
    using that ini_section(1) [OF a ini] ini_entry [OF a ini] unfolding dict_items_def item_puts_sections by blast
next
  assume m: ?r
  show ?l
  proof (cases "CHR '':'' \<in> set k")
    case False
    then show ?thesis using ini_dictD [OF ini m] ini_section(1) [OF a ini, of k] m
      unfolding dict_items_def item_puts_sections by (auto simp: entry_ok_def)
  next
    case True
    then obtain s key w where o: "k = s @ '':'' @ key" "CHR '':'' \<notin> set s" "dict_map d s = Some None" "v = Some w"
      using ini_dictD [OF ini m] unfolding entry_ok_def by auto
    have "Entry key w \<in> set (concat (map (slot_entries s) (zip ks vs)))"
      unfolding slot_entries_iff using m dict_map_zip [OF a] o by auto
    then show ?thesis using ini_section(1) [OF a ini, of s] o unfolding dict_items_def item_puts_sections by blast
  qed
qed


definition ex_ini :: dictionary where
  "ex_ini = \<lparr>dict_n = 2, dict_size = 3, dict_val = Some [None, Some ''80'', None],
     dict_key = Some [Some ''csf'', Some ''csf:port'', None],
     dict_hash = Some [dictionary_hash ''csf'', dictionary_hash ''csf:port'', 0]\<rparr>"

lemma ex_ini_ok: "ini_dict ex_ini"
proof -
  have "dict_ok ex_ini"
    by (rule dict_okI [of _ "[Some ''csf'', Some ''csf:port'', None]" "[None, Some ''80'', None]"
          "[dictionary_hash ''csf'', dictionary_hash ''csf:port'', 0]"])
      (auto simp: ex_ini_def used_def less_Suc_eq_le le_Suc_eq)
  moreover have m: "dict_map ex_ini = [''csf'' \<mapsto> None, ''csf:port'' \<mapsto> Some ''80'']"
    by (rule ext) (simp add: ex_ini_def dict_map_def slot_of_def upt_rec)
  moreover have "entry_ok ex_ini ''csf'' None"
    by (simp add: entry_ok_def section_name_def plain_name_def stripped_def isspace_def tolower_def)
  moreover have "entry_ok ex_ini ''csf:port'' (Some ''80'')"
  proof -
    have "item_ok (Entry ''port'' ''80'')"
      by (simp add: entry_key_def entry_val_def plain_name_def stripped_def isspace_def tolower_def pad_right_def)
    then have "\<exists>sec key w. ''csf:port'' = sec @ '':'' @ key \<and> CHR '':'' \<notin> set sec \<and> dict_map ex_ini sec = Some None
        \<and> Some ''80'' = Some w \<and> item_ok (Entry key w) \<and> length ''csf:port'' \<le> ASCIILINESZ"
      by (intro exI [of _ "''csf''"] exI [of _ "''port''"] exI [of _ "''80''"]) (simp add: m ASCIILINESZ_def del: item_ok.simps)
    then show ?thesis unfolding entry_ok_def by simp
  qed
  ultimately show ?thesis by (auto simp: ini_dict_def)
qed




end
