(* ===== verification/Confparser.thy ===== *)
theory Confparser
  imports Ini_Roundtrip Strl
begin

text \<open>
  The configuration reader \<^verbatim>\<open>confparser/confparser.c\<close>: tables of integer and string
  variables that are filled from a section of an INI dictionary.  The variables the tables
  point to are a store of integers and of byte buffers, and a table is the array up to the
  entry without a name.
\<close>

definition MAX_PATH :: nat where "MAX_PATH = 1024"
definition CONF_ITEM_LEN :: nat where "CONF_ITEM_LEN = 63"

record conf_int_config =
  ci_name :: "string option"
  ci_var :: nat

record conf_str_config =
  cs_name :: "string option"
  cs_var :: nat

record conf_vars =
  int_at :: "nat \<Rightarrow> int"
  buf_at :: "nat \<Rightarrow> buf"

section \<open>The functions\<close>

text \<open>The buffer \<open>conf_file\<close> is the only state; a name is its bytes with the terminator.\<close>

definition set_conf_file :: "buf \<Rightarrow> buf option \<Rightarrow> buf option" where
  "set_conf_file conf_file conf_name = (case conf_name of
     Some name \<Rightarrow> map_option fst (strlcpy conf_file name MAX_PATH) | None \<Rightarrow> Some conf_file)"

text \<open>
  The file system \<open>fs\<close> gives the contents of a file that can be opened; the allocations and the
  byte before the line buffer are the parameters of \<^const>\<open>iniparser_load\<close>.
\<close>

record conf_env =
  fs :: "string \<Rightarrow> string option"
  new_mem :: "bool \<times> bool \<times> bool \<times> bool"
  line_mem :: "nat \<Rightarrow> dict_alloc"
  before :: char

definition open_conf_file :: "conf_env \<Rightarrow> buf \<Rightarrow> buf option \<Rightarrow> dictionary option option" where
  "open_conf_file e conf_file conf_name =
     iniparser_load (new_mem e) (line_mem e) (before e)
       (fs e (cstr (case conf_name of Some name \<Rightarrow> name | None \<Rightarrow> conf_file)))"

definition open_conf_mem :: "conf_env \<Rightarrow> buf option \<Rightarrow> nat \<Rightarrow> dictionary option option" where
  "open_conf_mem e ini len = (case ini of
     Some ini \<Rightarrow> iniparser_load_mem (new_mem e) (line_mem e) ini len | None \<Rightarrow> Some None)"

text \<open>\<^verbatim>\<open>snprintf(buf, CONF_ITEM_LEN, "%s:%s", mod_name, config_name)\<close>\<close>

definition item_name :: "string \<Rightarrow> string \<Rightarrow> string" where
  "item_name mod_name name = take (CONF_ITEM_LEN - 1) (mod_name @ '':'' @ name)"

text \<open>The two loops; a table without a last entry is read past its end.\<close>

fun int_loop :: "dictionary \<Rightarrow> string \<Rightarrow> conf_int_config list \<Rightarrow> conf_vars \<Rightarrow> conf_vars option" where
  "int_loop conf mod_name [] vs = None"
| "int_loop conf mod_name (c # cic) vs = (case ci_name c of None \<Rightarrow> Some vs
   | Some name \<Rightarrow> do {
       i \<leftarrow> iniparser_getint (Some conf) (Some (item_name mod_name name)) (-1);
       int_loop conf mod_name cic (if i \<noteq> -1 then vs\<lparr>int_at := (int_at vs)(ci_var c := i)\<rparr> else vs)
     })"

fun str_loop :: "dictionary \<Rightarrow> string \<Rightarrow> conf_str_config list \<Rightarrow> conf_vars \<Rightarrow> conf_vars option" where
  "str_loop conf mod_name [] vs = None"
| "str_loop conf mod_name (c # csc) vs = (case cs_name c of None \<Rightarrow> Some vs
   | Some name \<Rightarrow> do {
       s \<leftarrow> iniparser_getstring (Some conf) (Some (item_name mod_name name)) NULLP;
       (case s of
          Str s \<Rightarrow> do {
            (b, _) \<leftarrow> strlcpy (buf_at vs (cs_var c)) (s @ [NUL]) (CONF_ITEM_LEN + 1);
            str_loop conf mod_name csc (vs\<lparr>buf_at := (buf_at vs)(cs_var c := b)\<rparr>)
          }
        | NULLP \<Rightarrow> str_loop conf mod_name csc vs
        | INVALID_KEY \<Rightarrow> None)
     })"

definition parse_conf_file ::
  "dictionary option \<Rightarrow> string option \<Rightarrow> conf_int_config list option \<Rightarrow> conf_str_config list option \<Rightarrow> conf_vars
     \<Rightarrow> (int \<times> conf_vars) option" where
  "parse_conf_file conf mod_name cic csc vs = (case (conf, mod_name) of
     (Some conf, Some mod_name) \<Rightarrow> do {
       vs \<leftarrow> (case cic of Some cic \<Rightarrow> int_loop conf mod_name cic vs | None \<Rightarrow> Some vs);
       vs \<leftarrow> (case csc of Some csc \<Rightarrow> str_loop conf mod_name csc vs | None \<Rightarrow> Some vs);
       Some (0, vs)
     }
   | _ \<Rightarrow> Some (-1, vs))"

definition close_conf_file :: "dictionary option \<Rightarrow> dict_block list option" where
  "close_conf_file conf = iniparser_freedict conf"

definition load_conf ::
  "conf_env \<Rightarrow> buf \<Rightarrow> buf option \<Rightarrow> string option \<Rightarrow> conf_int_config list option \<Rightarrow> conf_str_config list option \<Rightarrow> conf_vars
     \<Rightarrow> (int \<times> conf_vars) option" where
  "load_conf e conf_file conf_name mod_name cic csc vs = do {
     conf \<leftarrow> open_conf_file e conf_file conf_name;
     if conf = None then Some (-1, vs)
     else do {
       (_, vs) \<leftarrow> parse_conf_file conf mod_name cic csc vs;
       _ \<leftarrow> close_conf_file conf;
       Some (0, vs)
     }
   }"

definition load_conf_mem ::
  "conf_env \<Rightarrow> buf option \<Rightarrow> nat \<Rightarrow> string option \<Rightarrow> conf_int_config list option \<Rightarrow> conf_str_config list option \<Rightarrow> conf_vars
     \<Rightarrow> (int \<times> conf_vars) option" where
  "load_conf_mem e ini len mod_name cic csc vs = do {
     conf \<leftarrow> open_conf_mem e ini len;
     if conf = None then Some (-1, vs)
     else do {
       (_, vs) \<leftarrow> parse_conf_file conf mod_name cic csc vs;
       _ \<leftarrow> close_conf_file conf;
       Some (0, vs)
     }
   }"

section \<open>What a load gives\<close>

lemma item_puts_Entry: "(k, Some v) \<in> set (item_puts sec is) \<Longrightarrow> \<exists>k'. Entry k' v \<in> set is"
  by (induction sec "is" rule: item_puts.induct) auto

text \<open>The value of a configuration item: its key in the dictionary is cut and in lower case.\<close>

definition item_key :: "string \<Rightarrow> string \<Rightarrow> string" where
  "item_key mod_name name = map tolower (item_name mod_name name)"

definition item_value :: "(string \<Rightarrow> string option option) \<Rightarrow> string \<Rightarrow> string \<Rightarrow> string option" where
  "item_value m mod_name name = (case m (item_key mod_name name) of Some v \<Rightarrow> v | None \<Rightarrow> None)"

definition int_value :: "(string \<Rightarrow> string option option) \<Rightarrow> string \<Rightarrow> string \<Rightarrow> int \<Rightarrow> int" where
  "int_value m mod_name name old = (case item_value m mod_name name of
     Some v \<Rightarrow> if to_int32 (strtol v) = -1 then old else to_int32 (strtol v) | None \<Rightarrow> old)"

text \<open>The tables as lists of names and variables, ended by an entry without a name.\<close>

definition int_table :: "(string \<times> nat) list \<Rightarrow> conf_int_config list" where
  "int_table l = map (\<lambda>(n, x). \<lparr>ci_name = Some n, ci_var = x\<rparr>) l @ [\<lparr>ci_name = None, ci_var = 0\<rparr>]"

definition str_table :: "(string \<times> nat) list \<Rightarrow> conf_str_config list" where
  "str_table l = map (\<lambda>(n, x). \<lparr>cs_name = Some n, cs_var = x\<rparr>) l @ [\<lparr>cs_name = None, cs_var = 0\<rparr>]"

lemma table_simps [simp]:
  "int_table [] = [\<lparr>ci_name = None, ci_var = 0\<rparr>]" "str_table [] = [\<lparr>cs_name = None, cs_var = 0\<rparr>]"
  "int_table ((nm, x) # l) = \<lparr>ci_name = Some nm, ci_var = x\<rparr> # int_table l"
  "str_table ((nm, x) # l) = \<lparr>cs_name = Some nm, cs_var = x\<rparr> # str_table l"
  by (simp_all add: int_table_def str_table_def)

lemma item_name_len: "length (item_name m nm) \<le> 62"
  by (simp add: item_name_def CONF_ITEM_LEN_def)

lemma strlwc_item: "strlwc (Some (item_name m nm)) = Some (item_key m nm)"
  using item_name_len [of m nm] by (simp add: strlwc_def item_key_def ASCIILINESZ_def)

text \<open>An item whose name is a section has no value to read as an integer.\<close>

definition readable :: "(string \<Rightarrow> string option option) \<Rightarrow> string \<Rightarrow> (string \<times> nat) list \<Rightarrow> bool" where
  "readable m mod_name l \<longleftrightarrow> (\<forall>(nm, x) \<in> set l. m (item_key mod_name nm) \<noteq> Some None)"

lemma int_loop_ok:
  assumes "dict_ok d" and "readable (dict_map d) mod_name l" and "distinct (map snd l)"
  shows "int_loop d mod_name (int_table l) vs = Some (vs\<lparr>int_at := \<lambda>x.
    (case List.find (\<lambda>(nm, y). y = x) l of Some (nm, _) \<Rightarrow> int_value (dict_map d) mod_name nm (int_at vs x) | None \<Rightarrow> int_at vs x)\<rparr>)"
  using assms(2,3)
proof (induction l arbitrary: vs)
  case (Cons a l)
  obtain nm x where a: "a = (nm, x)" by (cases a)
  have key: "dict_map d (item_key mod_name nm) \<noteq> Some None" using Cons.prems(1) a by (simp add: readable_def)
  have get: "iniparser_getint (Some d) (Some (item_name mod_name nm)) (-1) =
    Some (case item_value (dict_map d) mod_name nm of Some v \<Rightarrow> to_int32 (strtol v) | None \<Rightarrow> -1)"
    using key by (auto simp: iniparser_getint_def iniparser_getstring_def strlwc_item dictionary_get_ok [OF assms(1)]
        item_value_def cptr_of_def split: option.splits)
  have miss: "List.find (\<lambda>(nm, y). y = x) l = None" using Cons.prems(2) a by (force simp: find_None_iff)
  have "readable (dict_map d) mod_name l" "distinct (map snd l)" using Cons.prems by (simp_all add: readable_def)
  note IH = Cons.IH [OF this]
  show ?case
    by (simp add: a get IH) (auto simp: int_value_def miss fun_eq_iff split: option.splits)
qed simp

text \<open>The buffer after a string has been copied into it.\<close>

definition put_str :: "string option \<Rightarrow> buf \<Rightarrow> buf" where
  "put_str v b = (case v of Some v \<Rightarrow> take CONF_ITEM_LEN v @ NUL # drop (Suc (min CONF_ITEM_LEN (length v))) b | None \<Rightarrow> b)"

definition c_strings :: "(string \<Rightarrow> string option option) \<Rightarrow> bool" where
  "c_strings m \<longleftrightarrow> (\<forall>k v. m k = Some (Some v) \<longrightarrow> NUL \<notin> set v)"

lemma str_loop_ok:
  assumes "dict_ok d" and "c_strings (dict_map d)" and "distinct (map snd l)"
    and "\<forall>(nm, x) \<in> set l. CONF_ITEM_LEN < length (buf_at vs x)"
  shows "str_loop d mod_name (str_table l) vs = Some (vs\<lparr>buf_at := \<lambda>x.
    (case List.find (\<lambda>(nm, y). y = x) l of Some (nm, _) \<Rightarrow> put_str (item_value (dict_map d) mod_name nm) (buf_at vs x)
      | None \<Rightarrow> buf_at vs x)\<rparr>)"
  using assms(3,4)
proof (induction l arbitrary: vs)
  case (Cons a l)
  obtain nm x where a: "a = (nm, x)" by (cases a)
  let ?v = "item_value (dict_map d) mod_name nm"
  have get: "iniparser_getstring (Some d) (Some (item_name mod_name nm)) NULLP = Some (cptr_of ?v)"
    by (auto simp: iniparser_getstring_def strlwc_item dictionary_get_ok [OF assms(1)] item_value_def cptr_of_def
        split: option.splits)
  have cpy: "strlcpy (buf_at vs x) (v @ [NUL]) (CONF_ITEM_LEN + 1) = Some (put_str ?v (buf_at vs x), length v)" if "?v = Some v" for v
  proof -
    have "NUL \<notin> set v" using that assms(2) by (auto simp: item_value_def c_strings_def split: option.splits)
    then have "holds (v @ [NUL]) v" by (simp add: holds_def)
    from strlcpy_holds [OF this, of "CONF_ITEM_LEN + 1" "buf_at vs x"] show ?thesis
      using Cons.prems(2) a that by (simp add: put_str_def)
  qed
  have miss: "List.find (\<lambda>(nm, y). y = x) l = None" using Cons.prems(1) a by (force simp: find_None_iff)
  have dis: "distinct (map snd l)" using Cons.prems(1) by simp
  show ?case
  proof (cases ?v)
    case None
    then show ?thesis using Cons.IH [OF dis, of vs] Cons.prems(2)
      by (simp add: a get cptr_of_def) (auto simp: put_str_def miss fun_eq_iff)
  next
    case (Some v)
    let ?vs = "vs\<lparr>buf_at := (buf_at vs)(x := put_str ?v (buf_at vs x))\<rparr>"
    have "\<forall>(nm, y) \<in> set l. CONF_ITEM_LEN < length (buf_at ?vs y)" using Cons.prems a by (auto simp: rev_image_eqI)
    note IH = Cons.IH [OF dis this]
    show ?thesis using IH Some cpy [OF Some]
      by (simp add: a get cptr_of_def) (auto simp: miss fun_eq_iff split: option.splits)
  qed
qed simp

text \<open>What the variables are after a load.\<close>

definition filled :: "(string \<Rightarrow> string option option) \<Rightarrow> string \<Rightarrow> (string \<times> nat) list \<Rightarrow> (string \<times> nat) list \<Rightarrow> conf_vars \<Rightarrow> conf_vars \<Rightarrow> bool" where
  "filled m mod_name l r vs vs' \<longleftrightarrow>
     (\<forall>(nm, x) \<in> set l. int_at vs' x = int_value m mod_name nm (int_at vs x))
   \<and> (\<forall>x. x \<notin> snd ` set l \<longrightarrow> int_at vs' x = int_at vs x)
   \<and> (\<forall>(nm, x) \<in> set r. buf_at vs' x = put_str (item_value m mod_name nm) (buf_at vs x))
   \<and> (\<forall>x. x \<notin> snd ` set r \<longrightarrow> buf_at vs' x = buf_at vs x)"

lemma find_snd:
  assumes "distinct (map snd l)"
  shows "(nm, x) \<in> set l \<Longrightarrow> List.find (\<lambda>(nm, y). y = x) l = Some (nm, x)"
    and "x \<notin> snd ` set l \<Longrightarrow> List.find (\<lambda>(nm, y). y = x) l = None"
  using assms by (induction l) force+

lemma parse_conf_file_ok:
  assumes "dict_ok d" and "c_strings (dict_map d)" and "readable (dict_map d) mod_name l"
    and "distinct (map snd l)" and "distinct (map snd r)" and "\<forall>(nm, x) \<in> set r. CONF_ITEM_LEN < length (buf_at vs x)"
  shows "\<exists>vs'. parse_conf_file (Some d) (Some mod_name) (Some (int_table l)) (Some (str_table r)) vs = Some (0, vs')
    \<and> filled (dict_map d) mod_name l r vs vs'"
proof -
  let ?i = "\<lambda>x. (case List.find (\<lambda>(nm, y). y = x) l of Some (nm, _) \<Rightarrow> int_value (dict_map d) mod_name nm (int_at vs x) | None \<Rightarrow> int_at vs x)"
  let ?b = "\<lambda>x. (case List.find (\<lambda>(nm, y). y = x) r of Some (nm, _) \<Rightarrow> put_str (item_value (dict_map d) mod_name nm) (buf_at vs x)
      | None \<Rightarrow> buf_at vs x)"
  have "parse_conf_file (Some d) (Some mod_name) (Some (int_table l)) (Some (str_table r)) vs = Some (0, vs\<lparr>int_at := ?i, buf_at := ?b\<rparr>)"
    using int_loop_ok [OF assms(1,3,4), of vs] str_loop_ok [OF assms(1,2,5), of "vs\<lparr>int_at := ?i\<rparr>"] assms(6)
    by (simp add: parse_conf_file_def cong: option.case_cong)
  moreover have "filled (dict_map d) mod_name l r vs (vs\<lparr>int_at := ?i, buf_at := ?b\<rparr>)"
    using find_snd [OF assms(4)] find_snd [OF assms(5)] by (auto simp: filled_def)
  ultimately show ?thesis by blast
qed


definition ex_env :: conf_env where
  "ex_env = \<lparr>fs = (\<lambda>_. Some (items_text [Section ''csf'', Entry ''port'' ''0x50'', Entry ''log'' ''a.log''])),
     new_mem = (True, True, True, True), line_mem = (\<lambda>_. mem_all), before = CHR ''x''\<rparr>"


end
