(* ===== verification/Rbtree.thy ===== *)
theory Rbtree
  imports Prelude
begin

text \<open>
  The red-black trees of \<^verbatim>\<open>include/tree.h\<close> as the pointer structure they are: a root and a
  store that maps the address of an element to its \<^verbatim>\<open>RB_ENTRY\<close>.  A pointer is an address or
  \<^const>\<open>None\<close> for \<^verbatim>\<open>NULL\<close>, and following a null or dangling pointer has no result.  The
  comparison function of the generated code is the parameter \<open>cmp\<close>: the comparison of the
  element that is looked for or inserted with the element at an address.
\<close>

section \<open>The data structure\<close>

datatype rb_color = RB_BLACK | RB_RED

type_synonym ptr = "nat option"

record rb_entry =
  rbe_left :: ptr
  rbe_right :: ptr
  rbe_parent :: ptr
  rbe_color :: rb_color

record rb_tree =
  rbh_root :: ptr
  entries :: "nat \<rightharpoonup> rb_entry"

definition RB_INIT :: "rb_tree \<Rightarrow> rb_tree" where
  "RB_INIT h = h\<lparr>rbh_root := None\<rparr>"

definition RB_EMPTY :: "rb_tree \<Rightarrow> bool" where
  "RB_EMPTY h \<longleftrightarrow> rbh_root h = None"

text \<open>The field accessors, as values and as targets of assignments.\<close>

definition entry :: "rb_tree \<Rightarrow> ptr \<Rightarrow> rb_entry option" where
  "entry h p = Option.bind p (entries h)"

definition RB_LEFT :: "rb_tree \<Rightarrow> ptr \<Rightarrow> ptr option" where
  "RB_LEFT h p = map_option rbe_left (entry h p)"

definition RB_RIGHT :: "rb_tree \<Rightarrow> ptr \<Rightarrow> ptr option" where
  "RB_RIGHT h p = map_option rbe_right (entry h p)"

definition RB_PARENT :: "rb_tree \<Rightarrow> ptr \<Rightarrow> ptr option" where
  "RB_PARENT h p = map_option rbe_parent (entry h p)"

definition RB_COLOR :: "rb_tree \<Rightarrow> ptr \<Rightarrow> rb_color option" where
  "RB_COLOR h p = map_option rbe_color (entry h p)"

definition upd :: "(rb_entry \<Rightarrow> rb_entry) \<Rightarrow> ptr \<Rightarrow> rb_tree \<Rightarrow> rb_tree option" where
  "upd f p h = do { a \<leftarrow> p; e \<leftarrow> entries h a; Some (h\<lparr>entries := (entries h)(a \<mapsto> f e)\<rparr>) }"

abbreviation set_left :: "ptr \<Rightarrow> ptr \<Rightarrow> rb_tree \<Rightarrow> rb_tree option" where
  "set_left p v \<equiv> upd (\<lambda>e. e\<lparr>rbe_left := v\<rparr>) p"
abbreviation set_right :: "ptr \<Rightarrow> ptr \<Rightarrow> rb_tree \<Rightarrow> rb_tree option" where
  "set_right p v \<equiv> upd (\<lambda>e. e\<lparr>rbe_right := v\<rparr>) p"
abbreviation set_parent :: "ptr \<Rightarrow> ptr \<Rightarrow> rb_tree \<Rightarrow> rb_tree option" where
  "set_parent p v \<equiv> upd (\<lambda>e. e\<lparr>rbe_parent := v\<rparr>) p"
abbreviation set_color :: "ptr \<Rightarrow> rb_color \<Rightarrow> rb_tree \<Rightarrow> rb_tree option" where
  "set_color p c \<equiv> upd (\<lambda>e. e\<lparr>rbe_color := c\<rparr>) p"

definition RB_SET :: "ptr \<Rightarrow> ptr \<Rightarrow> rb_tree \<Rightarrow> rb_tree option" where
  "RB_SET elm parent h = do {
     h \<leftarrow> set_parent elm parent h;
     h \<leftarrow> set_right elm None h;
     h \<leftarrow> set_left elm None h;
     set_color elm RB_RED h
   }"

definition RB_SET_BLACKRED :: "ptr \<Rightarrow> ptr \<Rightarrow> rb_tree \<Rightarrow> rb_tree option" where
  "RB_SET_BLACKRED black red h = do { h \<leftarrow> set_color black RB_BLACK h; set_color red RB_RED h }"

section \<open>Rotations\<close>

text \<open>The link from the parent of \<open>elm\<close>, or from the head, to \<open>tmp\<close>.\<close>

definition relink :: "ptr \<Rightarrow> ptr \<Rightarrow> rb_tree \<Rightarrow> rb_tree option" where
  "relink elm tmp h = do {
     p \<leftarrow> RB_PARENT h elm;
     h \<leftarrow> set_parent tmp p h;
     if p \<noteq> None then do {
       l \<leftarrow> RB_LEFT h p;
       if elm = l then set_left p tmp h else set_right p tmp h
     } else Some (h\<lparr>rbh_root := tmp\<rparr>)
   }"

definition RB_ROTATE_LEFT :: "ptr \<Rightarrow> rb_tree \<Rightarrow> rb_tree option" where
  "RB_ROTATE_LEFT elm h = do {
     tmp \<leftarrow> RB_RIGHT h elm;
     l \<leftarrow> RB_LEFT h tmp;
     h \<leftarrow> set_right elm l h;
     h \<leftarrow> (if l \<noteq> None then set_parent l elm h else Some h);
     h \<leftarrow> relink elm tmp h;
     h \<leftarrow> set_left tmp elm h;
     set_parent elm tmp h
   }"

definition RB_ROTATE_RIGHT :: "ptr \<Rightarrow> rb_tree \<Rightarrow> rb_tree option" where
  "RB_ROTATE_RIGHT elm h = do {
     tmp \<leftarrow> RB_LEFT h elm;
     r \<leftarrow> RB_RIGHT h tmp;
     h \<leftarrow> set_left elm r h;
     h \<leftarrow> (if r \<noteq> None then set_parent r elm h else Some h);
     h \<leftarrow> relink elm tmp h;
     h \<leftarrow> set_right tmp elm h;
     set_parent elm tmp h
   }"

section \<open>Insertion\<close>

text \<open>\<^verbatim>\<open>tmp && RB_COLOR(tmp, field) == RB_RED\<close>\<close>

definition is_red :: "rb_tree \<Rightarrow> ptr \<Rightarrow> bool option" where
  "is_red h p = (if p = None then Some False else map_option (\<lambda>c. c = RB_RED) (RB_COLOR h p))"

text \<open>
  The loop of \<^verbatim>\<open>RB_INSERT_COLOR\<close>.  The body ends with a new \<open>elm\<close>: the grandparent after the
  colours were exchanged, the lower one of the two after the rotations.
\<close>

partial_function (option) insert_color_loop :: "ptr \<Rightarrow> rb_tree \<Rightarrow> rb_tree option" where
  "insert_color_loop elm h = do {
     parent \<leftarrow> RB_PARENT h elm;
     red \<leftarrow> is_red h parent;
     if red then do {
       gparent \<leftarrow> RB_PARENT h parent;
       gl \<leftarrow> RB_LEFT h gparent;
       if parent = gl then do {
         tmp \<leftarrow> RB_RIGHT h gparent;
         r \<leftarrow> is_red h tmp;
         if r then do {
           h \<leftarrow> set_color tmp RB_BLACK h;
           h \<leftarrow> RB_SET_BLACKRED parent gparent h;
           insert_color_loop gparent h
         } else do {
           pr \<leftarrow> RB_RIGHT h parent;
           (elm, parent, h) \<leftarrow> (if pr = elm then do { h \<leftarrow> RB_ROTATE_LEFT parent h; Some (parent, elm, h) }
                               else Some (elm, parent, h));
           h \<leftarrow> RB_SET_BLACKRED parent gparent h;
           h \<leftarrow> RB_ROTATE_RIGHT gparent h;
           insert_color_loop elm h
         }
       } else do {
         tmp \<leftarrow> RB_LEFT h gparent;
         r \<leftarrow> is_red h tmp;
         if r then do {
           h \<leftarrow> set_color tmp RB_BLACK h;
           h \<leftarrow> RB_SET_BLACKRED parent gparent h;
           insert_color_loop gparent h
         } else do {
           pl \<leftarrow> RB_LEFT h parent;
           (elm, parent, h) \<leftarrow> (if pl = elm then do { h \<leftarrow> RB_ROTATE_RIGHT parent h; Some (parent, elm, h) }
                               else Some (elm, parent, h));
           h \<leftarrow> RB_SET_BLACKRED parent gparent h;
           h \<leftarrow> RB_ROTATE_LEFT gparent h;
           insert_color_loop elm h
         }
       }
     } else Some h
   }"

definition RB_INSERT_COLOR :: "ptr \<Rightarrow> rb_tree \<Rightarrow> rb_tree option" where
  "RB_INSERT_COLOR elm h = do { h \<leftarrow> insert_color_loop elm h; set_color (rbh_root h) RB_BLACK h }"

text \<open>
  The descent of \<^verbatim>\<open>RB_INSERT\<close>: an element that compares equal, or the last element visited and
  its comparison.
\<close>

partial_function (option) insert_descent :: "(nat \<Rightarrow> int) \<Rightarrow> rb_tree \<Rightarrow> ptr \<Rightarrow> ptr \<Rightarrow> int \<Rightarrow> (ptr \<times> ptr \<times> int) option" where
  "insert_descent cmp h tmp parent cv = (case tmp of
     None \<Rightarrow> Some (None, parent, cv)
   | Some a \<Rightarrow>
       if cmp a < 0 then do { l \<leftarrow> RB_LEFT h tmp; insert_descent cmp h l tmp (cmp a) }
       else if cmp a > 0 then do { r \<leftarrow> RB_RIGHT h tmp; insert_descent cmp h r tmp (cmp a) }
       else Some (tmp, tmp, cmp a))"

definition RB_INSERT :: "(nat \<Rightarrow> int) \<Rightarrow> nat \<Rightarrow> rb_tree \<Rightarrow> (ptr \<times> rb_tree) option" where
  "RB_INSERT cmp elm h = do {
     (tmp, parent, cv) \<leftarrow> insert_descent cmp h (rbh_root h) None 0;
     if tmp \<noteq> None then Some (tmp, h)
     else do {
       h \<leftarrow> RB_SET (Some elm) parent h;
       h \<leftarrow> (if parent \<noteq> None then
               if cv < 0 then set_left parent (Some elm) h else set_right parent (Some elm) h
             else Some (h\<lparr>rbh_root := Some elm\<rparr>));
       h \<leftarrow> RB_INSERT_COLOR (Some elm) h;
       Some (None, h)
     }
   }"

section \<open>Searching and traversal\<close>

partial_function (option) find_loop :: "(nat \<Rightarrow> int) \<Rightarrow> rb_tree \<Rightarrow> ptr \<Rightarrow> ptr option" where
  "find_loop cmp h tmp = (case tmp of
     None \<Rightarrow> Some None
   | Some a \<Rightarrow>
       if cmp a < 0 then do { l \<leftarrow> RB_LEFT h tmp; find_loop cmp h l }
       else if cmp a > 0 then do { r \<leftarrow> RB_RIGHT h tmp; find_loop cmp h r }
       else Some tmp)"

definition RB_FIND :: "(nat \<Rightarrow> int) \<Rightarrow> rb_tree \<Rightarrow> ptr option" where
  "RB_FIND cmp h = find_loop cmp h (rbh_root h)"

partial_function (option) nfind_loop :: "(nat \<Rightarrow> int) \<Rightarrow> rb_tree \<Rightarrow> ptr \<Rightarrow> ptr \<Rightarrow> ptr option" where
  "nfind_loop cmp h tmp res = (case tmp of
     None \<Rightarrow> Some res
   | Some a \<Rightarrow>
       if cmp a < 0 then do { l \<leftarrow> RB_LEFT h tmp; nfind_loop cmp h l tmp }
       else if cmp a > 0 then do { r \<leftarrow> RB_RIGHT h tmp; nfind_loop cmp h r res }
       else Some tmp)"

definition RB_NFIND :: "(nat \<Rightarrow> int) \<Rightarrow> rb_tree \<Rightarrow> ptr option" where
  "RB_NFIND cmp h = nfind_loop cmp h (rbh_root h) None"

partial_function (option) minmax_loop :: "int \<Rightarrow> rb_tree \<Rightarrow> ptr \<Rightarrow> ptr \<Rightarrow> ptr option" where
  "minmax_loop val h tmp parent = (case tmp of
     None \<Rightarrow> Some parent
   | Some a \<Rightarrow>
       if val < 0 then do { l \<leftarrow> RB_LEFT h tmp; minmax_loop val h l tmp }
       else do { r \<leftarrow> RB_RIGHT h tmp; minmax_loop val h r tmp })"

definition RB_MINMAX :: "int \<Rightarrow> rb_tree \<Rightarrow> ptr option" where
  "RB_MINMAX val h = minmax_loop val h (rbh_root h) None"

text \<open>The two loops of \<^verbatim>\<open>RB_NEXT\<close>: down to the left, and up while the element is a right child.\<close>

partial_function (option) leftmost :: "rb_tree \<Rightarrow> ptr \<Rightarrow> ptr option" where
  "leftmost h elm = do {
     l \<leftarrow> RB_LEFT h elm;
     if l \<noteq> None then leftmost h l else Some elm
   }"

partial_function (option) climb :: "rb_tree \<Rightarrow> ptr \<Rightarrow> ptr option" where
  "climb h elm = do {
     p \<leftarrow> RB_PARENT h elm;
     if p \<noteq> None then do {
       r \<leftarrow> RB_RIGHT h p;
       if elm = r then climb h p else Some elm
     } else Some elm
   }"

definition RB_NEXT :: "rb_tree \<Rightarrow> ptr \<Rightarrow> ptr option" where
  "RB_NEXT h elm = do {
     r \<leftarrow> RB_RIGHT h elm;
     if r \<noteq> None then leftmost h r
     else do {
       p \<leftarrow> RB_PARENT h elm;
       pl \<leftarrow> (if p \<noteq> None then do { l \<leftarrow> RB_LEFT h p; Some (elm = l) } else Some False);
       if pl then Some p
       else do { elm \<leftarrow> climb h elm; RB_PARENT h elm }
     }
   }"

end
