(* ===== verification/Rbtree_Rep.thy ===== *)
theory Rbtree_Rep
  imports Rbtree
begin

text \<open>
  The trees that the pointer structure of \<open>Rbtree\<close> holds.  A tree has the addresses of its
  elements and their colours; a path from a place in the tree up to the root is a list of
  frames.  The field updates, the rotations and the descents act on the tree and the path
  around the place they touch.
\<close>

section \<open>Trees and paths\<close>

datatype shape = Lf | Nd shape nat rb_color shape

datatype frame = InL nat rb_color shape | InR shape nat rb_color

fun rt :: "shape \<Rightarrow> ptr" where
  "rt Lf = None"
| "rt (Nd l a c r) = Some a"

fun addrs :: "shape \<Rightarrow> nat list" where
  "addrs Lf = []"
| "addrs (Nd l a c r) = addrs l @ a # addrs r"

fun faddr :: "frame \<Rightarrow> nat" where
  "faddr (InL a c r) = a"
| "faddr (InR l a c) = a"

fun fcol :: "frame \<Rightarrow> rb_color" where
  "fcol (InL a c r) = c"
| "fcol (InR l a c) = c"

fun sibling :: "frame \<Rightarrow> shape" where
  "sibling (InL a c r) = r"
| "sibling (InR l a c) = l"

fun fill :: "frame \<Rightarrow> shape \<Rightarrow> shape" where
  "fill (InL a c r) t = Nd t a c r"
| "fill (InR l a c) t = Nd l a c t"

fun plug :: "frame list \<Rightarrow> shape \<Rightarrow> shape" where
  "plug [] t = t"
| "plug (f # k) t = plug k (fill f t)"

definition up :: "frame list \<Rightarrow> ptr" where
  "up k = (case k of [] \<Rightarrow> None | f # _ \<Rightarrow> Some (faddr f))"

lemma up_simps [simp]: "up [] = None" "up (f # k) = Some (faddr f)"
  by (simp_all add: up_def)

lemma rt_fill [simp]: "rt (fill f t) = Some (faddr f)"
  by (cases f) simp_all

lemma rt_None [simp]: "rt t = None \<longleftrightarrow> t = Lf" "None = rt t \<longleftrightarrow> t = Lf"
  by (cases t; simp)+

lemma rt_in: "rt t = Some a \<Longrightarrow> a \<in> set (addrs t)"
  by (cases t) simp_all

lemma rt_not [simp]: "a \<notin> set (addrs t) \<Longrightarrow> rt t \<noteq> Some a" "a \<notin> set (addrs t) \<Longrightarrow> Some a \<noteq> rt t"
  by (cases t; auto)+

text \<open>The addresses of a path.\<close>

fun kaddrs :: "frame list \<Rightarrow> nat set" where
  "kaddrs [] = {}"
| "kaddrs (f # k) = insert (faddr f) (set (addrs (sibling f))) \<union> kaddrs k"

lemma set_addrs_fill: "set (addrs (fill f t)) = insert (faddr f) (set (addrs (sibling f)) \<union> set (addrs t))"
  by (cases f) auto

lemma set_addrs_plug: "set (addrs (plug k t)) = set (addrs t) \<union> kaddrs k"
  by (induction k arbitrary: t) (auto simp: set_addrs_fill)

text \<open>The addresses to the left and to the right of the place.\<close>

fun before :: "frame list \<Rightarrow> nat list" where
  "before [] = []"
| "before (InL a c r # k) = before k"
| "before (InR l a c # k) = before k @ addrs l @ [a]"

fun after :: "frame list \<Rightarrow> nat list" where
  "after [] = []"
| "after (InL a c r # k) = a # addrs r @ after k"
| "after (InR l a c # k) = after k"

lemma addrs_plug: "addrs (plug k t) = before k @ addrs t @ after k"
proof (induction k arbitrary: t)
  case (Cons f k)
  then show ?case by (cases f) simp_all
qed simp

lemma kaddrs_sides: "kaddrs k = set (before k) \<union> set (after k)"
proof (induction k)
  case (Cons f k)
  then show ?case by (cases f) auto
qed simp

text \<open>No element is in the tree twice.\<close>

fun kdistinct :: "frame list \<Rightarrow> bool" where
  "kdistinct [] = True"
| "kdistinct (f # k) \<longleftrightarrow> faddr f \<notin> set (addrs (sibling f)) \<union> kaddrs k \<and> distinct (addrs (sibling f))
     \<and> set (addrs (sibling f)) \<inter> kaddrs k = {} \<and> kdistinct k"

lemma distinct_fill:
  "distinct (addrs (fill f t)) \<longleftrightarrow> distinct (addrs t) \<and> distinct (addrs (sibling f)) \<and> faddr f \<notin> set (addrs t)
     \<and> faddr f \<notin> set (addrs (sibling f)) \<and> set (addrs t) \<inter> set (addrs (sibling f)) = {}"
  by (cases f) auto

lemma distinct_plug:
  "distinct (addrs (plug k t)) \<longleftrightarrow> distinct (addrs t) \<and> kdistinct k \<and> set (addrs t) \<inter> kaddrs k = {}"
proof (induction k arbitrary: t)
  case (Cons f k)
  then show ?case by (auto simp: distinct_fill set_addrs_fill)
qed simp

section \<open>Representation\<close>

fun rep :: "(nat \<rightharpoonup> rb_entry) \<Rightarrow> ptr \<Rightarrow> shape \<Rightarrow> bool" where
  "rep e p Lf = True"
| "rep e p (Nd l a c r) \<longleftrightarrow> e a = Some \<lparr>rbe_left = rt l, rbe_right = rt r, rbe_parent = p, rbe_color = c\<rparr>
     \<and> rep e (Some a) l \<and> rep e (Some a) r"

fun krep :: "(nat \<rightharpoonup> rb_entry) \<Rightarrow> ptr \<Rightarrow> frame list \<Rightarrow> bool" where
  "krep e q [] = True"
| "krep e q (InL a c r # k) \<longleftrightarrow> e a = Some \<lparr>rbe_left = q, rbe_right = rt r, rbe_parent = up k, rbe_color = c\<rparr>
     \<and> rep e (Some a) r \<and> krep e (Some a) k"
| "krep e q (InR l a c # k) \<longleftrightarrow> e a = Some \<lparr>rbe_left = rt l, rbe_right = q, rbe_parent = up k, rbe_color = c\<rparr>
     \<and> rep e (Some a) l \<and> krep e (Some a) k"

lemma rep_plug: "rep e None (plug k t) \<longleftrightarrow> rep e (up k) t \<and> krep e (rt t) k"
proof (induction k arbitrary: t)
  case (Cons f k)
  then show ?case by (cases f) auto
qed simp

lemma rep_upd [simp]: "a \<notin> set (addrs t) \<Longrightarrow> rep (e(a := x)) p t = rep e p t"
  by (induction t arbitrary: p) auto

lemma krep_upd [simp]: "a \<notin> kaddrs k \<Longrightarrow> krep (e(a := x)) q k = krep e q k"
proof (induction k arbitrary: q)
  case (Cons f k)
  then show ?case by (cases f) (simp_all add: fun_upd_other del: fun_upd_apply)
qed simp

lemma rep_parent:
  "distinct (addrs t) \<Longrightarrow> rep e p t \<Longrightarrow> rt t = Some a \<Longrightarrow> rep (e(a \<mapsto> (the (e a))\<lparr>rbe_parent := q\<rparr>)) q t"
  by (cases t) auto

text \<open>A head holds a tree: the store represents it and no element is in it twice.\<close>

definition tree_at :: "rb_tree \<Rightarrow> shape \<Rightarrow> bool" where
  "tree_at h t \<longleftrightarrow> rbh_root h = rt t \<and> rep (entries h) None t \<and> distinct (addrs t)"

text \<open>A head that holds the tree with \<open>t\<close> at the end of the path \<open>k\<close>.\<close>

lemma tree_at_plug:
  "tree_at h (plug k t) \<longleftrightarrow> rbh_root h = rt (plug k t) \<and> rep (entries h) (up k) t \<and> krep (entries h) (rt t) k
     \<and> distinct (addrs t) \<and> kdistinct k \<and> set (addrs t) \<inter> kaddrs k = {}"
  by (auto simp: tree_at_def rep_plug distinct_plug)

text \<open>The root below a path does not depend on what is there, except for the empty path.\<close>

lemma rt_plug: "rt (plug k t) = (if k = [] then rt t else Some (faddr (last k)))"
  by (induction k arbitrary: t) auto

section \<open>Access below a path\<close>

lemma entry_Some [simp]: "entry h (Some a) = entries h a"
  by (simp add: entry_def)

lemma entry_None [simp]: "entry h None = None"
  by (simp add: entry_def)

lemma upd_simps [simp]:
  "upd f None h = None"
  "upd f (Some a) h = (case entries h a of None \<Rightarrow> None | Some e \<Rightarrow> Some (h\<lparr>entries := (entries h)(a \<mapsto> f e)\<rparr>))"
  by (auto simp: upd_def split: option.splits)

lemmas access_defs = RB_LEFT_def RB_RIGHT_def RB_PARENT_def RB_COLOR_def

lemma focus_access:
  assumes "tree_at h (plug k (Nd l a c r))"
  shows "RB_LEFT h (Some a) = Some (rt l)" "RB_RIGHT h (Some a) = Some (rt r)" "RB_PARENT h (Some a) = Some (up k)"
    "RB_COLOR h (Some a) = Some c"
  using assms by (simp_all add: access_defs tree_at_plug)

definition root_color :: "shape \<Rightarrow> rb_color" where
  "root_color t = (case t of Lf \<Rightarrow> RB_BLACK | Nd l a c r \<Rightarrow> c)"

lemma root_color_simps [simp]: "root_color Lf = RB_BLACK" "root_color (Nd l a c r) = c"
  by (simp_all add: root_color_def)

lemma is_red_rep: "rep (entries h) p t \<Longrightarrow> is_red h (rt t) = Some (root_color t = RB_RED)"
  by (cases t) (simp_all add: is_red_def access_defs)

text \<open>An operation turns the tree of a head into another with the same elements and leaves every other element alone.\<close>

definition turns :: "(rb_tree \<Rightarrow> rb_tree option) \<Rightarrow> rb_tree \<Rightarrow> shape \<Rightarrow> shape \<Rightarrow> bool" where
  "turns f h t t' \<longleftrightarrow> (\<exists>h'. f h = Some h' \<and> tree_at h' t' \<and> (\<forall>b. b \<notin> set (addrs t) \<longrightarrow> entries h' b = entries h b))"

lemma turnsI:
  "f h = Some h' \<Longrightarrow> tree_at h' t' \<Longrightarrow> (\<And>b. b \<notin> set (addrs t) \<Longrightarrow> entries h' b = entries h b) \<Longrightarrow> turns f h t t'"
  by (auto simp: turns_def)

lemma set_color_focus:
  assumes "tree_at h (plug k (Nd l a c r))"
  shows "turns (set_color (Some a) c') h (plug k (Nd l a c r)) (plug k (Nd l a c' r))"
  using assms by (auto simp: turns_def tree_at_plug rt_plug set_addrs_plug)

section \<open>Rotations\<close>

text \<open>The subtree that changes sides gets a new parent.\<close>

lemma adopt:
  assumes "rep (entries h) p t" and "distinct (addrs t)"
  shows "\<exists>h'. (if rt t \<noteq> None then set_parent (rt t) q h else Some h) = Some h' \<and> rbh_root h' = rbh_root h
    \<and> rep (entries h') q t \<and> (\<forall>b. b \<notin> set (addrs t) \<longrightarrow> entries h' b = entries h b)"
  using assms by (cases t) auto

text \<open>The upper one of the two elements is linked to what was above the lower one.\<close>

lemma relink_focus:
  assumes "krep (entries h) (Some x) k" and "kdistinct k" and "entries h x = Some ex" and "rbe_parent ex = up k"
    and "entries h y = Some ey" and "x \<noteq> y" and "x \<notin> kaddrs k" and "y \<notin> kaddrs k"
  shows "\<exists>h'. relink (Some x) (Some y) h = Some h' \<and> rbh_root h' = (if k = [] then Some y else rbh_root h)
    \<and> krep (entries h') (Some y) k \<and> entries h' y = Some (ey\<lparr>rbe_parent := up k\<rparr>)
    \<and> (\<forall>b. b \<noteq> y \<longrightarrow> b \<notin> kaddrs k \<longrightarrow> entries h' b = entries h b)"
proof (cases k)
  case Nil
  then show ?thesis using assms by (simp add: relink_def access_defs)
next
  case (Cons f k')
  then show ?thesis by (cases f) (use assms in \<open>auto simp: relink_def access_defs\<close>)
qed

lemma rep_cong: "(\<And>b. b \<in> set (addrs t) \<Longrightarrow> e' b = e b) \<Longrightarrow> rep e' p t = rep e p t"
  by (induction t arbitrary: p) auto

lemma krep_cong: "(\<And>b. b \<in> kaddrs k \<Longrightarrow> e' b = e b) \<Longrightarrow> krep e' q k = krep e q k"
proof (induction k arbitrary: q)
  case (Cons f k)
  then show ?case by (cases f) (auto cong: rep_cong)
qed simp

text \<open>
  The common part of the rotations: \<open>x\<close> is the element rotated, \<open>y\<close> its child that comes up
  and \<open>m\<close> the subtree between them.
\<close>

lemma rotate_core:
  assumes k: "krep (entries h) (Some x) k" "kdistinct k" "x \<notin> kaddrs k" "y \<notin> kaddrs k" "x \<noteq> y"
    and m: "rep (entries h) p m" "distinct (addrs m)" "x \<notin> set (addrs m)" "y \<notin> set (addrs m)" "set (addrs m) \<inter> kaddrs k = {}"
    and x: "entries h x = Some ex" "rbe_parent ex = up k" "\<And>e. rbe_parent (fx e) = rbe_parent e" and y: "entries h y = Some ey"
  shows "\<exists>h'. do { h \<leftarrow> upd fx (Some x) h; h \<leftarrow> (if rt m \<noteq> None then set_parent (rt m) (Some x) h else Some h);
        h \<leftarrow> relink (Some x) (Some y) h; h \<leftarrow> upd fy (Some y) h; set_parent (Some x) (Some y) h } = Some h'
    \<and> rbh_root h' = (if k = [] then Some y else rbh_root h)
    \<and> entries h' x = Some ((fx ex)\<lparr>rbe_parent := Some y\<rparr>) \<and> entries h' y = Some (fy (ey\<lparr>rbe_parent := up k\<rparr>))
    \<and> rep (entries h') (Some x) m \<and> krep (entries h') (Some y) k
    \<and> (\<forall>b. b \<noteq> x \<longrightarrow> b \<noteq> y \<longrightarrow> b \<notin> set (addrs m) \<union> kaddrs k \<longrightarrow> entries h' b = entries h b)"
proof -
  let ?h1 = "h\<lparr>entries := (entries h)(x \<mapsto> fx ex)\<rparr>"
  have "rep (entries ?h1) p m" using m by simp
  from adopt [OF this m(2), of "Some x"] obtain h2 where h2:
    "(if rt m \<noteq> None then set_parent (rt m) (Some x) ?h1 else Some ?h1) = Some h2" "rbh_root h2 = rbh_root h"
    "rep (entries h2) (Some x) m" "\<And>b. b \<notin> set (addrs m) \<Longrightarrow> entries h2 b = entries ?h1 b" by auto
  have "krep (entries h2) (Some x) k = krep (entries h) (Some x) k"
    by (rule krep_cong) (use h2(4) m(5) k(3) in fastforce)
  then have "krep (entries h2) (Some x) k" using k(1) by simp
  moreover have "entries h2 x = Some (fx ex)" "entries h2 y = Some ey" using h2(4) m(3,4) k(5) y by simp_all
  ultimately obtain h3 where h3: "relink (Some x) (Some y) h2 = Some h3" "rbh_root h3 = (if k = [] then Some y else rbh_root h2)"
    "krep (entries h3) (Some y) k" "entries h3 y = Some (ey\<lparr>rbe_parent := up k\<rparr>)"
    "\<And>b. b \<noteq> y \<Longrightarrow> b \<notin> kaddrs k \<Longrightarrow> entries h3 b = entries h2 b"
    using relink_focus [of h2 x k "fx ex" y ey] k(2-5) x(2,3) by auto
  have ex3: "entries h3 x = Some (fx ex)" using h3(5) [OF k(5,3)] \<open>entries h2 x = Some (fx ex)\<close> by simp
  let ?h4 = "h3\<lparr>entries := (entries h3)(y \<mapsto> fy (ey\<lparr>rbe_parent := up k\<rparr>), x \<mapsto> (fx ex)\<lparr>rbe_parent := Some y\<rparr>)\<rparr>"
  have "rep (entries ?h4) (Some x) m = rep (entries h2) (Some x) m"
    by (rule rep_cong) (use h3(5) m(3-5) in auto)
  then show ?thesis
    using h2(1,2,3,4) h3 ex3 x(1) k(3-5) by (intro exI [of _ ?h4]) auto
qed

text \<open>What the rotations leave, with the subtrees outside of the two elements unchanged.\<close>

lemma rotate_left:
  assumes "tree_at h (plug k (Nd l x c (Nd m y d r)))"
  shows "turns (RB_ROTATE_LEFT (Some x)) h (plug k (Nd l x c (Nd m y d r))) (plug k (Nd (Nd l x c m) y d r))"
proof -
  note a = assms [unfolded tree_at_plug, simplified]
  have off: "b \<noteq> x \<and> b \<noteq> y \<and> b \<notin> set (addrs m) \<union> kaddrs k" if "b \<in> set (addrs l) \<union> set (addrs r)" for b
    using a that by auto
  have "set (addrs m) \<inter> kaddrs k = {}" using a by blast
  from rotate_core [of h x k y "Some y" m
      "\<lparr>rbe_left = rt l, rbe_right = Some y, rbe_parent = up k, rbe_color = c\<rparr>" "\<lambda>e. e\<lparr>rbe_right := rt m\<rparr>"
      "\<lparr>rbe_left = rt m, rbe_right = rt r, rbe_parent = Some x, rbe_color = d\<rparr>" "\<lambda>e. e\<lparr>rbe_left := Some x\<rparr>", OF _ _ _ _ _ _ _ _ _ this]
  obtain h' where h': "RB_ROTATE_LEFT (Some x) h = Some h'" "rbh_root h' = (if k = [] then Some y else rbh_root h)"
    "entries h' x = Some \<lparr>rbe_left = rt l, rbe_right = rt m, rbe_parent = Some y, rbe_color = c\<rparr>"
    "entries h' y = Some \<lparr>rbe_left = Some x, rbe_right = rt r, rbe_parent = up k, rbe_color = d\<rparr>"
    "rep (entries h') (Some x) m" "krep (entries h') (Some y) k"
    "\<And>b. b \<noteq> x \<Longrightarrow> b \<noteq> y \<Longrightarrow> b \<notin> set (addrs m) \<union> kaddrs k \<Longrightarrow> entries h' b = entries h b"
    using a focus_access [OF assms] by (auto simp: RB_ROTATE_LEFT_def RB_LEFT_def simp del: upd_simps not_None_eq rt_None)
  have "rep (entries h') (Some x) l = rep (entries h) (Some x) l" "rep (entries h') (Some y) r = rep (entries h) (Some y) r"
    by (rule rep_cong, use h'(7) off in simp)+
  then have "tree_at h' (plug k (Nd (Nd l x c m) y d r))"
    unfolding tree_at_plug using h' a by (auto simp: rt_plug)
  then show ?thesis using h'(1,7) by (auto simp: turns_def set_addrs_plug)
qed

lemma rotate_right:
  assumes "tree_at h (plug k (Nd (Nd l y d m) x c r))"
  shows "turns (RB_ROTATE_RIGHT (Some x)) h (plug k (Nd (Nd l y d m) x c r)) (plug k (Nd l y d (Nd m x c r)))"
proof -
  note a = assms [unfolded tree_at_plug, simplified]
  have off: "b \<noteq> x \<and> b \<noteq> y \<and> b \<notin> set (addrs m) \<union> kaddrs k" if "b \<in> set (addrs l) \<union> set (addrs r)" for b
    using a that by auto
  have "set (addrs m) \<inter> kaddrs k = {}" using a by blast
  from rotate_core [of h x k y "Some y" m
      "\<lparr>rbe_left = Some y, rbe_right = rt r, rbe_parent = up k, rbe_color = c\<rparr>" "\<lambda>e. e\<lparr>rbe_left := rt m\<rparr>"
      "\<lparr>rbe_left = rt l, rbe_right = rt m, rbe_parent = Some x, rbe_color = d\<rparr>" "\<lambda>e. e\<lparr>rbe_right := Some x\<rparr>", OF _ _ _ _ _ _ _ _ _ this]
  obtain h' where h': "RB_ROTATE_RIGHT (Some x) h = Some h'" "rbh_root h' = (if k = [] then Some y else rbh_root h)"
    "entries h' x = Some \<lparr>rbe_left = rt m, rbe_right = rt r, rbe_parent = Some y, rbe_color = c\<rparr>"
    "entries h' y = Some \<lparr>rbe_left = rt l, rbe_right = Some x, rbe_parent = up k, rbe_color = d\<rparr>"
    "rep (entries h') (Some x) m" "krep (entries h') (Some y) k"
    "\<And>b. b \<noteq> x \<Longrightarrow> b \<noteq> y \<Longrightarrow> b \<notin> set (addrs m) \<union> kaddrs k \<Longrightarrow> entries h' b = entries h b"
    using a focus_access [OF assms] by (auto simp: RB_ROTATE_RIGHT_def RB_RIGHT_def simp del: upd_simps not_None_eq rt_None)
  have "rep (entries h') (Some y) l = rep (entries h) (Some y) l" "rep (entries h') (Some x) r = rep (entries h) (Some x) r"
    by (rule rep_cong, use h'(7) off in simp)+
  then have "tree_at h' (plug k (Nd l y d (Nd m x c r)))"
    unfolding tree_at_plug using h' a by (auto simp: rt_plug)
  then show ?thesis using h'(1,7) by (auto simp: turns_def set_addrs_plug)
qed

end
