(* ===== verification/Rbtree_Insert.thy ===== *)
theory Rbtree_Insert
  imports Rbtree_Rep
begin

text \<open>
  \<^verbatim>\<open>RB_INSERT_COLOR\<close> on trees: the loop computes \<open>rebalance\<close>, which keeps the order of the
  elements and restores the red-black invariants.
\<close>

section \<open>The loop on trees\<close>

definition paint :: "rb_color \<Rightarrow> shape \<Rightarrow> shape" where
  "paint c t = (case t of Lf \<Rightarrow> Lf | Nd l a _ r \<Rightarrow> Nd l a c r)"

lemma paint_simps [simp]: "paint c Lf = Lf" "paint c (Nd l a d r) = Nd l a c r"
  by (simp_all add: paint_def)

text \<open>The tree at the end of the path is red; \<open>f\<close> is its parent and \<open>g\<close> its grandparent.\<close>

fun rebalance :: "frame list \<Rightarrow> shape \<Rightarrow> shape" where
  "rebalance (f # g # k) t = (if fcol f = RB_BLACK then plug (f # g # k) t
     else case g of
       InL ga gc u \<Rightarrow>
         if root_color u = RB_RED then rebalance k (Nd (paint RB_BLACK (fill f t)) ga RB_RED (paint RB_BLACK u))
         else (case (f, t) of
             (InR s p pc, Nd l a c r) \<Rightarrow> plug k (Nd (Nd s p pc l) a RB_BLACK (Nd r ga RB_RED u))
           | (InR s p pc, Lf) \<Rightarrow> plug (f # g # k) t
           | (InL p pc s, _) \<Rightarrow> plug k (Nd t p RB_BLACK (Nd s ga RB_RED u)))
     | InR u ga gc \<Rightarrow>
         if root_color u = RB_RED then rebalance k (Nd (paint RB_BLACK u) ga RB_RED (paint RB_BLACK (fill f t)))
         else (case (f, t) of
             (InL p pc s, Nd l a c r) \<Rightarrow> plug k (Nd (Nd u ga RB_RED l) a RB_BLACK (Nd r p pc s))
           | (InL p pc s, Lf) \<Rightarrow> plug (f # g # k) t
           | (InR s p pc, _) \<Rightarrow> plug k (Nd (Nd u ga RB_RED s) p RB_BLACK t)))"
| "rebalance [] t = t"
| "rebalance [f] t = fill f t"

lemma turns_bind:
  assumes "turns f h t t'" and "\<And>h'. tree_at h' t' \<Longrightarrow> turns g h' t' t''" and "set (addrs t') = set (addrs t)"
  shows "turns (\<lambda>h. Option.bind (f h) g) h t t''"
proof -
  obtain h1 where h1: "f h = Some h1" "tree_at h1 t'" "\<And>b. b \<notin> set (addrs t) \<Longrightarrow> entries h1 b = entries h b"
    using assms(1) by (auto simp: turns_def)
  obtain h2 where "g h1 = Some h2" "tree_at h2 t''" "\<And>b. b \<notin> set (addrs t) \<Longrightarrow> entries h2 b = entries h1 b"
    using assms(2) [OF h1(2)] assms(3) by (auto simp: turns_def)
  then show ?thesis using h1 by (auto simp: turns_def)
qed

lemma turns_refl: "tree_at h t \<Longrightarrow> turns Some h t t"
  by (simp add: turns_def)

text \<open>Colours seen from the end of a path.\<close>

lemma is_red_focus: "tree_at h (plug k t) \<Longrightarrow> is_red h (rt t) = Some (root_color t = RB_RED)"
  by (auto simp: tree_at_plug intro: is_red_rep)

lemma paint_focus:
  assumes "tree_at h (plug k t)" and "t \<noteq> Lf"
  shows "turns (set_color (rt t) c) h (plug k t) (plug k (paint c t))"
  using assms set_color_focus by (cases t) auto

fun fpaint :: "rb_color \<Rightarrow> frame \<Rightarrow> frame" where
  "fpaint c (InL a d r) = InL a c r"
| "fpaint c (InR l a d) = InR l a c"

lemma addrs_paint [simp]: "addrs (paint c t) = addrs t"
  by (cases t) simp_all

lemma fpaint_simps [simp]: "faddr (fpaint c f) = faddr f" "sibling (fpaint c f) = sibling f" "fcol (fpaint c f) = c"
  by (cases f; simp)+

lemma paint_fill [simp]: "paint c (fill f t) = fill (fpaint c f) t"
  by (cases f) simp_all

lemma fill_not_Lf [simp]: "fill f t \<noteq> Lf"
  by (cases f) simp_all

lemma root_color_fill [simp]: "root_color (fill f t) = fcol f"
  by (cases f) simp_all

text \<open>The parent becomes black and the grandparent red.\<close>

lemma blackred_focus:
  assumes "tree_at h (plug k (fill g t))" and "t \<noteq> Lf"
  shows "turns (RB_SET_BLACKRED (rt t) (Some (faddr g))) h (plug k (fill g t)) (plug k (fill (fpaint RB_RED g) (paint RB_BLACK t)))"
proof -
  have 1: "turns (set_color (rt t) RB_BLACK) h (plug (g # k) t) (plug (g # k) (paint RB_BLACK t))"
    using assms paint_focus [of h "g # k" t] by simp
  have 2: "turns (set_color (Some (faddr g)) RB_RED) h' (plug (g # k) (paint RB_BLACK t)) (plug k (fill (fpaint RB_RED g) (paint RB_BLACK t)))"
    if "tree_at h' (plug (g # k) (paint RB_BLACK t))" for h'
    using paint_focus [of h' k "fill g (paint RB_BLACK t)" RB_RED] that by simp
  show ?thesis
    using turns_bind [OF 1 2] by (simp add: set_addrs_plug set_addrs_fill RB_SET_BLACKRED_def [abs_def])
qed

lemma loop_stops:
  assumes "tree_at h (plug k t)" and "t \<noteq> Lf" and "case k of [] \<Rightarrow> True | f # _ \<Rightarrow> fcol f = RB_BLACK"
  shows "insert_color_loop (rt t) h = Some h"
proof -
  have p: "RB_PARENT h (rt t) = Some (up k)" using assms(1,2) focus_access(3) by (cases t) auto
  have "is_red h (up k) = Some False"
  proof (cases k)
    case (Cons f k')
    then show ?thesis using is_red_focus [of h k' "fill f t"] assms(1,3) by simp
  qed (simp add: is_red_def)
  then show ?thesis using p by (subst insert_color_loop.simps) simp
qed


text \<open>A red uncle: the colours change and the loop goes on two levels up.\<close>

lemma recolor_left:
  assumes "tree_at h (plug k (Nd P ga gc u))" and "P \<noteq> Lf" and "u \<noteq> Lf"
    and "\<And>h'. tree_at h' (plug k (Nd (paint RB_BLACK P) ga RB_RED (paint RB_BLACK u))) \<Longrightarrow>
      turns (insert_color_loop (Some ga)) h' (plug k (Nd (paint RB_BLACK P) ga RB_RED (paint RB_BLACK u))) t'"
  shows "turns (\<lambda>h. do { h \<leftarrow> set_color (rt u) RB_BLACK h; h \<leftarrow> RB_SET_BLACKRED (rt P) (Some ga) h; insert_color_loop (Some ga) h })
    h (plug k (Nd P ga gc u)) t'"
proof (rule turns_bind [OF _ turns_bind [OF _ assms(4)]])
  show "turns (set_color (rt u) RB_BLACK) h (plug k (Nd P ga gc u)) (plug k (Nd P ga gc (paint RB_BLACK u)))"
    using paint_focus [of h "InR P ga gc # k" u] assms by simp
  show "turns (RB_SET_BLACKRED (rt P) (Some ga)) h' (plug k (Nd P ga gc (paint RB_BLACK u)))
      (plug k (Nd (paint RB_BLACK P) ga RB_RED (paint RB_BLACK u)))" if "tree_at h' (plug k (Nd P ga gc (paint RB_BLACK u)))" for h'
    using blackred_focus [of h' k "InL ga gc (paint RB_BLACK u)" P] assms(2) that by simp
qed (simp_all add: set_addrs_plug)

lemma recolor_right:
  assumes "tree_at h (plug k (Nd u ga gc P))" and "P \<noteq> Lf" and "u \<noteq> Lf"
    and "\<And>h'. tree_at h' (plug k (Nd (paint RB_BLACK u) ga RB_RED (paint RB_BLACK P))) \<Longrightarrow>
      turns (insert_color_loop (Some ga)) h' (plug k (Nd (paint RB_BLACK u) ga RB_RED (paint RB_BLACK P))) t'"
  shows "turns (\<lambda>h. do { h \<leftarrow> set_color (rt u) RB_BLACK h; h \<leftarrow> RB_SET_BLACKRED (rt P) (Some ga) h; insert_color_loop (Some ga) h })
    h (plug k (Nd u ga gc P)) t'"
proof (rule turns_bind [OF _ turns_bind [OF _ assms(4)]])
  show "turns (set_color (rt u) RB_BLACK) h (plug k (Nd u ga gc P)) (plug k (Nd (paint RB_BLACK u) ga gc P))"
    using paint_focus [of h "InL ga gc P # k" u] assms by simp
  show "turns (RB_SET_BLACKRED (rt P) (Some ga)) h' (plug k (Nd (paint RB_BLACK u) ga gc P))
      (plug k (Nd (paint RB_BLACK u) ga RB_RED (paint RB_BLACK P)))" if "tree_at h' (plug k (Nd (paint RB_BLACK u) ga gc P))" for h'
    using blackred_focus [of h' k "InR (paint RB_BLACK u) ga gc" P] assms(2) that by simp
qed (simp_all add: set_addrs_plug)

text \<open>A black uncle: a rotation of the grandparent, after which the loop stops.\<close>

lemma rotate_stop_right:
  assumes "tree_at h (plug k (Nd (Nd t p pc s) ga gc u))" and "t \<noteq> Lf"
  shows "turns (\<lambda>h. do { h \<leftarrow> RB_SET_BLACKRED (Some p) (Some ga) h; h \<leftarrow> RB_ROTATE_RIGHT (Some ga) h; insert_color_loop (rt t) h })
    h (plug k (Nd (Nd t p pc s) ga gc u)) (plug k (Nd t p RB_BLACK (Nd s ga RB_RED u)))"
proof (rule turns_bind [OF _ turns_bind])
  show "turns (RB_SET_BLACKRED (Some p) (Some ga)) h (plug k (Nd (Nd t p pc s) ga gc u)) (plug k (Nd (Nd t p RB_BLACK s) ga RB_RED u))"
    using blackred_focus [of h k "InL ga gc u" "Nd t p pc s"] assms(1) by simp
  show "turns (RB_ROTATE_RIGHT (Some ga)) h' (plug k (Nd (Nd t p RB_BLACK s) ga RB_RED u)) (plug k (Nd t p RB_BLACK (Nd s ga RB_RED u)))"
    if "tree_at h' (plug k (Nd (Nd t p RB_BLACK s) ga RB_RED u))" for h'
    using rotate_right [OF that] .
  show "turns (insert_color_loop (rt t)) h' (plug k (Nd t p RB_BLACK (Nd s ga RB_RED u))) (plug k (Nd t p RB_BLACK (Nd s ga RB_RED u)))"
    if "tree_at h' (plug k (Nd t p RB_BLACK (Nd s ga RB_RED u)))" for h'
    using loop_stops [of h' "InL p RB_BLACK (Nd s ga RB_RED u) # k" t] assms(2) that by (simp add: turns_def)
qed (simp_all add: set_addrs_plug Un_assoc)

lemma rotate_stop_left:
  assumes "tree_at h (plug k (Nd u ga gc (Nd s p pc t)))" and "t \<noteq> Lf"
  shows "turns (\<lambda>h. do { h \<leftarrow> RB_SET_BLACKRED (Some p) (Some ga) h; h \<leftarrow> RB_ROTATE_LEFT (Some ga) h; insert_color_loop (rt t) h })
    h (plug k (Nd u ga gc (Nd s p pc t))) (plug k (Nd (Nd u ga RB_RED s) p RB_BLACK t))"
proof (rule turns_bind [OF _ turns_bind])
  show "turns (RB_SET_BLACKRED (Some p) (Some ga)) h (plug k (Nd u ga gc (Nd s p pc t))) (plug k (Nd u ga RB_RED (Nd s p RB_BLACK t)))"
    using blackred_focus [of h k "InR u ga gc" "Nd s p pc t"] assms(1) by simp
  show "turns (RB_ROTATE_LEFT (Some ga)) h' (plug k (Nd u ga RB_RED (Nd s p RB_BLACK t))) (plug k (Nd (Nd u ga RB_RED s) p RB_BLACK t))"
    if "tree_at h' (plug k (Nd u ga RB_RED (Nd s p RB_BLACK t)))" for h'
    using rotate_left [OF that] .
  show "turns (insert_color_loop (rt t)) h' (plug k (Nd (Nd u ga RB_RED s) p RB_BLACK t)) (plug k (Nd (Nd u ga RB_RED s) p RB_BLACK t))"
    if "tree_at h' (plug k (Nd (Nd u ga RB_RED s) p RB_BLACK t))" for h'
    using loop_stops [of h' "InR (Nd u ga RB_RED s) p RB_BLACK # k" t] assms(2) that by (simp add: turns_def)
qed (auto simp: set_addrs_plug)


text \<open>One round of the loop below a red parent, by the side of the parent.\<close>

lemma loop_left:
  assumes h: "tree_at h (plug k (Nd P ga gc u))" and P: "P = fill f t" "fcol f = RB_RED" and t: "t \<noteq> Lf"
  shows "insert_color_loop (rt t) h =
    (if root_color u = RB_RED then do { h \<leftarrow> set_color (rt u) RB_BLACK h; h \<leftarrow> RB_SET_BLACKRED (rt P) (Some ga) h; insert_color_loop (Some ga) h }
     else case f of
       InL p pc s \<Rightarrow> do { h \<leftarrow> RB_SET_BLACKRED (Some p) (Some ga) h; h \<leftarrow> RB_ROTATE_RIGHT (Some ga) h; insert_color_loop (rt t) h }
     | InR s p pc \<Rightarrow> do { h \<leftarrow> RB_ROTATE_LEFT (Some p) h; h \<leftarrow> RB_SET_BLACKRED (rt t) (Some ga) h;
         h \<leftarrow> RB_ROTATE_RIGHT (Some ga) h; insert_color_loop (Some p) h })"
proof -
  have d: "distinct (addrs P)" using h by (simp add: tree_at_plug)
  obtain l a c r where T: "t = Nd l a c r" using t by (cases t) auto
  have 1: "RB_PARENT h (rt t) = Some (Some (faddr f))"
    using focus_access(3) [of h "f # InL ga gc u # k" l a c r] h P(1) T by simp
  have 2: "is_red h (Some (faddr f)) = Some True"
    using is_red_focus [of h "InL ga gc u # k" P] h P by simp
  have 7: "RB_PARENT h (Some (faddr f)) = Some (Some ga)"
    by (cases f) (use focus_access(3) [of h "InL ga gc u # k"] h P in simp_all)
  have 3: "RB_LEFT h (Some ga) = Some (Some (faddr f))" "RB_RIGHT h (Some ga) = Some (rt u)"
    using focus_access [OF h] P(1) by simp_all
  have 4: "is_red h (rt u) = Some (root_color u = RB_RED)" using is_red_focus [of h "InR P ga gc # k" u] h by simp
  have 5: "RB_RIGHT h (Some (faddr f)) = Some (case f of InL p pc s \<Rightarrow> rt s | InR s p pc \<Rightarrow> rt t)"
    by (cases f) (use focus_access(2) [of h "InL ga gc u # k"] h P in simp_all)
  have 6: "rt s \<noteq> rt t" if "f = InL p pc s" for p pc s using d P(1) that T by auto
  show ?thesis using 1 2 3 4 5 6 7 P by (subst insert_color_loop.simps) (auto split: frame.splits)
qed

lemma loop_right:
  assumes h: "tree_at h (plug k (Nd u ga gc P))" and P: "P = fill f t" "fcol f = RB_RED" and t: "t \<noteq> Lf"
  shows "insert_color_loop (rt t) h =
    (if root_color u = RB_RED then do { h \<leftarrow> set_color (rt u) RB_BLACK h; h \<leftarrow> RB_SET_BLACKRED (rt P) (Some ga) h; insert_color_loop (Some ga) h }
     else case f of
       InR s p pc \<Rightarrow> do { h \<leftarrow> RB_SET_BLACKRED (Some p) (Some ga) h; h \<leftarrow> RB_ROTATE_LEFT (Some ga) h; insert_color_loop (rt t) h }
     | InL p pc s \<Rightarrow> do { h \<leftarrow> RB_ROTATE_RIGHT (Some p) h; h \<leftarrow> RB_SET_BLACKRED (rt t) (Some ga) h;
         h \<leftarrow> RB_ROTATE_LEFT (Some ga) h; insert_color_loop (Some p) h })"
proof -
  have d: "distinct (addrs (Nd u ga gc P))" using h by (simp add: tree_at_plug)
  obtain l a c r where T: "t = Nd l a c r" using t by (cases t) auto
  have 1: "RB_PARENT h (rt t) = Some (Some (faddr f))"
    using focus_access(3) [of h "f # InR u ga gc # k" l a c r] h P(1) T by simp
  have 2: "is_red h (Some (faddr f)) = Some True"
    using is_red_focus [of h "InR u ga gc # k" P] h P by simp
  have 7: "RB_PARENT h (Some (faddr f)) = Some (Some ga)"
    by (cases f) (use focus_access(3) [of h "InR u ga gc # k"] h P in simp_all)
  have 3: "RB_LEFT h (Some ga) = Some (rt u)" using focus_access [OF h] by simp
  have 8: "Some (faddr f) \<noteq> rt u" using P(1) d by (cases f; cases u) auto
  have 4: "is_red h (rt u) = Some (root_color u = RB_RED)" using is_red_focus [of h "InL ga gc P # k" u] h by simp
  have 5: "RB_LEFT h (Some (faddr f)) = Some (case f of InR s p pc \<Rightarrow> rt s | InL p pc s \<Rightarrow> rt t)"
    by (cases f) (use focus_access(1) [of h "InR u ga gc # k"] h P in simp_all)
  have 6: "rt s \<noteq> rt t" if "f = InR s p pc" for p pc s using d P(1) that T by auto
  show ?thesis using 1 2 3 4 5 6 7 8 P by (subst insert_color_loop.simps) (auto split: frame.splits)
qed

lemma double_left:
  assumes "tree_at h (plug k (Nd (Nd s p pc (Nd l a c r)) ga gc u))"
  shows "turns (\<lambda>h. do { h \<leftarrow> RB_ROTATE_LEFT (Some p) h; h \<leftarrow> RB_SET_BLACKRED (Some a) (Some ga) h;
         h \<leftarrow> RB_ROTATE_RIGHT (Some ga) h; insert_color_loop (Some p) h })
    h (plug k (Nd (Nd s p pc (Nd l a c r)) ga gc u)) (plug k (Nd (Nd s p pc l) a RB_BLACK (Nd r ga RB_RED u)))"
proof (rule turns_bind)
  show "turns (RB_ROTATE_LEFT (Some p)) h (plug k (Nd (Nd s p pc (Nd l a c r)) ga gc u)) (plug k (Nd (Nd (Nd s p pc l) a c r) ga gc u))"
    using rotate_left [of h "InL ga gc u # k"] assms by simp
qed (use rotate_stop_right [of _ k "Nd s p pc l" a c r ga gc u] in \<open>auto simp: set_addrs_plug\<close>)

lemma double_right:
  assumes "tree_at h (plug k (Nd u ga gc (Nd (Nd l a c r) p pc s)))"
  shows "turns (\<lambda>h. do { h \<leftarrow> RB_ROTATE_RIGHT (Some p) h; h \<leftarrow> RB_SET_BLACKRED (Some a) (Some ga) h;
         h \<leftarrow> RB_ROTATE_LEFT (Some ga) h; insert_color_loop (Some p) h })
    h (plug k (Nd u ga gc (Nd (Nd l a c r) p pc s))) (plug k (Nd (Nd u ga RB_RED l) a RB_BLACK (Nd r p pc s)))"
proof (rule turns_bind)
  show "turns (RB_ROTATE_RIGHT (Some p)) h (plug k (Nd u ga gc (Nd (Nd l a c r) p pc s))) (plug k (Nd u ga gc (Nd l a c (Nd r p pc s))))"
    using rotate_right [of h "InR u ga gc # k"] assms by simp
qed (use rotate_stop_left [of _ k u ga gc l a c "Nd r p pc s"] in \<open>auto simp: set_addrs_plug\<close>)

lemma round_left:
  assumes h: "tree_at h (plug (f # InL ga gc u # k) t)" and red: "fcol f = RB_RED" and t: "t \<noteq> Lf"
    and X: "X = Nd (paint RB_BLACK (fill f t)) ga RB_RED (paint RB_BLACK u)"
    and IH: "\<And>h'. root_color u = RB_RED \<Longrightarrow> tree_at h' (plug k X) \<Longrightarrow> turns (insert_color_loop (rt X)) h' (plug k X) (rebalance k X)"
  shows "turns (insert_color_loop (rt t)) h (plug (f # InL ga gc u # k) t) (rebalance (f # InL ga gc u # k) t)"
proof -
  have h': "tree_at h (plug k (Nd (fill f t) ga gc u))" using h by simp
  note eq = loop_left [OF h' refl red t]
  show ?thesis
  proof (cases "root_color u = RB_RED")
    case True
    then have u: "u \<noteq> Lf" by auto
    show ?thesis using recolor_left [OF h' _ u, of "rebalance k X"] IH [OF True] eq True red X by (simp add: turns_def)
  next
    case black: False
    show ?thesis
    proof (cases f)
      case (InL p pc s)
      then show ?thesis using rotate_stop_right [of h k t p pc s ga gc u] h' t black red eq by (simp add: turns_def)
    next
      case (InR s p pc)
      obtain l a c r where "t = Nd l a c r" using t by (cases t) auto
      then show ?thesis using double_left [of h k s p pc l a c r ga gc u] h' black red eq InR by (simp add: turns_def)
    qed
  qed
qed

lemma round_right:
  assumes h: "tree_at h (plug (f # InR u ga gc # k) t)" and red: "fcol f = RB_RED" and t: "t \<noteq> Lf"
    and X: "X = Nd (paint RB_BLACK u) ga RB_RED (paint RB_BLACK (fill f t))"
    and IH: "\<And>h'. root_color u = RB_RED \<Longrightarrow> tree_at h' (plug k X) \<Longrightarrow> turns (insert_color_loop (rt X)) h' (plug k X) (rebalance k X)"
  shows "turns (insert_color_loop (rt t)) h (plug (f # InR u ga gc # k) t) (rebalance (f # InR u ga gc # k) t)"
proof -
  have h': "tree_at h (plug k (Nd u ga gc (fill f t)))" using h by simp
  note eq = loop_right [OF h' refl red t]
  show ?thesis
  proof (cases "root_color u = RB_RED")
    case True
    then have u: "u \<noteq> Lf" by auto
    show ?thesis using recolor_right [OF h' _ u, of "rebalance k X"] IH [OF True] eq True red X by (simp add: turns_def)
  next
    case black: False
    show ?thesis
    proof (cases f)
      case (InR s p pc)
      then show ?thesis using rotate_stop_left [of h k u ga gc s p pc t] h' t black red eq by (simp add: turns_def)
    next
      case (InL p pc s)
      obtain l a c r where "t = Nd l a c r" using t by (cases t) auto
      then show ?thesis using double_right [of h k u ga gc l a c r p pc s] h' black red eq InL by (simp add: turns_def)
    qed
  qed
qed

lemma insert_color_loop_ok:
  assumes "tree_at h (plug k t)" and "t \<noteq> Lf" and "k \<noteq> [] \<Longrightarrow> fcol (last k) = RB_BLACK"
  shows "turns (insert_color_loop (rt t)) h (plug k t) (rebalance k t)"
  using assms
proof (induction k t arbitrary: h rule: rebalance.induct)
  case (1 f g k t)
  have top: "k \<noteq> [] \<Longrightarrow> fcol (last k) = RB_BLACK" using "1.prems"(3) by simp
  show ?case
  proof (cases "fcol f = RB_BLACK")
    case True
    then show ?thesis using loop_stops [OF "1.prems"(1,2)] "1.prems"(1) by (simp add: turns_def)
  next
    case False
    then have red: "fcol f = RB_RED" by (cases "fcol f") simp_all
    show ?thesis
    proof (cases g)
      case (InL ga gc u)
      show ?thesis unfolding InL
        by (rule round_left [OF _ red "1.prems"(2) refl]) (use "1.prems"(1) "1.IH"(1) [OF False InL] top InL in auto)
    next
      case (InR u ga gc)
      show ?thesis unfolding InR
        by (rule round_right [OF _ red "1.prems"(2) refl]) (use "1.prems"(1) "1.IH"(2) [OF False InR] top InR in auto)
    qed
  qed
next
  case (2 t)
  then show ?case using loop_stops [of h "[]" t] by (simp add: turns_def)
next
  case (3 f t)
  then show ?case using loop_stops [of h "[f]" t] by (simp add: turns_def)
qed

end
