(* ===== verification/Rbtree_Spec.thy ===== *)
theory Rbtree_Spec
  imports Rbtree_Insert
begin

text \<open>
  What the red-black tree functions do: the invariants of the tree, insertion and search by
  key, and the traversal in the order of the keys.
\<close>

section \<open>The red-black invariants\<close>

fun bheight :: "shape \<Rightarrow> nat" where
  "bheight Lf = 0"
| "bheight (Nd l a c r) = bheight l + (if c = RB_BLACK then 1 else 0)"

fun balanced :: "shape \<Rightarrow> bool" where
  "balanced Lf = True"
| "balanced (Nd l a c r) \<longleftrightarrow> bheight l = bheight r \<and> balanced l \<and> balanced r"

fun no_redred :: "shape \<Rightarrow> bool" where
  "no_redred Lf = True"
| "no_redred (Nd l a c r) \<longleftrightarrow> (c = RB_RED \<longrightarrow> root_color l = RB_BLACK \<and> root_color r = RB_BLACK) \<and> no_redred l \<and> no_redred r"

definition red_black :: "shape \<Rightarrow> bool" where
  "red_black t \<longleftrightarrow> root_color t = RB_BLACK \<and> balanced t \<and> no_redred t"

text \<open>The path around a place where a tree of black height \<open>n\<close> fits.\<close>

fun path_ok :: "frame list \<Rightarrow> nat \<Rightarrow> bool" where
  "path_ok [] n = True"
| "path_ok (f # k) n \<longleftrightarrow> balanced (sibling f) \<and> no_redred (sibling f) \<and> bheight (sibling f) = n
     \<and> (fcol f = RB_RED \<longrightarrow> root_color (sibling f) = RB_BLACK \<and> k \<noteq> [] \<and> fcol (hd k) = RB_BLACK)
     \<and> path_ok k (n + (if fcol f = RB_BLACK then 1 else 0))"

lemma not_red [simp]: "c \<noteq> RB_RED \<longleftrightarrow> c = RB_BLACK"
  by (cases c) simp_all

lemma fill_props:
  "bheight (sibling f) = bheight t \<Longrightarrow> bheight (fill f t) = bheight t + (if fcol f = RB_BLACK then 1 else 0)"
  "balanced (fill f t) \<longleftrightarrow> bheight (sibling f) = bheight t \<and> balanced t \<and> balanced (sibling f)"
  "no_redred (fill f t) \<longleftrightarrow> (fcol f = RB_RED \<longrightarrow> root_color t = RB_BLACK \<and> root_color (sibling f) = RB_BLACK)
     \<and> no_redred t \<and> no_redred (sibling f)"
  by (cases f; auto)+

lemma red_black_plug:
  "red_black (plug k t) \<longleftrightarrow> path_ok k (bheight t) \<and> balanced t \<and> no_redred t
     \<and> (root_color t = RB_RED \<longrightarrow> k \<noteq> [] \<and> fcol (hd k) = RB_BLACK)"
proof (induction k arbitrary: t)
  case Nil
  then show ?case by (cases "root_color t") (auto simp: red_black_def)
next
  case (Cons f k)
  show ?case
  proof (cases "bheight (sibling f) = bheight t")
    case True
    show ?thesis by (auto simp: Cons fill_props(1) [OF True] fill_props(2,3))
  next
    case False
    then show ?thesis by (simp add: Cons fill_props)
  qed
qed

lemma path_ok_last: "path_ok k n \<Longrightarrow> k \<noteq> [] \<Longrightarrow> fcol (last k) = RB_BLACK"
proof (induction k arbitrary: n)
  case (Cons f k)
  then show ?case by (cases "fcol f") (auto split: if_splits)
qed simp

lemma paint_plug: "path_ok k n \<Longrightarrow> k \<noteq> [] \<Longrightarrow> paint RB_BLACK (plug k t) = plug k t"
proof (induction k arbitrary: n t)
  case (Cons f k)
  show ?case
  proof (cases "k = []")
    case True
    then show ?thesis using Cons.prems path_ok_last [OF Cons.prems] by (cases f) auto
  qed (use Cons in auto)
qed simp

text \<open>A tree at a place whose colours fit up to the root being red.\<close>

lemma red_black_paint_plug:
  assumes "path_ok k (bheight t)" and "balanced t" and "no_redred t" and "root_color t = RB_RED \<Longrightarrow> k \<noteq> [] \<Longrightarrow> fcol (hd k) = RB_BLACK"
  shows "red_black (paint RB_BLACK (plug k t))"
proof (cases "k = []")
  case True
  then show ?thesis using assms by (cases t) (auto simp: red_black_def)
next
  case False
  then show ?thesis using paint_plug [OF assms(1) False] assms by (simp add: red_black_plug)
qed

lemma rebalance_red_black:
  assumes "path_ok k (bheight t)" and "balanced t" and "no_redred t" and "root_color t = RB_RED"
  shows "red_black (paint RB_BLACK (rebalance k t))"
  using assms
proof (induction k t rule: rebalance.induct)
  case (1 f g k t)
  show ?case
  proof (cases "fcol f = RB_BLACK")
    case True
    then show ?thesis using red_black_paint_plug [of "f # g # k" t] "1.prems" by simp
  next
    case False
    then have red: "fcol f = RB_RED" by (cases "fcol f") simp_all
    obtain l a r where t: "t = Nd l a RB_RED r" using "1.prems"(4) by (cases t) auto
    have g: "fcol g = RB_BLACK" using "1.prems"(1) red by simp
    show ?thesis
    proof (cases g)
      case (InL ga gc u)
      show ?thesis
      proof (cases "root_color u = RB_RED")
        case True
        obtain ul ua ur where u: "u = Nd ul ua RB_RED ur" using True by (cases u) auto
        have "red_black (paint RB_BLACK (rebalance k (Nd (paint RB_BLACK (fill f t)) ga RB_RED (paint RB_BLACK u))))"
          by (rule "1.IH"(1) [OF False InL True]; cases f) (use "1.prems" InL g red t u in auto)
        then show ?thesis using InL True False by simp
      next
        case black: False
        then show ?thesis
          by (cases f) (use "1.prems" InL g red t in \<open>auto intro!: red_black_paint_plug\<close>)
      qed
    next
      case (InR u ga gc)
      show ?thesis
      proof (cases "root_color u = RB_RED")
        case True
        obtain ul ua ur where u: "u = Nd ul ua RB_RED ur" using True by (cases u) auto
        have "red_black (paint RB_BLACK (rebalance k (Nd (paint RB_BLACK u) ga RB_RED (paint RB_BLACK (fill f t)))))"
          by (rule "1.IH"(2) [OF False InR True]; cases f) (use "1.prems" InR g red t u in auto)
        then show ?thesis using InR True False by simp
      next
        case black: False
        then show ?thesis
          by (cases f) (use "1.prems" InR g red t in \<open>auto intro!: red_black_paint_plug\<close>)
      qed
    qed
  qed
next
  case (2 t)
  then show ?case using red_black_paint_plug [of "[]" t] by simp
next
  case (3 f t)
  then show ?case using red_black_paint_plug [of "[f]" t] by simp
qed

lemma addrs_rebalance: "addrs (rebalance k t) = addrs (plug k t)"
proof (induction k t rule: rebalance.induct)
  case (1 f g k t)
  then show ?case by (cases f; cases g; cases t) (auto simp: addrs_plug split: frame.splits)
qed simp_all


section \<open>Search\<close>

text \<open>The place that a search ends at: a free place, or an element that compares equal.\<close>

fun locate :: "(nat \<Rightarrow> int) \<Rightarrow> shape \<Rightarrow> frame list \<Rightarrow> frame list + nat" where
  "locate cmp Lf k = Inl k"
| "locate cmp (Nd l a c r) k = (if cmp a < 0 then locate cmp l (InL a c r # k)
     else if cmp a > 0 then locate cmp r (InR l a c # k) else Inr a)"

lemma locate_Inl: "locate cmp t k = Inl k' \<Longrightarrow> plug k' Lf = plug k t"
  by (induction t arbitrary: k) (auto split: if_splits)

lemma locate_Inr: "locate cmp t k = Inr a \<Longrightarrow> a \<in> set (addrs t) \<and> cmp a = 0"
  by (induction t arbitrary: k) (auto split: if_splits)

text \<open>The comparison agrees with the order of the elements.\<close>

definition consistent :: "(nat \<Rightarrow> int) \<Rightarrow> nat list \<Rightarrow> bool" where
  "consistent cmp xs \<longleftrightarrow> sorted_wrt (\<lambda>a b. cmp a \<le> 0 \<longrightarrow> cmp b < 0) xs"

lemma consistent_append:
  "consistent cmp (xs @ ys) \<longleftrightarrow> consistent cmp xs \<and> consistent cmp ys \<and> (\<forall>a \<in> set xs. \<forall>b \<in> set ys. cmp a \<le> 0 \<longrightarrow> cmp b < 0)"
  by (simp add: consistent_def sorted_wrt_append)

lemma consistent_Cons:
  "consistent cmp (a # ys) \<longleftrightarrow> consistent cmp ys \<and> (\<forall>b \<in> set ys. cmp a \<le> 0 \<longrightarrow> cmp b < 0)"
  by (auto simp: consistent_def)

lemma locate_missing:
  assumes "consistent cmp (addrs t)" and "locate cmp t k = Inl k'"
    and "\<forall>a \<in> set (before k). cmp a > 0" and "\<forall>a \<in> set (after k). cmp a < 0"
  shows "(\<forall>a \<in> set (addrs t). cmp a \<noteq> 0) \<and> (\<forall>a \<in> set (before k'). cmp a > 0) \<and> (\<forall>a \<in> set (after k'). cmp a < 0)"
  using assms
proof (induction t arbitrary: k)
  case (Nd l a c r)
  have l: "consistent cmp (addrs l)" and r: "consistent cmp (addrs r)"
    and ar: "\<And>b. cmp a \<le> 0 \<Longrightarrow> b \<in> set (addrs r) \<Longrightarrow> cmp b < 0"
    and la: "\<And>b. b \<in> set (addrs l) \<Longrightarrow> cmp b \<le> 0 \<Longrightarrow> cmp a < 0"
    using Nd.prems(1) by (simp_all add: consistent_append consistent_Cons, blast)
  consider "cmp a < 0" | "cmp a > 0" | "cmp a = 0" by linarith
  then show ?case
  proof cases
    case 1
    have af: "\<forall>b \<in> set (after (InL a c r # k)). cmp b < 0" using ar Nd.prems(4) 1 by (simp add: ball_Un)
    have lo: "locate cmp l (InL a c r # k) = Inl k'" using Nd.prems(2) 1 by simp
    have be: "\<forall>b \<in> set (before (InL a c r # k)). cmp b > 0" using Nd.prems(3) by simp
    have "cmp b \<noteq> 0" if "b \<in> set (addrs r)" for b using ar [OF _ that] 1 by linarith
    then show ?thesis using Nd.IH(1) [OF l lo be af] 1 by (simp add: ball_Un)
  next
    case 2
    have pos: "cmp b > 0" if "b \<in> set (addrs l)" for b using la [OF that] 2 by linarith
    have be: "\<forall>b \<in> set (before (InR l a c # k)). cmp b > 0" using Nd.prems(3) pos 2 by auto
    have lo: "locate cmp r (InR l a c # k) = Inl k'" using Nd.prems(2) 2 by simp
    have af: "\<forall>b \<in> set (after (InR l a c # k)). cmp b < 0" using Nd.prems(4) by simp
    have "cmp b \<noteq> 0" if "b \<in> set (addrs l)" for b using pos [OF that] by simp
    then show ?thesis using Nd.IH(2) [OF r lo be af] 2 by (simp add: ball_Un)
  next
    case 3
    then show ?thesis using Nd.prems(2) by simp
  qed
qed simp

lemma find_loop_ok:
  "tree_at h (plug k t) \<Longrightarrow> find_loop cmp h (rt t) = Some (case locate cmp t k of Inl _ \<Rightarrow> None | Inr a \<Rightarrow> Some a)"
proof (induction t arbitrary: k)
  case Lf
  show ?case by (subst find_loop.simps) simp
next
  case (Nd l a c r)
  show ?case using focus_access(1,2) [OF Nd.prems] Nd.IH(1) [of "InL a c r # k"] Nd.IH(2) [of "InR l a c # k"] Nd.prems
    by (subst find_loop.simps) simp
qed

text \<open>The last comparison of the descent tells the side of the free place.\<close>

definition side :: "frame list \<Rightarrow> int \<Rightarrow> bool" where
  "side k cv \<longleftrightarrow> (case k of [] \<Rightarrow> True | InL _ _ _ # _ \<Rightarrow> cv < 0 | InR _ _ _ # _ \<Rightarrow> cv > 0)"

lemma insert_descent_ok:
  assumes "tree_at h (plug k t)" and "side k cv"
  shows "\<exists>cv'. insert_descent cmp h (rt t) (up k) cv =
      Some (case locate cmp t k of Inl k' \<Rightarrow> (None, up k', cv') | Inr a \<Rightarrow> (Some a, Some a, cv'))
    \<and> (\<forall>k'. locate cmp t k = Inl k' \<longrightarrow> side k' cv')"
  using assms
proof (induction t arbitrary: k cv)
  case Lf
  then show ?case by (subst insert_descent.simps) simp
next
  case (Nd l a c r)
  note acc = focus_access(1,2) [OF Nd.prems(1)]
  consider "cmp a < 0" | "cmp a > 0" | "cmp a = 0" by linarith
  then show ?case
  proof cases
    case 1
    then show ?thesis using acc Nd.IH(1) [of "InL a c r # k" "cmp a"] Nd.prems(1)
      by (subst insert_descent.simps) (simp add: side_def)
  next
    case 2
    then show ?thesis using acc Nd.IH(2) [of "InR l a c # k" "cmp a"] Nd.prems(1)
      by (subst insert_descent.simps) (simp add: side_def)
  next
    case 3
    then show ?thesis by (subst insert_descent.simps) simp
  qed
qed

section \<open>Insertion\<close>

text \<open>The new element is linked at the free place.\<close>

definition link_new :: "nat \<Rightarrow> ptr \<Rightarrow> int \<Rightarrow> rb_tree \<Rightarrow> rb_tree option" where
  "link_new elm parent cv h = do {
     h \<leftarrow> RB_SET (Some elm) parent h;
     if parent \<noteq> None then
       if cv < 0 then set_left parent (Some elm) h else set_right parent (Some elm) h
     else Some (h\<lparr>rbh_root := Some elm\<rparr>)
   }"

lemma link_new_ok:
  assumes "tree_at h (plug k Lf)" and "elm \<notin> kaddrs k" and "entries h elm \<noteq> None" and "side k cv"
  shows "\<exists>h'. link_new elm (up k) cv h = Some h' \<and> tree_at h' (plug k (Nd Lf elm RB_RED Lf))
    \<and> (\<forall>b. b \<noteq> elm \<longrightarrow> b \<notin> kaddrs k \<longrightarrow> entries h' b = entries h b)"
proof -
  obtain x where x: "entries h elm = Some x" using assms(3) by blast
  let ?e = "\<lparr>rbe_left = None, rbe_right = None, rbe_parent = up k, rbe_color = RB_RED\<rparr>"
  have set: "RB_SET (Some elm) (up k) h = Some (h\<lparr>entries := (entries h)(elm \<mapsto> ?e)\<rparr>)"
    using x by (cases x) (simp add: RB_SET_def)
  show ?thesis
  proof (cases k)
    case Nil
    then show ?thesis using set assms(1) by (simp add: link_new_def tree_at_def)
  next
    case (Cons f k')
    have "k \<noteq> []" using Cons by simp
    then show ?thesis using assms set Cons
      by (cases f) (auto simp: link_new_def tree_at_plug rt_plug side_def)
  qed
qed

lemma RB_INSERT_link:
  "RB_INSERT cmp elm h = do {
     (tmp, parent, cv) \<leftarrow> insert_descent cmp h (rbh_root h) None 0;
     if tmp \<noteq> None then Some (tmp, h)
     else do { h \<leftarrow> link_new elm parent cv h; h \<leftarrow> RB_INSERT_COLOR (Some elm) h; Some (None, h) }
   }"
  unfolding RB_INSERT_def link_new_def bind_assoc ..

lemma RB_INSERT_new:
  assumes h: "tree_at h t" "red_black t" and elm: "elm \<notin> set (addrs t)" "entries h elm \<noteq> None"
    and k: "locate cmp t [] = Inl k"
  shows "\<exists>h' t'. RB_INSERT cmp elm h = Some (None, h') \<and> tree_at h' t' \<and> red_black t' \<and> addrs t' = before k @ elm # after k
    \<and> (\<forall>b. b \<noteq> elm \<longrightarrow> b \<notin> set (addrs t) \<longrightarrow> entries h' b = entries h b)"
proof -
  have p: "plug k Lf = t" using locate_Inl [OF k] by simp
  then have ks: "kaddrs k = set (addrs t)" using set_addrs_plug [of k Lf] by simp
  obtain cv where cv: "insert_descent cmp h (rbh_root h) None 0 = Some (None, up k, cv)" "side k cv"
    using insert_descent_ok [of h "[]" t 0 cmp] h(1) k by (auto simp: tree_at_def side_def)
  let ?n = "Nd Lf elm RB_RED Lf"
  obtain h1 where h1: "link_new elm (up k) cv h = Some h1" "tree_at h1 (plug k ?n)"
    "\<And>b. b \<noteq> elm \<Longrightarrow> b \<notin> kaddrs k \<Longrightarrow> entries h1 b = entries h b"
    using link_new_ok [of h k elm cv] h(1) p elm ks cv(2) by auto
  have path: "path_ok k (bheight Lf)" using h(2) red_black_plug [of k Lf] p by simp
  obtain h2 where h2: "insert_color_loop (Some elm) h1 = Some h2" "tree_at h2 (rebalance k ?n)"
    "\<And>b. b \<notin> set (addrs (plug k ?n)) \<Longrightarrow> entries h2 b = entries h1 b"
    using insert_color_loop_ok [OF h1(2)] path_ok_last [OF path] by (auto simp: turns_def)
  have ad: "addrs (rebalance k ?n) = before k @ elm # after k" by (simp add: addrs_rebalance addrs_plug)
  then have "rebalance k ?n \<noteq> Lf" by auto
  moreover have "rbh_root h2 = rt (rebalance k ?n)" using h2(2) by (simp add: tree_at_def)
  ultimately obtain h3 where h3: "set_color (rbh_root h2) RB_BLACK h2 = Some h3" "tree_at h3 (paint RB_BLACK (rebalance k ?n))"
    "\<And>b. b \<notin> set (addrs (rebalance k ?n)) \<Longrightarrow> entries h3 b = entries h2 b"
    using paint_focus [of h2 "[]" "rebalance k ?n" RB_BLACK] h2(2) by (auto simp: turns_def)
  have "red_black (paint RB_BLACK (rebalance k ?n))" using rebalance_red_black [of k ?n] path by simp
  moreover have "RB_INSERT cmp elm h = Some (None, h3)"
    using cv(1) h1(1) h2(1) h3(1) by (simp add: RB_INSERT_link RB_INSERT_COLOR_def)
  moreover have "entries h3 b = entries h b" if "b \<noteq> elm" "b \<notin> set (addrs t)" for b
    using that h1(3) h2(3) h3(3) ks ad by (auto simp: set_addrs_plug kaddrs_sides)
  ultimately show ?thesis using h3(2) ad by (intro exI [of _ h3] exI [of _ "paint RB_BLACK (rebalance k ?n)"]) simp
qed


lemma RB_INSERT_old:
  assumes "tree_at h t" and "locate cmp t [] = Inr a"
  shows "RB_INSERT cmp elm h = Some (Some a, h)"
  using insert_descent_ok [of h "[]" t 0 cmp] assms by (auto simp: RB_INSERT_def tree_at_def side_def)

section \<open>Least elements and traversal\<close>

lemma nfind_loop_ok:
  assumes "tree_at h (plug k t)" and "consistent cmp (addrs t)"
  shows "nfind_loop cmp h (rt t) res = Some (case List.find (\<lambda>a. cmp a \<le> 0) (addrs t) of Some a \<Rightarrow> Some a | None \<Rightarrow> res)"
  using assms
proof (induction t arbitrary: k res)
  case Lf
  show ?case by (subst nfind_loop.simps) simp
next
  case (Nd l a c r)
  have l: "consistent cmp (addrs l)" and r: "consistent cmp (addrs r)"
    and la: "\<And>b. b \<in> set (addrs l) \<Longrightarrow> cmp b \<le> 0 \<Longrightarrow> cmp a < 0"
    using Nd.prems(2) by (simp_all add: consistent_append consistent_Cons, blast)
  note acc = focus_access(1,2) [OF Nd.prems(1)]
  note IH = Nd.IH(1) [of "InL a c r # k", OF _ l] Nd.IH(2) [of "InR l a c # k", OF _ r]
  have skip: "List.find (\<lambda>a. cmp a \<le> 0) (addrs l) = None" if "cmp a \<ge> 0"
    using la that by (force simp: find_None_iff)
  have app: "List.find P (xs @ ys) = (case List.find P xs of None \<Rightarrow> List.find P ys | Some x \<Rightarrow> Some x)" for P :: "nat \<Rightarrow> bool" and xs ys
    by (induction xs) auto
  show ?case using acc IH Nd.prems(1) skip
    by (subst nfind_loop.simps) (auto simp: app split: option.splits)
qed

lemma minmax_loop_ok:
  "tree_at h (plug k t) \<Longrightarrow> minmax_loop v h (rt t) p =
    Some (if t = Lf then p else Some (if v < 0 then hd (addrs t) else last (addrs t)))"
proof (induction t arbitrary: k p)
  case Lf
  show ?case by (subst minmax_loop.simps) simp
next
  case (Nd l a c r)
  have "addrs t = [] \<longleftrightarrow> t = Lf" for t by (cases t) simp_all
  then show ?case using focus_access(1,2) [OF Nd.prems] Nd.IH(1) [of "InL a c r # k"] Nd.IH(2) [of "InR l a c # k"] Nd.prems
    by (subst minmax_loop.simps) (auto simp: hd_append)
qed

definition first :: "'a list \<Rightarrow> 'a option" where
  "first xs = (case xs of [] \<Rightarrow> None | x # _ \<Rightarrow> Some x)"

lemma first_simps [simp]: "first [] = None" "first (x # xs) = Some x"
  by (simp_all add: first_def)

lemma first_append: "first (xs @ ys) = (if xs = [] then first ys else first xs)"
  by (cases xs) simp_all

lemma leftmost_ok: "tree_at h (plug k t) \<Longrightarrow> t \<noteq> Lf \<Longrightarrow> leftmost h (rt t) = Some (first (addrs t))"
proof (induction t arbitrary: k)
  case (Nd l a c r)
  have "addrs l = [] \<longleftrightarrow> l = Lf" by (cases l) simp_all
  then show ?case using focus_access(1) [OF Nd.prems(1)] Nd.IH(1) [of "InL a c r # k"] Nd.prems
    by (subst leftmost.simps) (auto simp: first_append)
qed simp

text \<open>The element that \<^verbatim>\<open>climb\<close> stops at has the next element as its parent.\<close>

lemma climb_ok:
  assumes "tree_at h (plug k t)" and "t \<noteq> Lf"
  shows "Option.bind (climb h (rt t)) (RB_PARENT h) = Some (first (after k))"
  using assms
proof (induction k arbitrary: t)
  case Nil
  then have "RB_PARENT h (rt t) = Some None" using focus_access(3) [of h "[]"] by (cases t) auto
  then show ?case by (subst climb.simps) simp
next
  case (Cons f k)
  have p: "RB_PARENT h (rt t) = Some (Some (faddr f))" using focus_access(3) [of h "f # k"] Cons.prems by (cases t) auto
  show ?case
  proof (cases f)
    case (InL a c r)
    have "RB_RIGHT h (Some a) = Some (rt r)" using focus_access(2) [of h k t a c r] Cons.prems InL by simp
    moreover have "rt t \<noteq> rt r" using Cons.prems InL by (cases t; cases r) (auto simp: tree_at_plug)
    ultimately show ?thesis using p InL by (subst climb.simps) simp
  next
    case (InR l a c)
    have "RB_RIGHT h (Some a) = Some (rt t)" using focus_access(2) [of h k l a c t] Cons.prems InR by simp
    then show ?thesis using p InR Cons.IH [of "Nd l a c t"] Cons.prems by (subst climb.simps) simp
  qed
qed

lemma RB_NEXT_ok:
  assumes "tree_at h (plug k (Nd l a c r))"
  shows "RB_NEXT h (Some a) = Some (first (addrs r @ after k))"
proof (cases "r = Lf")
  case False
  then have "addrs r \<noteq> []" by (cases r) simp_all
  then show ?thesis
    using False leftmost_ok [of h "InR l a c # k" r] focus_access(2) [OF assms] assms by (simp add: RB_NEXT_def first_append)
next
  case True
  note acc = focus_access(2,3) [OF assms]
  show ?thesis
  proof (cases k)
    case Nil
    then show ?thesis using acc True climb_ok [OF assms] by (simp add: RB_NEXT_def)
  next
    case (Cons f k')
    show ?thesis
    proof (cases f)
      case (InL b d s)
      have "RB_LEFT h (Some b) = Some (Some a)" using focus_access(1) [of h k' "Nd l a c r" b d s] assms Cons InL by simp
      then show ?thesis using acc True Cons InL by (simp add: RB_NEXT_def)
    next
      case (InR s b d)
      have "RB_LEFT h (Some b) = Some (rt s)" using focus_access(1) [of h k' s b d] assms Cons InR by simp
      moreover have "Some a \<noteq> rt s" using assms Cons InR by (auto simp: tree_at_plug)
      ultimately show ?thesis using acc True Cons InR climb_ok [OF assms] by (simp add: RB_NEXT_def)
    qed
  qed
qed

lemma place_of: "a \<in> set (addrs t) \<Longrightarrow> \<exists>k' l c r. plug k t = plug k' (Nd l a c r)"
proof (induction t arbitrary: k)
  case (Nd l b c r)
  consider "a = b" | "a \<in> set (addrs l)" | "a \<in> set (addrs r)" using Nd.prems by auto
  then show ?case
  proof cases
    case 1
    then show ?thesis by blast
  next
    case 2
    then show ?thesis using Nd.IH(1) [of "InL b c r # k"] by simp
  next
    case 3
    then show ?thesis using Nd.IH(2) [of "InR l b c # k"] by simp
  qed
qed simp

text \<open>From an element to the one behind it in the order of the tree.\<close>

lemma RB_NEXT_succ:
  assumes "tree_at h t" and "addrs t = xs @ a # ys"
  shows "RB_NEXT h (Some a) = Some (first ys)"
proof -
  obtain k l c r where p: "t = plug k (Nd l a c r)" using place_of [of a t "[]"] assms(2) by auto
  have "distinct (addrs t)" using assms(1) by (simp add: tree_at_def)
  then have "a \<notin> set xs" "a \<notin> set ys" using assms(2) by auto
  moreover have "addrs t = (before k @ addrs l) @ a # (addrs r @ after k)" using p by (simp add: addrs_plug)
  ultimately have "ys = addrs r @ after k" using assms(2) append_Cons_eq_iff [of a xs ys] by metis
  then show ?thesis using RB_NEXT_ok assms(1) p by simp
qed

end
