(* ===== verification/Rbtree_Props.thy ===== *)
theory Rbtree_Props
  imports Rbtree_Spec
begin

text \<open>
  The red-black tree as an index of elements by key: the interface that the memory pool and
  the stage table rely on, the tree functions as its implementation, and the properties of
  the tree functions.
\<close>

section \<open>An index of elements by key\<close>

text \<open>
  \<open>cmp\<close> compares a key with the keys of the elements of the index; the keys themselves are in
  the memory of the elements.
\<close>

definition compares :: "(nat \<Rightarrow> int) \<Rightarrow> (nat \<Rightarrow> 'k :: linorder) \<Rightarrow> 'k \<Rightarrow> nat set \<Rightarrow> bool" where
  "compares cmp key x S \<longleftrightarrow> (\<forall>a \<in> S. (cmp a < 0 \<longleftrightarrow> x < key a) \<and> (cmp a > 0 \<longleftrightarrow> x > key a))"

locale key_index =
  fixes rep :: "(nat \<Rightarrow> 'k :: linorder) \<Rightarrow> 's \<Rightarrow> nat set \<Rightarrow> bool"
    and cell :: "'s \<Rightarrow> nat \<Rightarrow> bool"
    and find :: "(nat \<Rightarrow> int) \<Rightarrow> 's \<Rightarrow> nat option option"
    and ins :: "(nat \<Rightarrow> int) \<Rightarrow> nat \<Rightarrow> 's \<Rightarrow> (nat option \<times> 's) option"
  assumes find_law: "rep key s S \<Longrightarrow> compares cmp key x S \<Longrightarrow>
      \<exists>r. find cmp s = Some r \<and> (case r of None \<Rightarrow> x \<notin> key ` S | Some a \<Rightarrow> a \<in> S \<and> key a = x)"
    and ins_old: "rep key s S \<Longrightarrow> compares cmp key (key a) S \<Longrightarrow> b \<in> S \<Longrightarrow> key b = key a \<Longrightarrow> ins cmp a s = Some (Some b, s)"
    and ins_new: "rep key s S \<Longrightarrow> compares cmp key (key a) S \<Longrightarrow> key a \<notin> key ` S \<Longrightarrow> cell s a \<Longrightarrow>
      \<exists>s'. ins cmp a s = Some (None, s') \<and> rep key s' (insert a S) \<and> (\<forall>b. cell s' b = cell s b)"
    and rep_inj: "rep key s S \<Longrightarrow> inj_on key S"
    and rep_cell: "rep key s S \<Longrightarrow> a \<in> S \<Longrightarrow> cell s a"
    and rep_key: "rep key s S \<Longrightarrow> (\<And>a. a \<in> S \<Longrightarrow> key' a = key a) \<Longrightarrow> rep key' s S"
begin

lemma find_iff:
  assumes "rep key s S" and "compares cmp key x S"
  shows "find cmp s = Some (Some a) \<longleftrightarrow> a \<in> S \<and> key a = x"
proof -
  obtain r where r: "find cmp s = Some r" "case r of None \<Rightarrow> x \<notin> key ` S | Some a \<Rightarrow> a \<in> S \<and> key a = x"
    using find_law [OF assms] by blast
  then show ?thesis using inj_onD [OF rep_inj [OF assms(1)]] by (auto split: option.splits)
qed

lemma find_none:
  assumes "rep key s S" and "compares cmp key x S"
  shows "find cmp s = Some None \<longleftrightarrow> x \<notin> key ` S"
proof -
  obtain r where "find cmp s = Some r" "case r of None \<Rightarrow> x \<notin> key ` S | Some a \<Rightarrow> a \<in> S \<and> key a = x"
    using find_law [OF assms] by blast
  then show ?thesis by (cases r) auto
qed

text \<open>An element that was inserted is found, and the other elements are found as before.\<close>

lemma find_after_ins:
  assumes "rep key s S" and "compares cmp key (key a) S" and "key a \<notin> key ` S" and "cell s a"
  shows "\<exists>s'. ins cmp a s = Some (None, s') \<and> rep key s' (insert a S)
    \<and> (\<forall>c x. compares c key x (insert a S) \<longrightarrow> find c s' = (if x = key a then Some (Some a) else find c s))"
proof -
  obtain s' where s': "ins cmp a s = Some (None, s')" "rep key s' (insert a S)" using ins_new [OF assms] by blast
  have "find c s' = (if x = key a then Some (Some a) else find c s)" if c: "compares c key x (insert a S)" for c x
  proof (cases "x = key a")
    case True
    then show ?thesis using find_iff [OF s'(2) c] by auto
  next
    case False
    have cs: "compares c key x S" using c by (simp add: compares_def)
    obtain r where r: "find c s = Some r" "case r of None \<Rightarrow> x \<notin> key ` S | Some a \<Rightarrow> a \<in> S \<and> key a = x"
      using find_law [OF assms(1) cs] by blast
    then show ?thesis using False find_iff [OF s'(2) c] find_none [OF s'(2) c] by (cases r) auto
  qed
  then show ?thesis using s' by blast
qed

end

section \<open>The tree functions as an index\<close>

definition tree_index :: "(nat \<Rightarrow> 'k :: linorder) \<Rightarrow> rb_tree \<Rightarrow> nat set \<Rightarrow> bool" where
  "tree_index key h S \<longleftrightarrow> (\<exists>t. tree_at h t \<and> red_black t \<and> sorted_wrt (\<lambda>a b. key a < key b) (addrs t) \<and> set (addrs t) = S)"

definition tree_cell :: "rb_tree \<Rightarrow> nat \<Rightarrow> bool" where
  "tree_cell h a \<longleftrightarrow> entries h a \<noteq> None"

text \<open>A cell that is not in the tree can be written.\<close>

lemma tree_index_alloc:
  assumes "tree_index k h S" and "a \<notin> S"
  shows "tree_index k (h\<lparr>entries := (entries h)(a \<mapsto> x)\<rparr>) S"
proof -
  obtain t where "tree_at h t" "red_black t" "sorted_wrt (\<lambda>a b. k a < k b) (addrs t)" "set (addrs t) = S"
    using assms(1) by (auto simp: tree_index_def)
  then show ?thesis using assms(2) by (auto simp: tree_index_def tree_at_def intro!: exI [of _ t])
qed

lemma sorted_wrt_inj: "sorted_wrt (\<lambda>a b. key a < (key b :: 'k :: linorder)) xs \<Longrightarrow> inj_on key (set xs)"
  by (induction xs) auto

lemma compares_consistent:
  assumes "compares cmp key x (set xs)" and "sorted_wrt (\<lambda>a b. key a < key b) xs"
  shows "consistent cmp xs"
  unfolding consistent_def
proof (rule sorted_wrt_mono_rel [OF _ assms(2)])
  fix a b
  assume "a \<in> set xs" "b \<in> set xs" "key a < key b"
  then show "cmp a \<le> 0 \<longrightarrow> cmp b < 0" using assms(1) by (fastforce simp: compares_def not_less)
qed

lemma locate_key:
  assumes "compares cmp key x (set (addrs t))" and "sorted_wrt (\<lambda>a b. key a < key b) (addrs t)"
  shows "case locate cmp t [] of
      Inl k \<Rightarrow> x \<notin> key ` set (addrs t) \<and> (\<forall>a \<in> set (before k). key a < x) \<and> (\<forall>a \<in> set (after k). x < key a)
    | Inr a \<Rightarrow> a \<in> set (addrs t) \<and> key a = x"
proof (cases "locate cmp t []")
  case (Inl k)
  have m: "\<forall>a \<in> set (addrs t). cmp a \<noteq> 0" "\<forall>a \<in> set (before k). cmp a > 0" "\<forall>a \<in> set (after k). cmp a < 0"
    using locate_missing [OF compares_consistent [OF assms] Inl] by auto
  have "set (before k) \<union> set (after k) = set (addrs t)" using locate_Inl [OF Inl] addrs_plug [of k Lf] by auto
  then show ?thesis using m assms(1) Inl by (auto simp: compares_def)
next
  case (Inr a)
  then show ?thesis using locate_Inr [OF Inr] assms(1) by (auto simp: compares_def not_less intro: antisym)
qed

lemma RB_FIND_locate: "tree_at h t \<Longrightarrow> RB_FIND cmp h = Some (case locate cmp t [] of Inl _ \<Rightarrow> None | Inr a \<Rightarrow> Some a)"
  using find_loop_ok [of h "[]" t cmp] by (simp add: RB_FIND_def tree_at_def)

lemma tree_find_law:
  assumes "tree_index key h S" and "compares cmp key x S"
  shows "\<exists>r. RB_FIND cmp h = Some r \<and> (case r of None \<Rightarrow> x \<notin> key ` S | Some a \<Rightarrow> a \<in> S \<and> key a = x)"
proof -
  obtain t where t: "tree_at h t" "sorted_wrt (\<lambda>a b. key a < key b) (addrs t)" "set (addrs t) = S"
    using assms(1) by (auto simp: tree_index_def)
  then show ?thesis using RB_FIND_locate [OF t(1)] locate_key [OF _ t(2), of cmp x] assms(2) by (auto split: sum.splits)
qed

lemma tree_ins_old:
  assumes "tree_index key h S" and "compares cmp key (key a) S" and "b \<in> S" and "key b = key a"
  shows "RB_INSERT cmp a h = Some (Some b, h)"
proof -
  obtain t where t: "tree_at h t" "sorted_wrt (\<lambda>a b. key a < key b) (addrs t)" "set (addrs t) = S"
    using assms(1) by (auto simp: tree_index_def)
  then obtain b' where b': "locate cmp t [] = Inr b'" "b' \<in> S" "key b' = key a"
    using locate_key [OF _ t(2), of cmp "key a"] assms by (cases "locate cmp t []") (auto, metis imageI)
  then have "b' = b" using inj_onD [OF sorted_wrt_inj [OF t(2)], of b' b] assms(3,4) t(3) by simp
  then show ?thesis using RB_INSERT_old [OF t(1) b'(1)] by simp
qed

lemma tree_ins_new:
  assumes "tree_index key h S" and "compares cmp key (key a) S" and "key a \<notin> key ` S" and "tree_cell h a"
  shows "\<exists>h'. RB_INSERT cmp a h = Some (None, h') \<and> tree_index key h' (insert a S)
    \<and> (\<forall>b. b \<noteq> a \<longrightarrow> b \<notin> S \<longrightarrow> entries h' b = entries h b)"
proof -
  obtain t where t: "tree_at h t" "red_black t" "sorted_wrt (\<lambda>a b. key a < key b) (addrs t)" "set (addrs t) = S"
    using assms(1) by (auto simp: tree_index_def)
  obtain k where k: "locate cmp t [] = Inl k" "\<forall>b \<in> set (before k). key b < key a" "\<forall>b \<in> set (after k). key a < key b"
    using locate_key [OF _ t(3), of cmp "key a"] assms(2,3) t(4) by (cases "locate cmp t []") (auto, metis imageI)
  have ad: "addrs t = before k @ after k" using locate_Inl [OF k(1)] addrs_plug [of k Lf] by simp
  have "a \<notin> set (addrs t)" using assms(3) t(4) by auto
  from RB_INSERT_new [OF t(1,2) this _ k(1)] obtain h' t' where h': "RB_INSERT cmp a h = Some (None, h')" "tree_at h' t'" "red_black t'"
    "addrs t' = before k @ a # after k" "\<And>b. b \<noteq> a \<Longrightarrow> b \<notin> set (addrs t) \<Longrightarrow> entries h' b = entries h b"
    using assms(4) by (auto simp: tree_cell_def)
  have "sorted_wrt (\<lambda>a b. key a < key b) (addrs t')" using t(3) k(2,3) ad h'(4) by (simp add: sorted_wrt_append)
  moreover have "set (addrs t') = insert a S" using h'(4) ad t(4) by auto
  ultimately show ?thesis using h' t(4) unfolding tree_index_def by blast
qed

lemma tree_index_cell:
  assumes "tree_index key h S" and "a \<in> S"
  shows "tree_cell h a"
proof -
  have "a \<in> set (addrs t) \<Longrightarrow> rep e p t \<Longrightarrow> e a \<noteq> None" for a e p t by (induction t arbitrary: p) auto
  then show ?thesis using assms by (auto simp: tree_index_def tree_at_def tree_cell_def)
qed

lemma tree_ins_cells:
  assumes "tree_index key h S" and "tree_index key h' (insert a S)" and "tree_cell h a"
    and "\<And>b. b \<noteq> a \<Longrightarrow> b \<notin> S \<Longrightarrow> entries h' b = entries h b"
  shows "tree_cell h' b = tree_cell h b"
  using tree_index_cell [OF assms(1), of b] tree_index_cell [OF assms(2), of b] assms(3) assms(4) [of b]
  by (cases "b = a \<or> b \<in> S") (auto simp: tree_cell_def)

lemma tree_index_key:
  assumes "tree_index key h S" and "\<And>a. a \<in> S \<Longrightarrow> key' a = key a"
  shows "tree_index key' h S"
proof -
  obtain t where t: "tree_at h t" "red_black t" "sorted_wrt (\<lambda>a b. key a < key b) (addrs t)" "set (addrs t) = S"
    using assms(1) by (auto simp: tree_index_def)
  have "sorted_wrt (\<lambda>a b. key' a < key' b) (addrs t)"
    by (rule sorted_wrt_mono_rel [OF _ t(3)]) (use assms(2) t(4) in auto)
  then show ?thesis using t by (auto simp: tree_index_def)
qed

interpretation rb: key_index "tree_index :: (nat \<Rightarrow> 'k :: linorder) \<Rightarrow> rb_tree \<Rightarrow> nat set \<Rightarrow> bool" tree_cell RB_FIND RB_INSERT
proof
  show "\<exists>s'. RB_INSERT cmp a s = Some (None, s') \<and> tree_index key s' (insert a S) \<and> (\<forall>b. tree_cell s' b = tree_cell s b)"
    if "tree_index key s S" "compares cmp key (key a) S" "key a \<notin> key ` S" "tree_cell s a" for key :: "nat \<Rightarrow> 'k" and s S cmp a
    using tree_ins_new [OF that] tree_ins_cells [OF that(1) _ that(4)] by metis
  show "inj_on key S" if "tree_index key s S" for key :: "nat \<Rightarrow> 'k" and s S
    using that sorted_wrt_inj by (auto simp: tree_index_def)
qed (auto intro: tree_find_law tree_ins_old tree_index_cell tree_index_key)


section \<open>Properties\<close>

text \<open>C4:
  \<^verbatim>\<open>RB_INSERT\<close> returns the element with the same key and changes nothing when there is one;
  otherwise it returns \<^verbatim>\<open>NULL\<close> and the new element is in the tree.  The rebalancing restores the
  red-black invariants and the order of the keys, and no element outside of the tree changes.
\<close>

theorem rb_insert_correct:
  assumes "tree_index key h S" and "compares cmp key (key a) S" and "tree_cell h a"
  shows "if key a \<in> key ` S then \<exists>b \<in> S. key b = key a \<and> RB_INSERT cmp a h = Some (Some b, h)
    else \<exists>h'. RB_INSERT cmp a h = Some (None, h') \<and> tree_index key h' (insert a S)
      \<and> (\<forall>b. b \<noteq> a \<longrightarrow> b \<notin> S \<longrightarrow> entries h' b = entries h b)"
proof (cases "key a \<in> key ` S")
  case True
  then obtain b where "b \<in> S" "key b = key a" by auto
  then show ?thesis using True rb.ins_old [OF assms(1,2)] by auto
qed (use tree_ins_new [OF assms(1,2) _ assms(3)] in simp)

definition ex_tree :: rb_tree where
  "ex_tree = \<lparr>rbh_root = Some 2, entries = [
     1 \<mapsto> \<lparr>rbe_left = None, rbe_right = None, rbe_parent = Some 2, rbe_color = RB_RED\<rparr>,
     2 \<mapsto> \<lparr>rbe_left = Some 1, rbe_right = None, rbe_parent = None, rbe_color = RB_BLACK\<rparr>,
     0 \<mapsto> \<lparr>rbe_left = None, rbe_right = None, rbe_parent = None, rbe_color = RB_BLACK\<rparr>]\<rparr>"

lemma ex_tree_index: "tree_index (\<lambda>a. a) ex_tree {1, 2}"
  unfolding tree_index_def
  by (intro exI [of _ "Nd (Nd Lf 1 RB_RED Lf) 2 RB_BLACK Lf"]) (auto simp: tree_at_def ex_tree_def red_black_def)

theorem rb_insert_correct_witness:
  "\<exists>h'. RB_INSERT (\<lambda>a. 0 - int a) 0 ex_tree = Some (None, h') \<and> tree_index (\<lambda>a. a) h' {0, 1, 2}"
  using rb_insert_correct [OF ex_tree_index, of "\<lambda>a. 0 - int a" 0] by (auto simp: compares_def tree_cell_def ex_tree_def)

text \<open>C23:
  \<^verbatim>\<open>RB_FIND\<close> returns the element of the tree with the key looked for, \<^verbatim>\<open>RB_NFIND\<close> the one with the
  least key that is not below it, and \<^verbatim>\<open>NULL\<close> when there is none.
\<close>

theorem rb_search_correct:
  assumes "tree_index key h S" and "compares cmp key x S"
  shows "(\<exists>r. RB_FIND cmp h = Some r \<and> (case r of None \<Rightarrow> x \<notin> key ` S | Some a \<Rightarrow> a \<in> S \<and> key a = x))
    \<and> (\<exists>r. RB_NFIND cmp h = Some r \<and> (case r of None \<Rightarrow> \<forall>a \<in> S. key a < x
        | Some a \<Rightarrow> a \<in> S \<and> x \<le> key a \<and> (\<forall>b \<in> S. x \<le> key b \<longrightarrow> key a \<le> key b)))"
proof
  show "\<exists>r. RB_FIND cmp h = Some r \<and> (case r of None \<Rightarrow> x \<notin> key ` S | Some a \<Rightarrow> a \<in> S \<and> key a = x)"
    using rb.find_law [OF assms] .
  obtain t where t: "tree_at h t" "sorted_wrt (\<lambda>a b. key a < key b) (addrs t)" "set (addrs t) = S"
    using assms(1) by (auto simp: tree_index_def)
  have le: "cmp a \<le> 0 \<longleftrightarrow> x \<le> key a" if "a \<in> S" for a using assms(2) that by (force simp: compares_def)
  have nf: "RB_NFIND cmp h = Some (List.find (\<lambda>a. cmp a \<le> 0) (addrs t))"
    using nfind_loop_ok [of h "[]" t cmp None] compares_consistent [OF _ t(2)] assms(2) t
    by (auto simp: RB_NFIND_def tree_at_def split: option.splits)
  show "\<exists>r. RB_NFIND cmp h = Some r \<and> (case r of None \<Rightarrow> \<forall>a \<in> S. key a < x
        | Some a \<Rightarrow> a \<in> S \<and> x \<le> key a \<and> (\<forall>b \<in> S. x \<le> key b \<longrightarrow> key a \<le> key b))"
  proof (cases "List.find (\<lambda>a. cmp a \<le> 0) (addrs t)")
    case None
    then have "key a < x" if "a \<in> S" for a using le [OF that] that t(3) by (auto simp: find_None_iff not_le)
    then show ?thesis using nf None by simp
  next
    case (Some a)
    then obtain i where i: "i < length (addrs t)" "cmp a \<le> 0" "a = addrs t ! i" "\<forall>j < i. \<not> cmp (addrs t ! j) \<le> 0"
      by (auto simp: find_Some_iff)
    have "key a \<le> key b" if "b \<in> S" "x \<le> key b" for b
    proof -
      obtain j where j: "j < length (addrs t)" "b = addrs t ! j" using \<open>b \<in> S\<close> t(3) by (auto simp: in_set_conv_nth)
      then have "\<not> j < i" using i(4) le that by auto
      then show ?thesis using sorted_wrt_nth_less [OF t(2), of i j] i(3) j by (cases "i = j") auto
    qed
    then show ?thesis using nf Some i le t(3) by auto
  qed
qed

theorem rb_search_correct_witness:
  "RB_FIND (\<lambda>a. 1 - int a) ex_tree = Some (Some 1) \<and> RB_NFIND (\<lambda>a. 1 - int a) ex_tree = Some (Some 1)"
  using rb_search_correct [OF ex_tree_index, of "\<lambda>a. 1 - int a" 1]
  by (auto simp: compares_def split: option.splits)

lemma first_drop: "first (drop n xs) = (if n < length xs then Some (xs ! n) else None)"
  by (auto simp: first_def Cons_nth_drop_Suc [symmetric])

text \<open>C24:
  \<^verbatim>\<open>RB_FOREACH\<close> visits every element of the tree once, in the order of the keys: it starts with
  \<^verbatim>\<open>RB_MIN\<close> and goes on with \<^verbatim>\<open>RB_NEXT\<close> until that is \<^verbatim>\<open>NULL\<close>, at \<^verbatim>\<open>RB_MAX\<close>.
\<close>

theorem rb_foreach_ascending:
  assumes "tree_index key h S"
  shows "\<exists>xs. set xs = S \<and> sorted_wrt (\<lambda>a b. key a < key b) xs \<and> RB_MINMAX (-1) h = Some (first xs)
    \<and> RB_MINMAX 1 h = Some (first (rev xs))
    \<and> (\<forall>i < length xs. RB_NEXT h (Some (xs ! i)) = Some (if i + 1 < length xs then Some (xs ! (i + 1)) else None))"
proof -
  obtain t where t: "tree_at h t" "sorted_wrt (\<lambda>a b. key a < key b) (addrs t)" "set (addrs t) = S"
    using assms by (auto simp: tree_index_def)
  have "RB_NEXT h (Some (addrs t ! i)) = Some (if i + 1 < length (addrs t) then Some (addrs t ! (i + 1)) else None)"
    if i: "i < length (addrs t)" for i
    using RB_NEXT_succ [OF t(1) id_take_nth_drop [OF i]] by (simp add: first_drop)
  moreover have "first xs = (if xs = [] then None else Some (hd xs))" for xs :: "nat list" by (cases xs) simp_all
  moreover have "addrs t = [] \<longleftrightarrow> t = Lf" by (cases t) simp_all
  ultimately show ?thesis
    using minmax_loop_ok [of h "[]" t _ None] t by (intro exI [of _ "addrs t"]) (simp add: RB_MINMAX_def tree_at_def hd_rev)
qed

theorem rb_foreach_ascending_witness:
  "RB_MINMAX (-1) ex_tree = Some (Some 1) \<and> RB_NEXT ex_tree (Some 1) = Some (Some 2) \<and> RB_NEXT ex_tree (Some 2) = Some None"
proof -
  obtain xs where xs: "set xs = {1, 2}" "sorted_wrt (\<lambda>a b. a < b) xs" "RB_MINMAX (-1) ex_tree = Some (first xs)"
    "\<forall>i < length xs. RB_NEXT ex_tree (Some (xs ! i)) = Some (if i + 1 < length xs then Some (xs ! (i + 1)) else None)"
    using rb_foreach_ascending [OF ex_tree_index] by blast
  have "xs = [1, 2]" using xs(1,2) sorted_distinct_set_unique [of xs "[1, 2]"] by (simp add: strict_sorted_iff)
  then show ?thesis using xs(3) xs(4) [rule_format, of 0] xs(4) [rule_format, of 1] by simp
qed

section \<open>The depth of a search\<close>

text \<open>The loop of \<^verbatim>\<open>RB_FIND\<close> with at most \<open>n\<close> rounds.\<close>

fun find_rounds :: "nat \<Rightarrow> (nat \<Rightarrow> int) \<Rightarrow> rb_tree \<Rightarrow> ptr \<Rightarrow> ptr option" where
  "find_rounds n cmp h None = Some None"
| "find_rounds 0 cmp h (Some a) = None"
| "find_rounds (Suc n) cmp h (Some a) =
     (if cmp a < 0 then do { l \<leftarrow> RB_LEFT h (Some a); find_rounds n cmp h l }
      else if cmp a > 0 then do { r \<leftarrow> RB_RIGHT h (Some a); find_rounds n cmp h r }
      else Some (Some a))"

fun height :: "shape \<Rightarrow> nat" where
  "height Lf = 0"
| "height (Nd l a c r) = Suc (max (height l) (height r))"

lemma height_bheight: "balanced t \<Longrightarrow> no_redred t \<Longrightarrow> height t \<le> 2 * bheight t + (if root_color t = RB_RED then 1 else 0)"
  by (induction t) (auto split: if_splits)

lemma size_bheight: "balanced t \<Longrightarrow> 2 ^ bheight t \<le> length (addrs t) + 1"
  by (induction t) auto

lemma find_rounds_ok:
  "tree_at h (plug k t) \<Longrightarrow> height t \<le> n \<Longrightarrow> find_rounds n cmp h (rt t) = find_loop cmp h (rt t)"
proof (induction t arbitrary: k n)
  case Lf
  show ?case by (subst find_loop.simps) simp
next
  case (Nd l a c r)
  obtain m where "n = Suc m" "height l \<le> m" "height r \<le> m" using Nd.prems(2) by (cases n) auto
  then show ?case using focus_access(1,2) [OF Nd.prems(1)] Nd.IH(1) [of "InL a c r # k" m] Nd.IH(2) [of "InR l a c # k" m] Nd.prems(1)
    by (subst find_loop.simps) simp
qed

text \<open>C25:
  A search in a tree of \<open>m\<close> elements ends within \<open>2 * log2 (m + 1)\<close> rounds of the loop.
\<close>

theorem rb_find_rounds:
  assumes "tree_index key h S" and "compares cmp key x S" and "(card S + 1) ^ 2 \<le> 2 ^ n"
  shows "find_rounds n cmp h (rbh_root h) = RB_FIND cmp h \<and> RB_FIND cmp h \<noteq> None"
proof
  obtain t where t: "tree_at h t" "red_black t" "set (addrs t) = S" using assms(1) by (auto simp: tree_index_def)
  have "card S = length (addrs t)" using t distinct_card by (auto simp: tree_at_def)
  then have "2 ^ bheight t \<le> card S + 1" using size_bheight t(2) by (simp add: red_black_def)
  then have "(2 ^ bheight t) ^ 2 \<le> (card S + 1) ^ 2" by (intro power_mono) auto
  then have "(2 ^ bheight t) ^ 2 \<le> (2 :: nat) ^ n" using assms(3) by linarith
  then have "2 * bheight t \<le> n" by (simp add: power_mult [symmetric] mult.commute)
  then have "height t \<le> n" using height_bheight [of t] t(2) by (simp add: red_black_def)
  then show "find_rounds n cmp h (rbh_root h) = RB_FIND cmp h"
    using find_rounds_ok [of h "[]" t n cmp] t(1) by (simp add: RB_FIND_def tree_at_def)
  show "RB_FIND cmp h \<noteq> None" using rb.find_law [OF assms(1,2)] by auto
qed

theorem rb_find_rounds_witness: "find_rounds 4 (\<lambda>a. 2 - int a) ex_tree (Some 2) = RB_FIND (\<lambda>a. 2 - int a) ex_tree"
proof -
  have "compares (\<lambda>a. 2 - int a) (\<lambda>a. a) 2 {1, 2}" "(card {1, 2 :: nat} + 1) ^ 2 \<le> (2 :: nat) ^ 4" "rbh_root ex_tree = Some 2"
    by (auto simp: compares_def ex_tree_def power2_eq_square)
  then show ?thesis using rb_find_rounds [OF ex_tree_index, of "\<lambda>a. 2 - int a" 2 4] by simp
qed

end
