(* ===== verification/Mempool.thy ===== *)
theory Mempool
  imports Rbtree_Props
begin

text \<open>
  The memory pool \<^verbatim>\<open>mempool.c\<close>: free lists of blocks, one for each block size, in a red-black
  tree by size.  A block is its header, a user pointer is the address behind the header.
  The answers of \<^verbatim>\<open>malloc\<close> and \<^verbatim>\<open>calloc\<close> are part of the state, in the order in which they
  will be given; \<open>room\<close> is the number of bytes that were asked for behind the header.
\<close>

section \<open>The state\<close>

record mp_mem_entry =
  mem_next :: ptr
  blk_size :: int
  room :: int

record mp_tree_entry =
  mem_size :: int
  total_item :: u32
  mem_head :: ptr

record mempool =
  mp_initialized :: bool
  g_pre_alloc_num :: u32
  g_pre_free_num :: u32
  mp_tree :: rb_tree
  sizes :: "nat \<rightharpoonup> mp_tree_entry"
  blocks :: "nat \<rightharpoonup> mp_mem_entry"
  answers :: "ptr list"

definition mp_start :: mempool where
  "mp_start = \<lparr>mp_initialized = False, g_pre_alloc_num = 10, g_pre_free_num = 20,
     mp_tree = \<lparr>rbh_root = None, entries = Map.empty\<rparr>, sizes = Map.empty, blocks = Map.empty, answers = []\<rparr>"

text \<open>\<^verbatim>\<open>sizeof(struct MP_MEM_ENTRY)\<close>: a pointer and a \<^verbatim>\<open>long\<close>.\<close>

definition HEADER :: nat where "HEADER = 16"

definition size_cmp :: "int \<Rightarrow> (nat \<rightharpoonup> mp_tree_entry) \<Rightarrow> nat \<Rightarrow> int" where
  "size_cmp a_size szs b = (let diff = to_int32 (a_size - (case szs b of Some e \<Rightarrow> mem_size e | None \<Rightarrow> 0)) in
     if diff = 0 then 0 else if diff < 0 then -1 else 1)"

text \<open>The allocator: its next answer.  A new header has not been written yet.\<close>

definition malloc_block :: "int \<Rightarrow> mempool \<Rightarrow> ptr \<times> mempool" where
  "malloc_block n s = (case answers s of
     [] \<Rightarrow> (None, s)
   | None # as \<Rightarrow> (None, s\<lparr>answers := as\<rparr>)
   | Some a # as \<Rightarrow> (Some a, s\<lparr>answers := as, blocks := (blocks s)(a \<mapsto> \<lparr>mem_next = None, blk_size = 0, room = n\<rparr>)\<rparr>))"

definition calloc_entry :: "mempool \<Rightarrow> ptr \<times> mempool" where
  "calloc_entry s = (case answers s of
     [] \<Rightarrow> (None, s)
   | None # as \<Rightarrow> (None, s\<lparr>answers := as\<rparr>)
   | Some a # as \<Rightarrow> (Some a, s\<lparr>answers := as, sizes := (sizes s)(a \<mapsto> \<lparr>mem_size = 0, total_item = 0, mem_head = None\<rparr>),
        mp_tree := (mp_tree s)\<lparr>entries := (entries (mp_tree s))(a \<mapsto>
          \<lparr>rbe_left = None, rbe_right = None, rbe_parent = None, rbe_color = RB_BLACK\<rparr>)\<rparr>\<rparr>))"

text \<open>Freeing what is not allocated has no result.\<close>

definition free_block :: "nat \<Rightarrow> mempool \<Rightarrow> mempool option" where
  "free_block a s = (case blocks s a of None \<Rightarrow> None | Some _ \<Rightarrow> Some (s\<lparr>blocks := (blocks s)(a := None)\<rparr>))"

definition upd_size :: "nat \<Rightarrow> (mp_tree_entry \<Rightarrow> mp_tree_entry) \<Rightarrow> mempool \<Rightarrow> mempool option" where
  "upd_size t f s = do { e \<leftarrow> sizes s t; Some (s\<lparr>sizes := (sizes s)(t \<mapsto> f e)\<rparr>) }"

definition upd_block :: "nat \<Rightarrow> (mp_mem_entry \<Rightarrow> mp_mem_entry) \<Rightarrow> mempool \<Rightarrow> mempool option" where
  "upd_block a f s = do { e \<leftarrow> blocks s a; Some (s\<lparr>blocks := (blocks s)(a \<mapsto> f e)\<rparr>) }"

text \<open>The \<^verbatim>\<open>SLIST\<close> operations on the list of a size.\<close>

definition SLIST_FIRST :: "nat \<Rightarrow> mempool \<Rightarrow> ptr option" where
  "SLIST_FIRST t s = map_option mem_head (sizes s t)"

definition SLIST_INIT :: "nat \<Rightarrow> mempool \<Rightarrow> mempool option" where
  "SLIST_INIT t = upd_size t (\<lambda>e. e\<lparr>mem_head := None\<rparr>)"

definition SLIST_INSERT_HEAD :: "nat \<Rightarrow> nat \<Rightarrow> mempool \<Rightarrow> mempool option" where
  "SLIST_INSERT_HEAD t a s = do {
     p \<leftarrow> SLIST_FIRST t s;
     s \<leftarrow> upd_block a (\<lambda>e. e\<lparr>mem_next := p\<rparr>) s;
     upd_size t (\<lambda>e. e\<lparr>mem_head := Some a\<rparr>) s
   }"

definition SLIST_REMOVE_HEAD :: "nat \<Rightarrow> mempool \<Rightarrow> mempool option" where
  "SLIST_REMOVE_HEAD t s = do {
     p \<leftarrow> SLIST_FIRST t s;
     a \<leftarrow> p;
     e \<leftarrow> blocks s a;
     upd_size t (\<lambda>e'. e'\<lparr>mem_head := mem_next e\<rparr>) s
   }"

text \<open>A block joins the list and is counted.\<close>

definition add_block :: "nat \<Rightarrow> nat \<Rightarrow> mempool \<Rightarrow> mempool option" where
  "add_block t a s = do { s \<leftarrow> SLIST_INSERT_HEAD t a s; upd_size t (\<lambda>e. e\<lparr>total_item := total_item e + 1\<rparr>) s }"

section \<open>The functions\<close>

definition mp_init :: "u64 \<Rightarrow> u64 \<Rightarrow> mempool \<Rightarrow> mempool" where
  "mp_init pre_alloc_num pre_free_num s =
     (let s = (if pre_alloc_num \<noteq> 0 \<and> pre_free_num \<noteq> 0 then
         (let s = s\<lparr>g_pre_alloc_num := ucast pre_alloc_num\<rparr>;
              pre_free_num = (if pre_free_num < pre_alloc_num then pre_alloc_num else pre_free_num)
          in s\<lparr>g_pre_free_num := ucast pre_free_num\<rparr>) else s)
      in s\<lparr>mp_initialized := True\<rparr>)"

text \<open>The loop that frees the list of a size; it follows the pointers and may not end on a cyclic list.\<close>

partial_function (option) drop_all :: "nat \<Rightarrow> mempool \<Rightarrow> mempool option" where
  "drop_all t s = do {
     p \<leftarrow> SLIST_FIRST t s;
     (case p of None \<Rightarrow> Some s
      | Some a \<Rightarrow> do { s \<leftarrow> SLIST_REMOVE_HEAD t s; s \<leftarrow> free_block a s; drop_all t s })
   }"

fun init_loop :: "nat \<Rightarrow> nat \<Rightarrow> int \<Rightarrow> mempool \<Rightarrow> (int \<times> mempool) option" where
  "init_loop 0 t sz s = Some (0, s)"
| "init_loop (Suc n) t sz s = (case malloc_block sz s of
     (None, s) \<Rightarrow> do { s \<leftarrow> drop_all t s; Some (-1, s) }
   | (Some a, s) \<Rightarrow> do {
       s \<leftarrow> upd_block a (\<lambda>e. e\<lparr>blk_size := sz\<rparr>) s;
       s \<leftarrow> add_block t a s;
       init_loop n t sz s
     })"

definition mp_init_block :: "nat \<Rightarrow> int \<Rightarrow> u32 \<Rightarrow> mempool \<Rightarrow> (int \<times> mempool) option" where
  "mp_init_block t sz alloc_num s = init_loop (unat alloc_num) t sz s"

text \<open>The block for the caller, when the list was empty.\<close>

definition new_block :: "int \<Rightarrow> mempool \<Rightarrow> (ptr \<times> mempool) option" where
  "new_block sz s = (case malloc_block sz s of
     (None, s) \<Rightarrow> Some (None, s)
   | (Some a, s) \<Rightarrow> do { s \<leftarrow> upd_block a (\<lambda>e. e\<lparr>blk_size := sz\<rparr>) s; Some (Some (a + HEADER), s) })"

definition mp_alloc :: "int \<Rightarrow> mempool \<Rightarrow> (ptr \<times> mempool) option" where
  "mp_alloc sz s =
     (if \<not> mp_initialized s then Some (None, s)
      else if sz \<le> 0 then Some (None, s)
      else do {
        cur \<leftarrow> RB_FIND (size_cmp (to_int32 sz) (sizes s)) (mp_tree s);
        (case cur of
           None \<Rightarrow> (case calloc_entry s of
             (None, s) \<Rightarrow> Some (None, s)
           | (Some t, s) \<Rightarrow> do {
               s \<leftarrow> upd_size t (\<lambda>e. e\<lparr>mem_size := to_int32 sz, total_item := 0\<rparr>) s;
               s \<leftarrow> SLIST_INIT t s;
               (r, s) \<leftarrow> mp_init_block t sz (g_pre_alloc_num s - 1) s;
               if r < 0 then Some (None, s)
               else do {
                 (_, tree) \<leftarrow> RB_INSERT (size_cmp (to_int32 sz) (sizes s)) t (mp_tree s);
                 new_block sz (s\<lparr>mp_tree := tree\<rparr>)
               }
             })
         | Some t \<Rightarrow> do {
             e \<leftarrow> sizes s t;
             if total_item e = 0 then do {
               s \<leftarrow> SLIST_INIT t s;
               (r, s) \<leftarrow> mp_init_block t (mem_size e) (g_pre_alloc_num s - 1) s;
               if r < 0 then Some (None, s) else new_block sz s
             }
             else (case mem_head e of
               Some a \<Rightarrow> do {
                 s \<leftarrow> SLIST_REMOVE_HEAD t s;
                 s \<leftarrow> upd_size t (\<lambda>e. e\<lparr>total_item := total_item e - 1\<rparr>) s;
                 Some (Some (a + HEADER), s)
               }
             | None \<Rightarrow> Some (None, s))
           })
      })"

text \<open>The loop that gives blocks back to the system until the limit is reached.\<close>

partial_function (option) trim :: "nat \<Rightarrow> mempool \<Rightarrow> mempool option" where
  "trim t s = do {
     p \<leftarrow> SLIST_FIRST t s;
     (case p of None \<Rightarrow> Some s
      | Some a \<Rightarrow> do {
          s \<leftarrow> SLIST_REMOVE_HEAD t s;
          s \<leftarrow> upd_size t (\<lambda>e. e\<lparr>total_item := total_item e - 1\<rparr>) s;
          s \<leftarrow> free_block a s;
          e \<leftarrow> sizes s t;
          if total_item e = g_pre_free_num s then Some s else trim t s
        })
   }"

definition mp_pfree :: "ptr \<Rightarrow> mempool \<Rightarrow> mempool option" where
  "mp_pfree p s =
     (if \<not> mp_initialized s then Some s
      else case p of None \<Rightarrow> Some s
      | Some u \<Rightarrow> do {
          let a = u - HEADER;
          b \<leftarrow> blocks s a;
          cur \<leftarrow> RB_FIND (size_cmp (to_int32 (blk_size b)) (sizes s)) (mp_tree s);
          (case cur of None \<Rightarrow> Some s
           | Some t \<Rightarrow> do {
               e \<leftarrow> sizes s t;
               if total_item e > g_pre_free_num s then do { s \<leftarrow> free_block a s; trim t s }
               else add_block t a s
             })
        })"

text \<open>
  The arguments are \<^verbatim>\<open>size_t\<close> and become a \<^verbatim>\<open>long\<close>.  The bytes of the users are not part of
  the model; \<^verbatim>\<open>memset\<close> checks that what it writes is inside of the block.
\<close>

definition memset_block :: "nat \<Rightarrow> u64 \<Rightarrow> mempool \<Rightarrow> mempool option" where
  "memset_block u n s = do { b \<leftarrow> blocks s (u - HEADER); if uint n \<le> room b then Some s else None }"

definition mp_malloc :: "u64 \<Rightarrow> mempool \<Rightarrow> (ptr \<times> mempool) option" where
  "mp_malloc sz s = mp_alloc (sint sz) s"

definition mp_calloc :: "u64 \<Rightarrow> u64 \<Rightarrow> mempool \<Rightarrow> (ptr \<times> mempool) option" where
  "mp_calloc number sz s = do {
     let num_size = number * sz;
     (p, s) \<leftarrow> mp_alloc (sint num_size) s;
     (case p of Some u \<Rightarrow> do { s \<leftarrow> memset_block u num_size s; Some (p, s) } | None \<Rightarrow> Some (p, s))
   }"

definition mp_free :: "ptr \<Rightarrow> mempool \<Rightarrow> mempool option" where
  "mp_free p s = mp_pfree p s"

end
