(* ===== verification/Mempool_Props.thy ===== *)
theory Mempool_Props
  imports Mempool
begin

text \<open>
  The invariant of the memory pool (the lists of free blocks, their lengths and sizes) and
  what allocation and release do to the free blocks and the blocks in use.
\<close>

section \<open>Free lists\<close>

fun chain :: "(nat \<rightharpoonup> mp_mem_entry) \<Rightarrow> ptr \<Rightarrow> nat list \<Rightarrow> bool" where
  "chain b p [] \<longleftrightarrow> p = None"
| "chain b p (a # as) \<longleftrightarrow> p = Some a \<and> (\<exists>e. b a = Some e \<and> chain b (mem_next e) as)"

lemma chain_upd [simp]: "a \<notin> set as \<Longrightarrow> chain (b(a := x)) p as = chain b p as"
  by (induction as arbitrary: p) auto

lemma chain_cong: "(\<And>a. a \<in> set as \<Longrightarrow> b' a = b a) \<Longrightarrow> chain b' p as = chain b p as"
  by (induction as arbitrary: p) auto

text \<open>The list \<open>xs\<close> of the size entry \<open>e\<close> at \<open>t\<close>.\<close>

definition list_at :: "mempool \<Rightarrow> nat \<Rightarrow> mp_tree_entry \<Rightarrow> nat list \<Rightarrow> bool" where
  "list_at s t e xs \<longleftrightarrow> sizes s t = Some e \<and> chain (blocks s) (mem_head e) xs \<and> distinct xs"

lemma push_ok:
  assumes "list_at s t e xs" and "blocks s a = Some b" and "a \<notin> set xs"
  shows "add_block t a s =
      Some (s\<lparr>blocks := (blocks s)(a \<mapsto> b\<lparr>mem_next := mem_head e\<rparr>),
              sizes := (sizes s)(t \<mapsto> e\<lparr>mem_head := Some a, total_item := total_item e + 1\<rparr>)\<rparr>)"
    and "list_at (s\<lparr>blocks := (blocks s)(a \<mapsto> b\<lparr>mem_next := mem_head e\<rparr>),
              sizes := (sizes s)(t \<mapsto> e\<lparr>mem_head := Some a, total_item := total_item e + 1\<rparr>)\<rparr>) t
           (e\<lparr>mem_head := Some a, total_item := total_item e + 1\<rparr>) (a # xs)"
  using assms by (simp_all add: list_at_def add_block_def SLIST_INSERT_HEAD_def SLIST_FIRST_def upd_size_def upd_block_def)

lemma pop_ok:
  assumes "list_at s t e (a # xs)"
  shows "\<exists>b. blocks s a = Some b \<and> SLIST_REMOVE_HEAD t s = Some (s\<lparr>sizes := (sizes s)(t \<mapsto> e\<lparr>mem_head := mem_next b\<rparr>)\<rparr>)
    \<and> chain (blocks s) (mem_next b) xs"
  using assms by (auto simp: list_at_def SLIST_REMOVE_HEAD_def SLIST_FIRST_def upd_size_def)

lemma list_first: "list_at s t e xs \<Longrightarrow> SLIST_FIRST t s = Some (first xs)"
  by (cases xs) (auto simp: list_at_def SLIST_FIRST_def)

text \<open>Everything but the size entry \<open>t\<close>, the given blocks and the answers is as before.\<close>

definition frame_ok :: "mempool \<Rightarrow> mempool \<Rightarrow> nat \<Rightarrow> nat set \<Rightarrow> bool" where
  "frame_ok s s' t A \<longleftrightarrow> mp_tree s' = mp_tree s \<and> mp_initialized s' = mp_initialized s \<and> g_pre_alloc_num s' = g_pre_alloc_num s
     \<and> g_pre_free_num s' = g_pre_free_num s \<and> (\<forall>x. x \<noteq> t \<longrightarrow> sizes s' x = sizes s x) \<and> (\<forall>a. a \<notin> A \<longrightarrow> blocks s' a = blocks s a)"

lemma init_loop_ok:
  assumes "list_at s t e xs" and "answers s = map Some as @ rest" and "distinct as" and "set as \<inter> set xs = {}" and "n = length as"
  shows "\<exists>s' e'. init_loop n t sz s = Some (0, s') \<and> list_at s' t e' (rev as @ xs) \<and> mem_size e' = mem_size e
    \<and> total_item e' = total_item e + of_nat n \<and> answers s' = rest \<and> frame_ok s s' t (set as)
    \<and> (\<forall>a \<in> set as. \<exists>b. blocks s' a = Some b \<and> blk_size b = sz \<and> room b = sz)"
  using assms
proof (induction as arbitrary: s e xs n)
  case Nil
  then show ?case by (auto simp: frame_ok_def)
next
  case (Cons a as)
  let ?b = "\<lparr>mem_next = None, blk_size = sz, room = sz\<rparr>"
  let ?s1 = "s\<lparr>answers := map Some as @ rest, blocks := (blocks s)(a \<mapsto> ?b)\<rparr>"
  have l1: "list_at ?s1 t e xs" using Cons.prems(1,4) by (simp add: list_at_def)
  have a: "a \<notin> set xs" "a \<notin> set as" using Cons.prems(3,4) by simp_all
  let ?e = "e\<lparr>mem_head := Some a, total_item := total_item e + 1\<rparr>"
  let ?s2 = "?s1\<lparr>blocks := (blocks ?s1)(a \<mapsto> ?b\<lparr>mem_next := mem_head e\<rparr>), sizes := (sizes ?s1)(t \<mapsto> ?e)\<rparr>"
  have push: "add_block t a ?s1 = Some ?s2"
    "list_at ?s2 t ?e (a # xs)" using push_ok [OF l1, of a ?b] a(1) by simp_all
  have fst: "malloc_block sz s = (Some a, s\<lparr>answers := map Some as @ rest, blocks := (blocks s)(a \<mapsto> ?b\<lparr>blk_size := 0\<rparr>)\<rparr>)"
    using Cons.prems(2) by (simp add: malloc_block_def)
  have loop: "init_loop n t sz s = init_loop (length as) t sz ?s2"
    using fst push(1) Cons.prems(5) by (simp add: upd_block_def)
  have "set as \<inter> set (a # xs) = {}" using Cons.prems(3,4) by auto
  from Cons.IH [OF push(2) _ _ this refl] obtain s' e' where s': "init_loop (length as) t sz ?s2 = Some (0, s')"
    "list_at s' t e' (rev as @ a # xs)" "mem_size e' = mem_size ?e" "total_item e' = total_item ?e + of_nat (length as)"
    "answers s' = rest" "frame_ok ?s2 s' t (set as)" "\<forall>a \<in> set as. \<exists>b. blocks s' a = Some b \<and> blk_size b = sz \<and> room b = sz"
    using Cons.prems(3) by auto
  have "blocks s' a = Some (?b\<lparr>mem_next := mem_head e\<rparr>)" using s'(6) a(2) by (simp add: frame_ok_def)
  moreover have "frame_ok s s' t (set (a # as))" using s'(6) by (simp add: frame_ok_def)
  ultimately show ?case using loop s' Cons.prems(5) by (intro exI [of _ s'] exI [of _ e']) (simp add: algebra_simps)
qed

lemma drop_all_ok:
  assumes "list_at s t e xs"
  shows "\<exists>s' e'. drop_all t s = Some s' \<and> sizes s' t = Some (e\<lparr>mem_head := None\<rparr>) \<and> answers s' = answers s
    \<and> frame_ok s s' t (set xs) \<and> (\<forall>a \<in> set xs. blocks s' a = None)"
  using assms
proof (induction xs arbitrary: s e)
  case Nil
  then show ?case using list_first [OF Nil] by (subst drop_all.simps) (cases e, auto simp: list_at_def frame_ok_def)
next
  case (Cons a xs)
  obtain b where b: "blocks s a = Some b" "SLIST_REMOVE_HEAD t s = Some (s\<lparr>sizes := (sizes s)(t \<mapsto> e\<lparr>mem_head := mem_next b\<rparr>)\<rparr>)"
    "chain (blocks s) (mem_next b) xs" using pop_ok [OF Cons.prems] by blast
  let ?s = "s\<lparr>sizes := (sizes s)(t \<mapsto> e\<lparr>mem_head := mem_next b\<rparr>), blocks := (blocks s)(a := None)\<rparr>"
  have "list_at ?s t (e\<lparr>mem_head := mem_next b\<rparr>) xs" using b(3) Cons.prems by (simp add: list_at_def)
  from Cons.IH [OF this] obtain s' where s': "drop_all t ?s = Some s'" "sizes s' t = Some (e\<lparr>mem_head := None\<rparr>)" "answers s' = answers s"
    "frame_ok ?s s' t (set xs)" "\<forall>a \<in> set xs. blocks s' a = None" by auto
  have "drop_all t s = Some s'"
    using list_first [OF Cons.prems] b(1,2) s'(1) by (subst drop_all.simps) (simp add: free_block_def)
  moreover have "blocks s' a = None" using s'(4) Cons.prems by (simp add: frame_ok_def list_at_def)
  ultimately show ?case using s' by (auto simp: frame_ok_def)
qed

lemma trim_ok:
  assumes "list_at s t e xs" and "length xs = unat (total_item e)" and "total_item e > g_pre_free_num s"
  shows "\<exists>s' e'. trim t s = Some s' \<and> list_at s' t e' (drop (length xs - unat (g_pre_free_num s)) xs) \<and> mem_size e' = mem_size e
    \<and> total_item e' = g_pre_free_num s \<and> answers s' = answers s \<and> frame_ok s s' t (set (take (length xs - unat (g_pre_free_num s)) xs))"
  using assms
proof (induction xs arbitrary: s e)
  case Nil
  then show ?case by (simp add: word_less_nat_alt)
next
  case (Cons a xs)
  obtain b where b: "blocks s a = Some b" "SLIST_REMOVE_HEAD t s = Some (s\<lparr>sizes := (sizes s)(t \<mapsto> e\<lparr>mem_head := mem_next b\<rparr>)\<rparr>)"
    "chain (blocks s) (mem_next b) xs" using pop_ok [OF Cons.prems(1)] by blast
  let ?e = "e\<lparr>mem_head := mem_next b, total_item := total_item e - 1\<rparr>"
  let ?s = "s\<lparr>sizes := (sizes s)(t \<mapsto> ?e), blocks := (blocks s)(a := None)\<rparr>"
  have l: "list_at ?s t ?e xs" using b(3) Cons.prems(1) by (simp add: list_at_def)
  have "total_item e \<noteq> 0" using Cons.prems(3) by auto
  then have n: "unat (total_item e - 1) = length xs" using Cons.prems(2) by (simp add: unat_minus_one)
  have eq: "trim t s = (if total_item e - 1 = g_pre_free_num s then Some ?s else trim t ?s)"
    using list_first [OF Cons.prems(1)] b(1,2) by (subst trim.simps) (simp add: free_block_def upd_size_def)
  show ?case
  proof (cases "total_item e - 1 = g_pre_free_num s")
    case True
    then have "length xs = unat (g_pre_free_num s)" using n by simp
    then show ?thesis using eq True l by (intro exI [of _ ?s] exI [of _ ?e]) (simp add: frame_ok_def)
  next
    case False
    then have gt: "total_item ?e > g_pre_free_num ?s"
      using Cons.prems(2,3) n by (auto simp: word_less_nat_alt word_unat_eq_iff)
    from Cons.IH [OF l] obtain s' e' where s': "trim t ?s = Some s'" "list_at s' t e' (drop (length xs - unat (g_pre_free_num s)) xs)"
      "mem_size e' = mem_size e" "total_item e' = g_pre_free_num s" "answers s' = answers s"
      "frame_ok ?s s' t (set (take (length xs - unat (g_pre_free_num s)) xs))" using n gt by auto
    have "length xs \<ge> unat (g_pre_free_num s)" using gt n by (simp add: word_less_nat_alt)
    then have d: "length (a # xs) - unat (g_pre_free_num s) = Suc (length xs - unat (g_pre_free_num s))" by simp
    show ?thesis unfolding d using eq False s' by (intro exI [of _ s'] exI [of _ e']) (auto simp: frame_ok_def)
  qed
qed


section \<open>The pool\<close>

definition key :: "mempool \<Rightarrow> nat \<Rightarrow> int" where
  "key s t = (case sizes s t of Some e \<Rightarrow> mem_size e | None \<Rightarrow> 0)"

text \<open>A block of the size of an entry, with that much room.\<close>

definition fits :: "mempool \<Rightarrow> int \<Rightarrow> nat \<Rightarrow> bool" where
  "fits s n a \<longleftrightarrow> (\<exists>b. blocks s a = Some b \<and> blk_size b = n \<and> room b = n)"

text \<open>
  The invariant: the entries \<open>S\<close> are indexed by their sizes, each has its list \<open>F t\<close> of free blocks of that
  size and counts them, no block is in two lists, and no list is longer than the limit allows.
\<close>

definition pool_ok :: "mempool \<Rightarrow> nat set \<Rightarrow> (nat \<Rightarrow> nat list) \<Rightarrow> bool" where
  "pool_ok s S F \<longleftrightarrow> tree_index (key s) (mp_tree s) S
     \<and> (\<forall>t \<in> S. \<exists>e. list_at s t e (F t) \<and> length (F t) = unat (total_item e) \<and> 0 < mem_size e \<and> mem_size e < 2 ^ 31
          \<and> (\<forall>a \<in> set (F t). fits s (mem_size e) a) \<and> length (F t) \<le> unat (g_pre_free_num s) + 1)
     \<and> (\<forall>t \<in> S. \<forall>t' \<in> S. t \<noteq> t' \<longrightarrow> set (F t) \<inter> set (F t') = {})"

text \<open>A block that the program uses: allocated, of a size of the pool, and in no free list.\<close>

definition in_use :: "mempool \<Rightarrow> nat set \<Rightarrow> (nat \<Rightarrow> nat list) \<Rightarrow> nat \<Rightarrow> bool" where
  "in_use s S F a \<longleftrightarrow> (\<exists>t \<in> S. fits s (key s t) a) \<and> (\<forall>t \<in> S. a \<notin> set (F t))"

lemma pool_okD:
  assumes "pool_ok s S F" and "t \<in> S"
  obtains e where "list_at s t e (F t)" "length (F t) = unat (total_item e)" "0 < mem_size e" "mem_size e < 2 ^ 31"
    "\<And>a. a \<in> set (F t) \<Longrightarrow> fits s (mem_size e) a" "length (F t) \<le> unat (g_pre_free_num s) + 1" "key s t = mem_size e"
    "sizes s t = Some e"
proof -
  obtain e where "list_at s t e (F t)" "length (F t) = unat (total_item e)" "0 < mem_size e" "mem_size e < 2 ^ 31"
    "\<forall>a \<in> set (F t). fits s (mem_size e) a" "length (F t) \<le> unat (g_pre_free_num s) + 1"
    using assms unfolding pool_ok_def by blast
  then show ?thesis using that by (simp add: key_def list_at_def)
qed

lemma size_cmp_compares:
  assumes "pool_ok s S F" and "0 < n" and "n < 2 ^ 31"
  shows "compares (size_cmp n (sizes s)) (key s) n S"
  unfolding compares_def
proof
  fix t
  assume "t \<in> S"
  then obtain e where e: "sizes s t = Some e" "0 < mem_size e" "mem_size e < 2 ^ 31" using pool_okD [OF assms(1)] by metis
  then have "to_int32 (n - mem_size e) = n - mem_size e" using assms(2,3) by simp
  then show "(size_cmp n (sizes s) t < 0) = (n < key s t) \<and> (0 < size_cmp n (sizes s) t) = (key s t < n)"
    using e(1) by (auto simp: size_cmp_def key_def)
qed

lemma pool_find:
  assumes "pool_ok s S F" and "0 < n" and "n < 2 ^ 31"
  shows "\<exists>r. RB_FIND (size_cmp n (sizes s)) (mp_tree s) = Some r
    \<and> (case r of None \<Rightarrow> n \<notin> key s ` S | Some t \<Rightarrow> t \<in> S \<and> key s t = n)"
  using rb.find_law [OF _ size_cmp_compares [OF assms]] assms(1) by (simp add: pool_ok_def)

lemma pool_used:
  assumes "pool_ok s S F" and "t \<in> S"
  shows "set (F t) \<subseteq> dom (blocks s)"
proof -
  obtain e where "sizes s t = Some e" "\<And>a. a \<in> set (F t) \<Longrightarrow> fits s (mem_size e) a" using pool_okD [OF assms] by metis
  then show ?thesis by (auto simp: fits_def)
qed

text \<open>The invariant after a change of one list.\<close>

lemma pool_ok_focus:
  assumes s: "pool_ok s S F" and t: "t \<in> S" and fr: "frame_ok s s' t A"
    and l: "list_at s' t e' xs" "mem_size e' = key s t" "length xs = unat (total_item e')" "\<And>a. a \<in> set xs \<Longrightarrow> fits s' (key s t) a"
      "length xs \<le> unat (g_pre_free_num s) + 1"
    and dis: "\<And>t'. t' \<in> S \<Longrightarrow> t' \<noteq> t \<Longrightarrow> (A \<union> set xs) \<inter> set (F t') = {}"
  shows "pool_ok s' S (F(t := xs))"
    and "in_use s S F a \<Longrightarrow> a \<notin> A \<union> set xs \<Longrightarrow> in_use s' S (F(t := xs)) a"
proof -
  have key: "key s' t' = key s t'" for t' using fr l(1,2) by (cases "t' = t") (auto simp: frame_ok_def key_def list_at_def)
  have other: "\<exists>e. list_at s' t' e (F t') \<and> length (F t') = unat (total_item e) \<and> 0 < mem_size e \<and> mem_size e < 2 ^ 31
      \<and> (\<forall>a \<in> set (F t'). fits s' (mem_size e) a) \<and> length (F t') \<le> unat (g_pre_free_num s') + 1" if t': "t' \<in> S" "t' \<noteq> t" for t'
  proof -
    obtain e where e: "list_at s t' e (F t')" "length (F t') = unat (total_item e)" "0 < mem_size e" "mem_size e < 2 ^ 31"
      "\<And>a. a \<in> set (F t') \<Longrightarrow> fits s (mem_size e) a" "length (F t') \<le> unat (g_pre_free_num s) + 1" using pool_okD [OF s t'(1)] by metis
    have b: "blocks s' a = blocks s a" if "a \<in> set (F t')" for a using dis [OF t'] fr that by (auto simp: frame_ok_def)
    then have "chain (blocks s') (mem_head e) (F t') = chain (blocks s) (mem_head e) (F t')" by (rule chain_cong)
    then show ?thesis using e b fr t'(2) by (auto simp: list_at_def frame_ok_def fits_def)
  qed
  obtain e where "sizes s t = Some e" "0 < mem_size e" "mem_size e < 2 ^ 31" "key s t = mem_size e" using pool_okD [OF s t] by metis
  then have "\<exists>e. list_at s' t e xs \<and> length xs = unat (total_item e) \<and> 0 < mem_size e \<and> mem_size e < 2 ^ 31
      \<and> (\<forall>a \<in> set xs. fits s' (mem_size e) a) \<and> length xs \<le> unat (g_pre_free_num s') + 1"
    using l fr by (intro exI [of _ e']) (simp add: frame_ok_def)
  moreover have "tree_index (key s') (mp_tree s') S"
    using rb.rep_key [of "key s" "mp_tree s" S "key s'"] s key fr by (simp add: pool_ok_def frame_ok_def)
  moreover have "set xs \<inter> set (F t') = {}" if "t' \<in> S" "t' \<noteq> t" for t' using dis [OF that] by blast
  then have "\<forall>t1 \<in> S. \<forall>t2 \<in> S. t1 \<noteq> t2 \<longrightarrow> set ((F(t := xs)) t1) \<inter> set ((F(t := xs)) t2) = {}"
    using s by (simp add: pool_ok_def) blast
  ultimately show "pool_ok s' S (F(t := xs))" using other unfolding pool_ok_def by simp
  show "in_use s' S (F(t := xs)) a" if "in_use s S F a" "a \<notin> A \<union> set xs"
    using that key fr by (auto simp: in_use_def fits_def frame_ok_def)
qed


text \<open>The result of an allocation: a block with room for the request that was not in use, and the pool is kept.\<close>

definition allocates :: "mempool \<Rightarrow> nat set \<Rightarrow> (nat \<Rightarrow> nat list) \<Rightarrow> int \<Rightarrow> (ptr \<times> mempool) option \<Rightarrow> bool" where
  "allocates s S F n r \<longleftrightarrow> (\<exists>a s' S' F'. r = Some (Some (a + HEADER), s') \<and> pool_ok s' S' F' \<and> in_use s' S' F' a \<and> fits s' n a
     \<and> \<not> in_use s S F a \<and> (\<forall>x. in_use s S F x \<longrightarrow> in_use s' S' F' x))"

lemma new_block_ok:
  assumes "answers s = Some a # as"
  shows "\<exists>s'. new_block n s = Some (Some (a + HEADER), s') \<and> fits s' n a \<and> frame_ok s s' t {a} \<and> sizes s' = sizes s"
  using assms by (auto simp: new_block_def malloc_block_def upd_block_def fits_def frame_ok_def)

lemma frame_ok_trans: "frame_ok s s1 t A \<Longrightarrow> frame_ok s1 s2 t B \<Longrightarrow> frame_ok s s2 t (A \<union> B)"
  by (simp add: frame_ok_def)

text \<open>The first block of the list is taken.\<close>

lemma alloc_pop:
  assumes s: "pool_ok s S F" and t: "t \<in> S" "key s t = n" and l: "F t = a # xs"
  shows "\<exists>s1 s'. SLIST_REMOVE_HEAD t s = Some s1 \<and> upd_size t (\<lambda>e. e\<lparr>total_item := total_item e - 1\<rparr>) s1 = Some s'
    \<and> allocates s S F n (Some (Some (a + HEADER), s'))"
proof -
  obtain e where e: "list_at s t e (a # xs)" "length (a # xs) = unat (total_item e)" "\<And>b. b \<in> set (a # xs) \<Longrightarrow> fits s n b"
    "length (a # xs) \<le> unat (g_pre_free_num s) + 1" "mem_size e = n" "sizes s t = Some e"
    using pool_okD [OF s t(1)] l t(2) by metis
  obtain b where b: "SLIST_REMOVE_HEAD t s = Some (s\<lparr>sizes := (sizes s)(t \<mapsto> e\<lparr>mem_head := mem_next b\<rparr>)\<rparr>)"
    "chain (blocks s) (mem_next b) xs" "blocks s a = Some b" using pop_ok [OF e(1)] by blast
  let ?e = "e\<lparr>mem_head := mem_next b, total_item := total_item e - 1\<rparr>"
  let ?s = "s\<lparr>sizes := (sizes s)(t \<mapsto> ?e)\<rparr>"
  have "total_item e \<noteq> 0" using e(2) by auto
  then have n: "length xs = unat (total_item e - 1)" using e(2) by (simp add: unat_minus_one)
  have dis: "set (a # xs) \<inter> set (F t') = {}" if "t' \<in> S" "t' \<noteq> t" for t'
    using s that t(1) l unfolding pool_ok_def by metis
  have fr: "frame_ok s ?s t {}" by (simp add: frame_ok_def)
  have fit: "fits ?s n b" if "b \<in> set (a # xs)" for b using e(3) [OF that] by (simp add: fits_def)
  have ok: "pool_ok ?s S (F(t := xs))" "\<And>x. in_use s S F x \<Longrightarrow> x \<notin> set xs \<Longrightarrow> in_use ?s S (F(t := xs)) x"
    using pool_ok_focus [OF s t(1) fr, of ?e xs] e b(2) n fit dis t(2) by (auto simp: list_at_def)
  have "key ?s t = n" using e(5) by (simp add: key_def)
  then have "in_use ?s S (F(t := xs)) a" using fit [of a] t(1) dis e(1) by (fastforce simp: in_use_def list_at_def)
  moreover have "\<not> in_use s S F a" using t(1) l by (metis in_use_def list.set_intros(1))
  moreover have "in_use ?s S (F(t := xs)) x" if "in_use s S F x" for x using ok(2) [OF that] that t(1) l by (auto simp: in_use_def)
  ultimately have "allocates s S F n (Some (Some (a + HEADER), ?s))" unfolding allocates_def using ok(1) fit [of a] by auto
  then show ?thesis using b(1) e(6) by (simp add: upd_size_def)
qed

text \<open>A list is filled and one more block goes to the caller.\<close>

lemma alloc_fill:
  assumes s: "pool_ok s S F" and t: "t \<in> S" "key s t = n" and l: "F t = []"
    and as: "answers s = map Some (as @ [a]) @ rest" "distinct (as @ [a])" "set (as @ [a]) \<inter> dom (blocks s) = {}"
    and len: "length as \<le> unat (g_pre_free_num s) + 1" "length as < 2 ^ 32"
  shows "\<exists>s1 s2 r. SLIST_INIT t s = Some s1 \<and> init_loop (length as) t n s1 = Some (0, s2) \<and> new_block n s2 = r \<and> allocates s S F n r"
proof -
  obtain e where e: "list_at s t e []" "0 = unat (total_item e)" "mem_size e = n" "sizes s t = Some e" "0 < n" "n < 2 ^ 31"
    using pool_okD [OF s t(1)] l t(2) by (metis list.size(3))
  let ?e1 = "e\<lparr>mem_head := None\<rparr>"
  let ?s1 = "s\<lparr>sizes := (sizes s)(t \<mapsto> ?e1)\<rparr>"
  have 1: "SLIST_INIT t s = Some ?s1" using e(4) by (simp add: SLIST_INIT_def upd_size_def)
  have l1: "list_at ?s1 t ?e1 []" using e(1) by (simp add: list_at_def)
  have ans: "answers ?s1 = map Some as @ (Some a # rest)" using as(1) by simp
  obtain s2 e2 where 2: "init_loop (length as) t n ?s1 = Some (0, s2)" "list_at s2 t e2 (rev as)" "mem_size e2 = mem_size ?e1"
    "total_item e2 = total_item ?e1 + of_nat (length as)" "answers s2 = Some a # rest" "frame_ok ?s1 s2 t (set as)"
    "\<forall>a \<in> set as. \<exists>b. blocks s2 a = Some b \<and> blk_size b = n \<and> room b = n"
    using init_loop_ok [OF l1 ans, of "length as" n] as(2) by auto
  obtain s3 where 3: "new_block n s2 = Some (Some (a + HEADER), s3)" "fits s3 n a" "frame_ok s2 s3 t {a}" "sizes s3 = sizes s2"
    using new_block_ok [OF 2(5), of n t] by blast
  have fr: "frame_ok s s3 t (set (as @ [a]))"
    using frame_ok_trans [OF frame_ok_trans [OF _ 2(6)] 3(3), of s "{}"] by (simp add: frame_ok_def insert_commute)
  have a: "a \<notin> set as" using as(2) by simp
  have b3: "blocks s3 x = blocks s2 x" if "x \<in> set as" for x using 3(3) a that by (auto simp: frame_ok_def)
  have l3: "list_at s3 t e2 (rev as)"
    using 2(2) 3(4) chain_cong [of "rev as" "blocks s3" "blocks s2"] b3 by (simp add: list_at_def)
  have "total_item e = 0" using e(2) by (simp add: unat_eq_zero)
  then have tot: "length (rev as) = unat (total_item e2)" using 2(4) len(2) by (simp add: unat_of_nat)
  have fit: "fits s3 n x" if "x \<in> set (rev as)" for x using 2(7) b3 that by (auto simp: fits_def)
  note used = pool_used [OF s]
  have dis: "(set (as @ [a]) \<union> set (rev as)) \<inter> set (F t') = {}" if "t' \<in> S" "t' \<noteq> t" for t'
    using used [OF that(1)] as(3) by auto
  have m: "mem_size e2 = key s t" using 2(3) e(3) t(2) by simp
  note ok = pool_ok_focus [OF s t(1) fr l3 m tot]
  have pool: "pool_ok s3 S (F(t := rev as))" by (rule ok(1)) (use fit dis len t(2) in auto)
  have keep: "in_use s3 S (F(t := rev as)) x" if "in_use s S F x" for x
  proof -
    have "x \<notin> set (as @ [a]) \<union> set (rev as)" using that as(3) by (fastforce simp: in_use_def fits_def)
    then show ?thesis by (intro ok(2)) (use fit dis len t(2) that in auto)
  qed
  have "key s3 t = n" using l3 2(3) e(3) by (simp add: key_def list_at_def)
  moreover have "a \<notin> set (F t')" if "t' \<in> S" for t' using used [OF that] as(3) by auto
  ultimately have "in_use s3 S (F(t := rev as)) a" using 3(2) t(1) a by (auto simp: in_use_def)
  moreover have "\<not> in_use s S F a" using as(3) by (auto simp: in_use_def fits_def)
  ultimately have "allocates s S F n (Some (Some (a + HEADER), s3))" unfolding allocates_def using pool keep 3(2) by blast
  then show ?thesis using 1 2(1) 3(1) by blast
qed


text \<open>A new size: the lists are filled before the entry is in the tree, which makes no difference to them.\<close>

lemma add_block_tree: "add_block t a (s\<lparr>mp_tree := T\<rparr>) = map_option (\<lambda>s. s\<lparr>mp_tree := T\<rparr>) (add_block t a s)"
  by (auto simp: add_block_def SLIST_INSERT_HEAD_def SLIST_FIRST_def upd_block_def upd_size_def bind_eq_None_conv
      split: option.splits Option.bind_splits)

lemma init_loop_tree:
  "answers s = map Some as @ rest \<Longrightarrow>
   init_loop (length as) t n (s\<lparr>mp_tree := T\<rparr>) = map_option (\<lambda>(r, s). (r, s\<lparr>mp_tree := T\<rparr>)) (init_loop (length as) t n s)"
proof (induction as arbitrary: s)
  case (Cons a as)
  let ?s = "s\<lparr>answers := map Some as @ rest, blocks := (blocks s)(a \<mapsto> \<lparr>mem_next = None, blk_size = n, room = n\<rparr>)\<rparr>"
  have "init_loop (length (a # as)) t n s = Option.bind (add_block t a ?s) (init_loop (length as) t n)"
    using Cons.prems by (simp add: malloc_block_def upd_block_def)
  moreover have sw: "s\<lparr>mp_tree := T, answers := map Some as @ rest, blocks := (blocks s)(a \<mapsto> \<lparr>mem_next = None, blk_size = n, room = n\<rparr>)\<rparr>
      = ?s\<lparr>mp_tree := T\<rparr>" by (cases s) simp
  have "init_loop (length (a # as)) t n (s\<lparr>mp_tree := T\<rparr>) = Option.bind (add_block t a (?s\<lparr>mp_tree := T\<rparr>)) (init_loop (length as) t n)"
    unfolding sw [symmetric] using Cons.prems by (simp add: malloc_block_def upd_block_def)
  moreover have "answers s' = map Some as @ rest" if "add_block t a ?s = Some s'" for s'
    using that by (auto simp: add_block_def SLIST_INSERT_HEAD_def SLIST_FIRST_def upd_block_def upd_size_def split: Option.bind_splits)
  ultimately show ?case using Cons.IH by (cases "add_block t a ?s") (simp_all add: add_block_tree)
qed simp

text \<open>The state with the new, empty entry.\<close>

definition with_entry :: "mempool \<Rightarrow> nat \<Rightarrow> int \<Rightarrow> ptr list \<Rightarrow> rb_tree \<Rightarrow> mempool" where
  "with_entry s t n as T = s\<lparr>answers := as, sizes := (sizes s)(t \<mapsto> \<lparr>mem_size = n, total_item = 0, mem_head = None\<rparr>), mp_tree := T\<rparr>"

lemma pool_ok_entry:
  assumes s: "pool_ok s S F" and t: "t \<notin> S" and n: "0 < n" "n < 2 ^ 31"
    and T: "tree_index (key (with_entry s t n as T)) T (insert t S)"
  shows "pool_ok (with_entry s t n as T) (insert t S) (F(t := []))"
    and "in_use s S F x \<Longrightarrow> in_use (with_entry s t n as T) (insert t S) (F(t := [])) x"
proof -
  let ?s = "with_entry s t n as T"
  have eq: "list_at ?s t' e xs = list_at s t' e xs" "fits ?s m a = fits s m a" "key ?s t' = key s t'" if "t' \<noteq> t" for t' e xs m a
    using that by (simp_all add: with_entry_def list_at_def fits_def key_def)
  have "\<exists>e. list_at ?s t' e ((F(t := [])) t') \<and> length ((F(t := [])) t') = unat (total_item e) \<and> 0 < mem_size e \<and> mem_size e < 2 ^ 31
      \<and> (\<forall>a \<in> set ((F(t := [])) t'). fits ?s (mem_size e) a) \<and> length ((F(t := [])) t') \<le> unat (g_pre_free_num ?s) + 1"
    if t': "t' \<in> insert t S" for t'
  proof (cases "t' = t")
    case True
    then show ?thesis using n by (simp add: with_entry_def list_at_def)
  next
    case False
    then obtain e where "list_at s t' e (F t')" "length (F t') = unat (total_item e)" "0 < mem_size e" "mem_size e < 2 ^ 31"
      "\<And>a. a \<in> set (F t') \<Longrightarrow> fits s (mem_size e) a" "length (F t') \<le> unat (g_pre_free_num s) + 1"
      using pool_okD [OF s, of t'] t' by (metis insertE)
    then show ?thesis using False eq by (intro exI [of _ e]) (simp add: with_entry_def fits_def list_at_def)
  qed
  moreover have "\<forall>t1 \<in> insert t S. \<forall>t2 \<in> insert t S. t1 \<noteq> t2 \<longrightarrow> set ((F(t := [])) t1) \<inter> set ((F(t := [])) t2) = {}"
    using s by (auto simp: pool_ok_def)
  moreover have "mp_tree ?s = T" by (simp add: with_entry_def)
  ultimately show "pool_ok ?s (insert t S) (F(t := []))" unfolding pool_ok_def using T by simp
  show "in_use ?s (insert t S) (F(t := [])) x" if "in_use s S F x"
    using that eq t by (fastforce simp: in_use_def with_entry_def fits_def key_def)
qed

end
