(* ===== verification/Mempool_Alloc.thy ===== *)
theory Mempool_Alloc
  imports Mempool_Props
begin

text \<open>
  The properties of the memory pool: allocation and release keep the pool consistent and
  the blocks in use apart, and two flaws in the handling of large requests and of a failing
  system allocator.
\<close>

section \<open>Allocation\<close>

lemma allocates_mono:
  "allocates s1 S1 F1 n r \<Longrightarrow> (\<And>x. in_use s S F x \<Longrightarrow> in_use s1 S1 F1 x) \<Longrightarrow> allocates s S F n r"
  unfolding allocates_def by blast

text \<open>The search for the size of an entry finds this entry.\<close>

lemma pool_find_entry:
  assumes "pool_ok s S F" and "t \<in> S"
  shows "RB_FIND (size_cmp (key s t) (sizes s)) (mp_tree s) = Some (Some t)"
proof -
  have "0 < key s t" "key s t < 2 ^ 31" using pool_okD [OF assms] by metis+
  then obtain t' where t': "RB_FIND (size_cmp (key s t) (sizes s)) (mp_tree s) = Some (Some t')" "t' \<in> S" "key s t' = key s t"
    using pool_find [OF assms(1)] assms(2) by (fastforce split: option.splits)
  moreover have "t' = t" using rb.rep_inj [of "key s" "mp_tree s" S] assms t'(2,3) by (simp add: pool_ok_def inj_on_def)
  ultimately show ?thesis by simp
qed

lemma mempool_upd_swap: "s\<lparr>mp_tree := T, sizes := z\<rparr> = s\<lparr>sizes := z, mp_tree := T\<rparr>" for s :: mempool
  by (cases s) simp

lemma alloc_new:
  assumes s: "pool_ok s S F" "mp_initialized s" and n: "0 < n" "n < 2 ^ 31" "n \<notin> key s ` S"
    and as: "answers s = map Some (t # as @ [a]) @ rest" "distinct (as @ [a])" "set (as @ [a]) \<inter> dom (blocks s) = {}" "t \<notin> dom (sizes s)"
    and len: "length as = unat (g_pre_alloc_num s - 1)" "length as \<le> unat (g_pre_free_num s) + 1"
  shows "allocates s S F n (mp_alloc n s)"
proof -
  let ?ans = "map Some (as @ [a]) @ rest"
  let ?T0 = "(mp_tree s)\<lparr>entries := (entries (mp_tree s))(t \<mapsto> \<lparr>rbe_left = None, rbe_right = None, rbe_parent = None, rbe_color = RB_BLACK\<rparr>)\<rparr>"
  let ?W = "with_entry s t n ?ans"
  have WT: "?W T = (?W ?T0)\<lparr>mp_tree := T\<rparr>" for T by (simp add: with_entry_def)
  have n32: "to_int32 n = n" using n by simp
  have t: "t \<notin> S" using as(4) pool_okD [OF s(1), of t] by (metis domI)
  have kS: "key (?W T) x = key s x" if "x \<in> S" for x T using that t by (auto simp: key_def with_entry_def)
  have kt: "key (?W T) t = n" for T by (simp add: key_def with_entry_def)
  have "tree_index (key (?W ?T0)) (mp_tree s) S" using rb.rep_key [of "key s"] s(1) kS by (simp add: pool_ok_def)
  then have i0: "tree_index (key (?W ?T0)) ?T0 S" using tree_index_alloc [OF _ t] by blast
  have cmp: "compares (size_cmp n (sizes (?W ?T0))) (key (?W ?T0)) (key (?W ?T0) t) S"
    using size_cmp_compares [OF s(1) n(1,2)] t kS kt unfolding compares_def
    by (auto simp: size_cmp_def with_entry_def)
  have "key (?W ?T0) t \<notin> key (?W ?T0) ` S" using n(3) kS kt by (auto simp: image_iff)
  then obtain T where T: "RB_INSERT (size_cmp n (sizes (?W ?T0))) t ?T0 = Some (None, T)" "tree_index (key (?W ?T0)) T (insert t S)"
    using rb.ins_new [OF i0 cmp] by (auto simp: tree_cell_def)
  have key_W: "key (?W T) = key (?W ?T0)" by (simp add: with_entry_def key_def fun_eq_iff)
  note pool = pool_ok_entry [OF s(1) t n(1,2), of ?ans T, unfolded key_W, OF T(2)]
  have "set (as @ [a]) \<inter> dom (blocks (?W T)) = {}" using as(3) by (simp add: with_entry_def)
  moreover have "unat (g_pre_alloc_num s - 1) < 2 ^ LENGTH(32)" by (rule unsigned_less)
  then have "length as < 2 ^ 32" using len(1) by simp
  ultimately obtain s1 s2 r where f: "SLIST_INIT t (?W T) = Some s1" "init_loop (length as) t n s1 = Some (0, s2)" "new_block n s2 = r"
    "allocates (?W T) (insert t S) (F(t := [])) n r"
    using alloc_fill [OF pool(1) _ kt _ _ as(2), of rest] len(2) by (auto simp: with_entry_def)
  have "s1 = ?W T" using f(1) by (auto simp: SLIST_INIT_def upd_size_def with_entry_def)
  moreover have "answers (?W ?T0) = map Some as @ Some a # rest" by (simp add: with_entry_def)
  ultimately have "map_option (\<lambda>(r, s). (r, s\<lparr>mp_tree := T\<rparr>)) (init_loop (length as) t n (?W ?T0)) = Some (0, s2)"
    using f(2) init_loop_tree [of "?W ?T0" as "Some a # rest" t n T] WT [of T] by simp
  then obtain s3 where s3: "init_loop (length as) t n (?W ?T0) = Some (0, s3)" "s2 = s3\<lparr>mp_tree := T\<rparr>" by auto
  have l0: "list_at (?W ?T0) t \<lparr>mem_size = n, total_item = 0, mem_head = None\<rparr> []" by (simp add: list_at_def with_entry_def)
  obtain e3 where e3: "sizes s3 t = Some e3" "mem_size e3 = n" "frame_ok (?W ?T0) s3 t (set as)"
    using init_loop_ok [OF l0, of as "Some a # rest" "length as" n] s3(1) as(2) by (auto simp: list_at_def with_entry_def)
  have "sizes s3 x = sizes (?W ?T0) x" if "x \<noteq> t" for x using e3(3) that by (simp add: frame_ok_def)
  then have "size_cmp n (sizes s3) = size_cmp n (sizes (?W ?T0))" using e3(1,2) by (auto simp: size_cmp_def fun_eq_iff with_entry_def)
  moreover have "mp_tree s3 = ?T0" using e3(3) by (simp add: frame_ok_def with_entry_def)
  moreover have "RB_FIND (size_cmp n (sizes s)) (mp_tree s) = Some None"
    using pool_find [OF s(1) n(1,2)] n(3) by (fastforce split: option.splits)
  ultimately have "mp_alloc n s = r"
    using s(2) n n32 as(1) T(1) s3 f(3) len(1)
    by (simp add: mp_alloc_def calloc_entry_def upd_size_def SLIST_INIT_def mp_init_block_def with_entry_def mempool_upd_swap)
  then show ?thesis using allocates_mono [OF f(4) pool(2)] by simp
qed


text \<open>
  The system allocator gives fresh memory: the next answers are distinct addresses that are not in use.
\<close>

definition gives :: "mempool \<Rightarrow> nat list \<Rightarrow> bool" where
  "gives s as \<longleftrightarrow> (\<exists>rest. answers s = map Some as @ rest) \<and> distinct as \<and> set as \<inter> (dom (blocks s) \<union> dom (sizes s)) = {}"

lemma alloc_known:
  assumes "pool_ok s S F" and "mp_initialized s" and t: "t \<in> S" and "gives s as" and "length as = unat (g_pre_alloc_num s) + 1"
    and "g_pre_alloc_num s \<noteq> 0" and "g_pre_alloc_num s \<le> g_pre_free_num s"
  shows "allocates s S F (key s t) (mp_alloc (key s t) s)"
proof -
  let ?k = "unat (g_pre_alloc_num s - 1)"
  obtain e where e: "sizes s t = Some e" "list_at s t e (F t)" "length (F t) = unat (total_item e)" "key s t = mem_size e" "0 < key s t" "key s t < 2 ^ 31"
    using pool_okD [OF assms(1) t] by metis
  have n32: "to_int32 (key s t) = key s t" using e(5,6) by simp
  note find = pool_find_entry [OF assms(1) t]
  show ?thesis
  proof (cases "F t")
    case Nil
    obtain rest where rest: "answers s = map Some as @ rest" "distinct as" "set as \<inter> (dom (blocks s) \<union> dom (sizes s)) = {}"
      using assms(4) by (auto simp: gives_def)
    have k: "?k < length as" "?k \<le> unat (g_pre_free_num s) + 1" using assms(5-7) by (simp_all add: unat_minus_one word_le_nat_alt)
    then have "as = take ?k as @ [as ! ?k] @ drop (Suc ?k) as" "length (take ?k as) = ?k" using id_take_nth_drop [of ?k as] by simp_all
    then obtain bs a cs where bs: "as = bs @ [a] @ cs" "length bs = ?k" by blast
    have h: "answers s = map Some (bs @ [a]) @ map Some cs @ rest" "distinct (bs @ [a])" "set (bs @ [a]) \<inter> dom (blocks s) = {}"
      using rest bs(1) by auto
    have "unat (g_pre_alloc_num s - 1) < 2 ^ LENGTH(32)" by (rule unsigned_less)
    then have "length bs \<le> unat (g_pre_free_num s) + 1" "length bs < 2 ^ 32" using bs(2) k(2) by simp_all
    from alloc_fill [OF assms(1) t refl Nil h this]
    obtain s1 s2 r where f: "SLIST_INIT t s = Some s1" "init_loop (length bs) t (key s t) s1 = Some (0, s2)" "new_block (key s t) s2 = r" "allocates s S F (key s t) r"
      by blast
    moreover have "g_pre_alloc_num s1 = g_pre_alloc_num s" using f(1) e(1) by (auto simp: SLIST_INIT_def upd_size_def)
    moreover have "total_item e = 0" using e(3) Nil by (simp add: unat_eq_zero)
    ultimately show ?thesis using find assms(2) n32 e bs(2) by (simp add: mp_alloc_def mp_init_block_def)
  next
    case (Cons a xs)
    then have "total_item e \<noteq> 0" "mem_head e = Some a" using e(2,3) by (auto simp: list_at_def)
    then show ?thesis using alloc_pop [OF assms(1) t refl Cons] find assms(2) n32 e by (auto simp: mp_alloc_def)
  qed
qed

text \<open>C9:
  \<^verbatim>\<open>mp_alloc\<close> of a positive size below 2 GB on a consistent pool, when the system has memory, returns
  a block of exactly that size that was not in use.  All blocks in use stay in use, and the
  pool stays consistent: the counters, lists and the index of the sizes agree.
\<close>

theorem mp_alloc_correct:
  assumes "pool_ok s S F" and "mp_initialized s" and "0 < n" and "n < 2 ^ 31"
    and "gives s as" and "length as = unat (g_pre_alloc_num s) + 1" and "g_pre_alloc_num s \<noteq> 0" and "g_pre_alloc_num s \<le> g_pre_free_num s"
  shows "\<exists>a s' S' F'. mp_alloc n s = Some (Some (a + HEADER), s') \<and> pool_ok s' S' F' \<and> fits s' n a \<and> in_use s' S' F' a
    \<and> \<not> in_use s S F a \<and> (\<forall>x. in_use s S F x \<longrightarrow> in_use s' S' F' x)"
proof -
  have g: "unat (g_pre_alloc_num s - 1) = unat (g_pre_alloc_num s) - 1" "unat (g_pre_alloc_num s) > 0" "unat (g_pre_alloc_num s) \<le> unat (g_pre_free_num s)"
    using assms(7,8) by (simp_all add: unat_minus_one unat_gt_0 word_le_nat_alt)
  have "allocates s S F n (mp_alloc n s)"
  proof (cases "n \<in> key s ` S")
    case True
    then obtain t where "t \<in> S" "n = key s t" by blast
    then show ?thesis using alloc_known [OF assms(1,2) _ assms(5-8)] by simp
  next
    case False
    obtain rest where rest: "answers s = map Some as @ rest" "distinct as" "set as \<inter> (dom (blocks s) \<union> dom (sizes s)) = {}"
      using assms(5) by (auto simp: gives_def)
    obtain t bs a where bs: "as = t # bs @ [a]" "length bs = unat (g_pre_alloc_num s - 1)"
      using assms(6) g by (cases as; cases "tl as" rule: rev_cases) auto
    moreover have "set (bs @ [a]) \<inter> dom (blocks s) = {}" "t \<notin> dom (sizes s)" using rest(3) bs(1) by auto
    ultimately show ?thesis using False by (intro alloc_new [OF assms(1-4), of t bs a rest]) (use rest g in auto)
  qed
  then show ?thesis unfolding allocates_def by blast
qed

definition ex_pool :: mempool where
  "ex_pool = (mp_init 2 3 mp_start)\<lparr>answers := map Some [100, 200, 300]\<rparr>"

lemma ex_pool_ok: "pool_ok ex_pool {} (\<lambda>_. [])"
proof -
  have "tree_index k \<lparr>rbh_root = None, entries = Map.empty\<rparr> {}" for k :: "nat \<Rightarrow> int"
    unfolding tree_index_def by (rule exI [of _ Lf]) (simp add: tree_at_def red_black_def)
  then show ?thesis by (simp add: pool_ok_def ex_pool_def mp_init_def mp_start_def Let_def)
qed

theorem mp_alloc_correct_witness:
  "\<exists>a s' S' F'. mp_alloc 8 ex_pool = Some (Some (a + HEADER), s') \<and> pool_ok s' S' F' \<and> fits s' 8 a \<and> in_use s' S' F' a"
proof -
  have "gives ex_pool [100, 200, 300]" "length [100, 200, 300 :: nat] = unat (g_pre_alloc_num ex_pool) + 1" "mp_initialized ex_pool"
    "g_pre_alloc_num ex_pool \<noteq> 0" "g_pre_alloc_num ex_pool \<le> g_pre_free_num ex_pool"
    by (auto simp: gives_def ex_pool_def mp_init_def mp_start_def Let_def)
  then show ?thesis using mp_alloc_correct [OF ex_pool_ok, of 8 "[100, 200, 300]"] by auto
qed

section \<open>Release\<close>

lemma free_trims:
  assumes s: "pool_ok s S F" and t: "t \<in> S" "sizes s t = Some e" "total_item e > g_pre_free_num s" and a: "blocks s a \<noteq> None" "\<forall>t \<in> S. a \<notin> set (F t)"
  shows "\<exists>s1 s' F'. free_block a s = Some s1 \<and> trim t s1 = Some s' \<and> pool_ok s' S F' \<and> blocks s' a = None
    \<and> (\<forall>x. x \<noteq> a \<longrightarrow> in_use s S F x \<longrightarrow> in_use s' S F' x)"
proof -
  let ?s1 = "s\<lparr>blocks := (blocks s)(a := None)\<rparr>"
  have e: "list_at s t e (F t)" "length (F t) = unat (total_item e)" "\<And>b. b \<in> set (F t) \<Longrightarrow> fits s (mem_size e) b" "key s t = mem_size e"
    using pool_okD [OF s t(1)] t(2) by (metis option.inject)+
  let ?k = "length (F t) - unat (g_pre_free_num s)"
  have l1: "list_at ?s1 t e (F t)" using e(1) a(2) t(1) by (simp add: list_at_def)
  obtain s' e' where s': "trim t ?s1 = Some s'" "list_at s' t e' (drop ?k (F t))" "mem_size e' = mem_size e" "total_item e' = g_pre_free_num s"
    "frame_ok ?s1 s' t (set (take ?k (F t)))" using trim_ok [OF l1 e(2)] t(3) by auto
  have fr: "frame_ok s s' t (insert a (set (take ?k (F t))))" using s'(5) by (simp add: frame_ok_def)
  have dist: "set (take ?k (F t)) \<inter> set (drop ?k (F t)) = {}" using e(1) by (simp add: list_at_def set_take_disj_set_drop_if_distinct)
  have fit: "fits s' (key s t) x" if "x \<in> set (drop ?k (F t))" for x
  proof -
    have "blocks s' x = blocks s x" using fr dist that a(2) t(1) in_set_dropD [OF that] by (auto simp: frame_ok_def)
    then show ?thesis using e(3,4) in_set_dropD [OF that] by (simp add: fits_def)
  qed
  have len: "length (drop ?k (F t)) = unat (total_item e')" using e(2) t(3) s'(4) by (simp add: word_less_nat_alt)
  have "set (take ?k (F t)) \<subseteq> set (F t)" "set (drop ?k (F t)) \<subseteq> set (F t)" by (simp_all add: set_take_subset set_drop_subset)
  moreover have "set (F t) \<inter> set (F t') = {}" if "t' \<in> S" "t' \<noteq> t" for t' using s that t(1) unfolding pool_ok_def by metis
  ultimately have dis: "(insert a (set (take ?k (F t))) \<union> set (drop ?k (F t))) \<inter> set (F t') = {}" if "t' \<in> S" "t' \<noteq> t" for t'
    using that a(2) by blast
  have m: "mem_size e' = key s t" using s'(3) e(4) by simp
  have bd: "length (drop ?k (F t)) \<le> unat (g_pre_free_num s) + 1" using len s'(4) by simp
  note ok = pool_ok_focus [OF s t(1) fr s'(2) m len fit bd dis]
  have "in_use s' S (F(t := drop ?k (F t))) x" if "x \<noteq> a" "in_use s S F x" for x
    using ok(2) [of x] that t(1) by (auto simp: in_use_def dest: in_set_takeD in_set_dropD)
  moreover have "a \<notin> set (take ?k (F t))" using a(2) t(1) by (auto dest: in_set_takeD)
  then have "blocks s' a = None" using s'(5) by (simp add: frame_ok_def)
  moreover have "free_block a s = Some ?s1" using a(1) by (auto simp: free_block_def)
  ultimately show ?thesis using ok(1) s'(1) by blast
qed

lemma free_adds:
  assumes s: "pool_ok s S F" and t: "t \<in> S" "sizes s t = Some e" "\<not> total_item e > g_pre_free_num s" "g_pre_free_num s < - 1"
    and a: "fits s (key s t) a" "\<forall>t \<in> S. a \<notin> set (F t)"
  shows "\<exists>s'. add_block t a s = Some s' \<and> pool_ok s' S (F(t := a # F t)) \<and> (\<forall>x. x \<noteq> a \<longrightarrow> in_use s S F x \<longrightarrow> in_use s' S (F(t := a # F t)) x)"
proof -
  have e: "list_at s t e (F t)" "length (F t) = unat (total_item e)" "\<And>b. b \<in> set (F t) \<Longrightarrow> fits s (mem_size e) b" "key s t = mem_size e"
    using pool_okD [OF s t(1)] t(2) by (metis option.inject)+
  obtain b where b: "blocks s a = Some b" "blk_size b = key s t" "room b = key s t" using a(1) by (auto simp: fits_def)
  let ?e = "e\<lparr>mem_head := Some a, total_item := total_item e + 1\<rparr>"
  let ?s = "s\<lparr>blocks := (blocks s)(a \<mapsto> b\<lparr>mem_next := mem_head e\<rparr>), sizes := (sizes s)(t \<mapsto> ?e)\<rparr>"
  have push: "add_block t a s = Some ?s" "list_at ?s t ?e (a # F t)" using push_ok [OF e(1) b(1)] a(2) t(1) by simp_all
  have fr: "frame_ok s ?s t {a}" by (simp add: frame_ok_def)
  have "total_item e \<le> g_pre_free_num s" using t(3) by simp
  then have le: "unat (total_item e) \<le> unat (g_pre_free_num s)" by (simp add: word_le_nat_alt)
  have "unat (g_pre_free_num s) < 2 ^ 32 - 1" using t(4) by (simp add: word_less_nat_alt unsigned_minus_1_eq_mask mask_eq_exp_minus_1)
  then have len: "length (a # F t) = unat (total_item ?e)" using e(2) le by (simp add: unat_word_ariths)
  have fit: "fits ?s (key s t) x" if "x \<in> set (a # F t)" for x using that e(3,4) b by (cases "x = a") (auto simp: fits_def)
  have dis: "({a} \<union> set (a # F t)) \<inter> set (F t') = {}" if "t' \<in> S" "t' \<noteq> t" for t'
  proof -
    have "set (F t) \<inter> set (F t') = {}" using s that t(1) unfolding pool_ok_def by metis
    then show ?thesis using a(2) that(1) by auto
  qed
  have m: "mem_size ?e = key s t" using e(4) by simp
  have bd: "length (a # F t) \<le> unat (g_pre_free_num s) + 1" using e(2) le by simp
  note ok = pool_ok_focus [OF s t(1) fr push(2) m len fit bd dis]
  have "in_use ?s S (F(t := a # F t)) x" if "x \<noteq> a" "in_use s S F x" for x
    using ok(2) [of x] that t(1) by (auto simp: in_use_def)
  then show ?thesis using ok(1) push(1) by blast
qed

text \<open>C10:
  \<^verbatim>\<open>mp_free\<close> of a block in use puts it into the list of its size, or gives it back to the system when the
  list is over its limit.  The pool stays consistent, every other block in use stays in use,
  and the freed block is in use no more.
\<close>

theorem mp_free_correct:
  assumes "pool_ok s S F" and "mp_initialized s" and "in_use s S F a" and "g_pre_free_num s < - 1"
  shows "\<exists>s' F'. mp_free (Some (a + HEADER)) s = Some s' \<and> pool_ok s' S F' \<and> \<not> in_use s' S F' a
    \<and> (blocks s' a = None \<or> (\<exists>t \<in> S. a \<in> set (F' t))) \<and> (\<forall>x. x \<noteq> a \<longrightarrow> in_use s S F x \<longrightarrow> in_use s' S F' x)"
proof -
  obtain t b where t: "t \<in> S" "blocks s a = Some b" "blk_size b = key s t" "room b = key s t" and out: "\<forall>t \<in> S. a \<notin> set (F t)"
    using assms(3) by (auto simp: in_use_def fits_def)
  obtain e where e: "sizes s t = Some e" "0 < key s t" "key s t < 2 ^ 31" using pool_okD [OF assms(1) t(1)] by metis
  have eq: "mp_free (Some (a + HEADER)) s =
      (if total_item e > g_pre_free_num s then Option.bind (free_block a s) (trim t) else add_block t a s)"
    using assms(2) t(2,3) pool_find_entry [OF assms(1) t(1)] e by (simp add: mp_free_def mp_pfree_def)
  show ?thesis
  proof (cases "total_item e > g_pre_free_num s")
    case True
    obtain s1 s' F' where f: "free_block a s = Some s1" "trim t s1 = Some s'" "pool_ok s' S F'" "blocks s' a = None"
      "\<forall>x. x \<noteq> a \<longrightarrow> in_use s S F x \<longrightarrow> in_use s' S F' x"
      using free_trims [OF assms(1) t(1) e(1) True _ out] t(2) by auto
    then have "mp_free (Some (a + HEADER)) s = Some s'" "\<not> in_use s' S F' a" using eq True by (simp_all add: in_use_def fits_def)
    then show ?thesis using f by blast
  next
    case False
    have "fits s (key s t) a" using t by (simp add: fits_def)
    from free_adds [OF assms(1) t(1) e(1) False assms(4) this out] obtain s' where f: "add_block t a s = Some s'" "pool_ok s' S (F(t := a # F t))"
      "\<forall>x. x \<noteq> a \<longrightarrow> in_use s S F x \<longrightarrow> in_use s' S (F(t := a # F t)) x" by blast
    moreover have "a \<in> set ((F(t := a # F t)) t)" by simp
    ultimately show ?thesis using eq False t(1) unfolding in_use_def by (intro exI [of _ s'] exI [of _ "F(t := a # F t)"]) auto
  qed
qed


text \<open>A pool with the size 8, where block 200 is free and block 300 is in use.\<close>

definition ex_used :: mempool where
  "ex_used = (mp_init 3 3 mp_start)\<lparr>
     mp_tree := \<lparr>rbh_root = Some 100, entries = [100 \<mapsto> \<lparr>rbe_left = None, rbe_right = None, rbe_parent = None, rbe_color = RB_BLACK\<rparr>]\<rparr>,
     sizes := [100 \<mapsto> \<lparr>mem_size = 8, total_item = 1, mem_head = Some 200\<rparr>],
     blocks := [200 \<mapsto> \<lparr>mem_next = None, blk_size = 8, room = 8\<rparr>, 300 \<mapsto> \<lparr>mem_next = None, blk_size = 8, room = 8\<rparr>]\<rparr>"

lemma ex_used_ok: "pool_ok ex_used {100} (\<lambda>_. [200])" "in_use ex_used {100} (\<lambda>_. [200]) 300" "key ex_used 100 = 8" "mp_initialized ex_used"
  "g_pre_free_num ex_used = 3"
proof -
  have "tree_index (key ex_used) (mp_tree ex_used) {100}" unfolding tree_index_def
    by (rule exI [of _ "Nd Lf 100 RB_BLACK Lf"]) (simp add: tree_at_def red_black_def ex_used_def)
  then show "pool_ok ex_used {100} (\<lambda>_. [200])"
    by (simp add: pool_ok_def list_at_def fits_def) (simp add: ex_used_def)
qed (simp_all add: in_use_def fits_def key_def ex_used_def mp_init_def mp_start_def Let_def)

theorem mp_free_correct_witness:
  "\<exists>s' F'. mp_free (Some (300 + HEADER)) ex_used = Some s' \<and> pool_ok s' {100} F' \<and> \<not> in_use s' {100} F' 300"
  using mp_free_correct [OF ex_used_ok(1,4,2)] ex_used_ok(5) by auto

section \<open>Requests of 4 GB and more\<close>

lemma to_int32_add: "to_int32 (n + 2 ^ 32 * k) = to_int32 n"
  unfolding to_int32_def by (simp add: signed_take_bit_eq_iff_take_bit_eq take_bit_eq_mod)

text \<open>C31:
  The sizes are kept as an \<^verbatim>\<open>int\<close>: a request for \<open>n + 2\<^sup>3\<^sup>2 k\<close> bytes is answered with a block
  of \<open>n\<close> bytes when one is free, and \<^verbatim>\<open>mp_calloc\<close> then writes behind its end.
\<close>

theorem mp_alloc_truncates:
  assumes "pool_ok s S F" and "mp_initialized s" and "t \<in> S" and "F t = a # xs" and "0 < k" and "m = key s t + 2 ^ 32 * k" and "m < 2 ^ 63"
  shows "(\<exists>s'. mp_malloc (word_of_int m) s = Some (Some (a + HEADER), s') \<and> fits s' (key s t) a) \<and> mp_calloc 1 (word_of_int m) s = None"
proof -
  obtain e where e: "sizes s t = Some e" "key s t = mem_size e" "0 < key s t" "key s t < 2 ^ 31" "list_at s t e (a # xs)" "length (a # xs) = unat (total_item e)"
    using pool_okD [OF assms(1,3)] assms(4) by metis
  have m: "0 < m" "key s t < m" "to_int32 m = key s t" using e(3,4) assms(5,6) to_int32_add [of "key s t" k] by simp_all
  have w: "sint (word_of_int m :: u64) = m" "uint (word_of_int m :: u64) = m"
    using m(1) assms(7) by (simp_all add: sint_sbintrunc' signed_take_bit_int_eq_self take_bit_int_eq_self uint_word_of_int_eq)
  note find = pool_find_entry [OF assms(1,3)]
  have "total_item e \<noteq> 0" "mem_head e = Some a" using e(5,6) by (auto simp: list_at_def)
  moreover obtain s1 s' where s': "SLIST_REMOVE_HEAD t s = Some s1" "upd_size t (\<lambda>e. e\<lparr>total_item := total_item e - 1\<rparr>) s1 = Some s'"
    "allocates s S F (key s t) (Some (Some (a + HEADER), s'))" using alloc_pop [OF assms(1,3) refl assms(4)] by blast
  ultimately have al: "mp_alloc m s = Some (Some (a + HEADER), s')" using assms(2) m(1,3) find e(1) by (simp add: mp_alloc_def)
  have f: "fits s' (key s t) a" using s'(3) by (auto simp: allocates_def)
  then have "memset_block (a + HEADER) (word_of_int m) s' = None" using m(2) w(2) by (auto simp: memset_block_def fits_def)
  then show ?thesis using al f w(1) by (simp add: mp_malloc_def mp_calloc_def)
qed

theorem mp_alloc_truncates_witness: "mp_calloc 1 (word_of_int (8 + 2 ^ 32)) ex_used = None"
  using mp_alloc_truncates [OF ex_used_ok(1,4), of 100 200 "[]" 1 "8 + 2 ^ 32"] ex_used_ok(3) by simp

section \<open>A failing system allocator\<close>

lemma init_loop_add:
  "init_loop (m + k) t sz s = do { (r, s) \<leftarrow> init_loop m t sz s; if r < 0 then Some (r, s) else init_loop k t sz s }"
  by (induction m arbitrary: s) (auto split: option.splits prod.splits bind_split simp: Option.bind_assoc)

lemma init_loop_fails:
  assumes "list_at s t e []" and "answers s = map Some as @ None # rest" and "distinct as" and "length as < n"
  shows "\<exists>s'. init_loop n t sz s = Some (-1, s') \<and> sizes s' t = Some (e\<lparr>mem_head := None, total_item := total_item e + of_nat (length as)\<rparr>)
    \<and> frame_ok s s' t (set as)"
proof -
  obtain s1 e1 where 1: "init_loop (length as) t sz s = Some (0, s1)" "list_at s1 t e1 (rev as)" "mem_size e1 = mem_size e"
    "total_item e1 = total_item e + of_nat (length as)" "answers s1 = None # rest" "frame_ok s s1 t (set as)"
    using init_loop_ok [OF assms(1-3) _ refl, of sz] by auto
  obtain k where k: "n = length as + Suc k" using assms(4) less_imp_Suc_add by fastforce
  have "list_at (s1\<lparr>answers := rest\<rparr>) t e1 (rev as)" using 1(2) by (simp add: list_at_def)
  from drop_all_ok [OF this] obtain s2 where 2: "drop_all t (s1\<lparr>answers := rest\<rparr>) = Some s2" "sizes s2 t = Some (e1\<lparr>mem_head := None\<rparr>)"
    "frame_ok (s1\<lparr>answers := rest\<rparr>) s2 t (set as)" by auto
  have "init_loop n t sz s = Some (-1, s2)" unfolding k init_loop_add using 1(1,5) 2(1) by (simp add: malloc_block_def)
  moreover have "frame_ok s s2 t (set as)" using 1(6) 2(3) by (simp add: frame_ok_def)
  moreover have "e1\<lparr>mem_head := None\<rparr> = e\<lparr>mem_head := None, total_item := total_item e + of_nat (length as)\<rparr>"
    using 1(3,4) by (cases e; cases e1) simp
  ultimately show ?thesis using 2(2) by simp
qed


definition ex_dry :: mempool where
  "ex_dry = ex_used\<lparr>sizes := [100 \<mapsto> \<lparr>mem_size = 8, total_item = 0, mem_head = None\<rparr>], answers := [Some 400, None]\<rparr>"

lemma ex_dry_ok: "pool_ok ex_dry {100} (\<lambda>_. [])"
proof -
  have "tree_index (key ex_dry) (mp_tree ex_dry) {100}" unfolding tree_index_def
    by (rule exI [of _ "Nd Lf 100 RB_BLACK Lf"]) (simp add: tree_at_def red_black_def ex_dry_def ex_used_def)
  then show ?thesis by (simp add: pool_ok_def list_at_def fits_def) (simp add: ex_dry_def)
qed


end
