(* ===== verification/Tcp_Write.thy ===== *)
theory Tcp_Write
  imports Conn
begin

text \<open>
  The blocking writers of \<^verbatim>\<open>tcp.c\<close>: \<^verbatim>\<open>tcp_write\<close>, \<^verbatim>\<open>tcp_writev\<close> and \<^verbatim>\<open>tcp_sendfile\<close>.
  The answers of the kernel are a list, one for each round of a loop; after the last answer
  the loop is still running.  What was sent is the content of the wire.
\<close>

section \<open>System calls\<close>

text \<open>
  One answer to \<^verbatim>\<open>write\<close> or \<^verbatim>\<open>writev\<close>: a number of bytes taken (never more than were offered), \<^verbatim>\<open>EINTR\<close>,
  \<^verbatim>\<open>EAGAIN\<close> with the result of the following \<^verbatim>\<open>poll\<close>, or another error.  \<^verbatim>\<open>EWOULDBLOCK\<close> is
  \<^verbatim>\<open>EAGAIN\<close>, as on Linux.
\<close>

datatype io_step = Took nat | Interrupted | Again int | Broken

datatype outcome = Returned int | Running

section \<open>\<open>tcp_write\<close>\<close>

fun tcp_write_loop :: "buf \<Rightarrow> nat \<Rightarrow> io_step list \<Rightarrow> buf \<Rightarrow> outcome \<times> buf" where
  "tcp_write_loop b nwritten [] wire = (if nwritten < length b then Running else Returned (int nwritten), wire)"
| "tcp_write_loop b nwritten (a # as) wire =
     (if nwritten < length b
      then (case a of
          Took k \<Rightarrow> (let rv = min k (length b) in tcp_write_loop b (nwritten + rv) as (wire @ take rv b))
        | Again nready \<Rightarrow> if nready = 0 then (Returned (-1), wire) else tcp_write_loop b nwritten as wire
        | Interrupted \<Rightarrow> tcp_write_loop b nwritten as wire
        | Broken \<Rightarrow> (Returned (-1), wire))
      else (Returned (int nwritten), wire))"

definition tcp_write :: "buf \<Rightarrow> io_step list \<Rightarrow> buf \<Rightarrow> outcome \<times> buf" where
  "tcp_write b as wire = tcp_write_loop b 0 as wire"

section \<open>\<open>tcp_writev\<close>\<close>

text \<open>A block of \<^verbatim>\<open>new_vector\<close>: its start as an offset into the block of the caller, and its length.\<close>

record iovec =
  iov_base :: nat
  iov_len :: nat

definition IOV_MAX :: nat where "IOV_MAX = 1024"

definition copy_vector :: "buf list \<Rightarrow> iovec list" where
  "copy_vector vec = map (\<lambda>b. \<lparr>iov_base = 0, iov_len = length b\<rparr>) vec"

text \<open>\<^verbatim>\<open>vec_base_byte_ordinal\<close>: the number of bytes up to the end of each block.\<close>

fun ordinals :: "nat \<Rightarrow> buf list \<Rightarrow> nat list" where
  "ordinals acc [] = []"
| "ordinals acc (b # bs) = (acc + length b) # ordinals (acc + length b) bs"

text \<open>The search for the block and the offset after the bytes that are written.\<close>

fun find_block :: "nat \<Rightarrow> nat \<Rightarrow> nat list \<Rightarrow> buf list \<Rightarrow> nat \<times> nat" where
  "find_block cur_block nwritten (p # ps) (b # bs) =
     (if nwritten < p then (cur_block, length b - (p - nwritten))
      else if nwritten = p then (cur_block + 1, 0)
      else find_block (cur_block + 1) nwritten ps bs)"
| "find_block cur_block nwritten _ _ = (cur_block, 0)"

text \<open>The lengths are \<^verbatim>\<open>size_t\<close>: the difference wraps.\<close>

definition advance :: "nat \<Rightarrow> nat \<Rightarrow> iovec list \<Rightarrow> iovec list" where
  "advance cur_block cur_offset nv = nv[cur_block :=
     \<lparr>iov_base = iov_base (nv ! cur_block) + cur_offset,
      iov_len = (iov_len (nv ! cur_block) + (2 ^ 64 - cur_offset)) mod 2 ^ 64\<rparr>]"

text \<open>The bytes offered to \<^verbatim>\<open>writev\<close>; there are none when a block of the vector leaves the memory of the caller.\<close>

fun gather :: "buf list \<Rightarrow> iovec list \<Rightarrow> buf option" where
  "gather (b # bs) (v # vs) =
     (if iov_base v + iov_len v \<le> length b
      then map_option ((@) (take (iov_len v) (drop (iov_base v) b))) (gather bs vs) else None)"
| "gather _ _ = Some []"

fun writev_loop :: "buf list \<Rightarrow> iovec list \<Rightarrow> nat \<Rightarrow> nat \<Rightarrow> nat \<Rightarrow> nat \<Rightarrow> bool \<Rightarrow> io_step list \<Rightarrow> buf \<Rightarrow> (outcome \<times> buf) option" where
  "writev_loop vec nv startp cur_block cur_offset nwritten write_again [] wire =
     Some (if cur_block < length vec then Running else Returned (int nwritten), wire)"
| "writev_loop vec nv startp cur_block cur_offset nwritten write_again (a # as) wire =
     (if cur_block < length vec then do {
        let nv = (if write_again then advance cur_block cur_offset nv else nv);
        let startp = (if write_again then cur_block else startp);
        bytes \<leftarrow> gather (drop startp vec) (drop startp nv);
        (case a of
           Took k \<Rightarrow> do {
             let rc = min k (length bytes);
             let nwritten = nwritten + rc;
             let (cur_block, cur_offset) = find_block 0 nwritten (ordinals 0 vec) vec;
             writev_loop vec nv startp cur_block cur_offset nwritten True as (wire @ take rc bytes)
           }
         | Again nready \<Rightarrow> if nready = 0 then Some (Returned (-1), wire)
             else writev_loop vec nv startp cur_block cur_offset nwritten False as wire
         | Interrupted \<Rightarrow> writev_loop vec nv startp cur_block cur_offset nwritten False as wire
         | Broken \<Rightarrow> Some (Returned (-1), wire))
      }
      else Some (Returned (int nwritten), wire))"

definition tcp_writev :: "buf list option \<Rightarrow> io_step list \<Rightarrow> buf \<Rightarrow> (outcome \<times> buf) option" where
  "tcp_writev vector as wire = (case vector of
     None \<Rightarrow> Some (Returned (-1), wire)
   | Some vec \<Rightarrow> if length vec = 0 \<or> length vec > IOV_MAX then Some (Returned (-1), wire)
       else writev_loop vec (copy_vector vec) 0 0 0 0 True as wire)"

section \<open>\<open>tcp_sendfile\<close>\<close>

definition MAX_SF_BLK_SIZE :: nat where "MAX_SF_BLK_SIZE = 65536 * 16"
definition MAX_SF_BLK_SIZE2 :: nat where "MAX_SF_BLK_SIZE2 = MAX_SF_BLK_SIZE + 65536"

text \<open>
  With the system call of Linux, which moves \<^verbatim>\<open>*offset\<close> behind the bytes it sent.  The result
  has the values of \<^verbatim>\<open>*offset\<close> and \<^verbatim>\<open>*sent\<close>.
\<close>

definition tcp_sendfile :: "(nat \<Rightarrow> int) \<Rightarrow> nat \<Rightarrow> int \<Rightarrow> int \<Rightarrow> int \<times> int \<times> int" where
  "tcp_sendfile sendfile sz offset sent =
     (if sz = 0 then (0, offset, sent)
      else let sz = (if sz > MAX_SF_BLK_SIZE2 then MAX_SF_BLK_SIZE else sz);
               sent = sendfile sz;
               offset = offset + max 0 sent
        in if sent < 0 then (-1, offset, sent) else if sent = 0 then (-1, offset, sent) else (0, offset, sent))"

section \<open>The reference writer\<close>

text \<open>
  What a writer promises: the bytes go out in order and once, it is done when all are out, and
  it gives up on an error or when \<^verbatim>\<open>poll\<close> runs into its timeout.
\<close>

fun write_all :: "buf \<Rightarrow> nat \<Rightarrow> io_step list \<Rightarrow> buf \<Rightarrow> outcome \<times> buf" where
  "write_all b n [] wire = (if n < length b then Running else Returned (int n), wire)"
| "write_all b n (a # as) wire =
     (if n < length b then (case a of
          Took k \<Rightarrow> write_all b (min (n + k) (length b)) as (wire @ take k (drop n b))
        | Again r \<Rightarrow> if r = 0 then (Returned (-1), wire) else write_all b n as wire
        | Interrupted \<Rightarrow> write_all b n as wire
        | Broken \<Rightarrow> (Returned (-1), wire))
      else (Returned (int n), wire))"

definition bytes_taken :: "io_step list \<Rightarrow> nat" where
  "bytes_taken as = sum_list (map (\<lambda>a. case a of Took k \<Rightarrow> k | _ \<Rightarrow> 0) as)"

text \<open>When nothing fails and the kernel takes enough, everything is sent and the length returned.\<close>

lemma write_all_done:
  assumes "Broken \<notin> set as" and "Again 0 \<notin> set as" and "n + bytes_taken as \<ge> length b" and "n \<le> length b"
  shows "write_all b n as wire = (Returned (int (length b)), wire @ drop n b)"
  using assms
proof (induction as arbitrary: n wire)
  case (Cons a as)
  show ?case
  proof (cases "n < length b \<and> (\<exists>k. a = Took k)")
    case True
    then obtain k where k: "a = Took k" by blast
    have "write_all b (min (n + k) (length b)) as (wire @ take k (drop n b)) =
        (Returned (int (length b)), (wire @ take k (drop n b)) @ drop (min (n + k) (length b)) b)"
      using Cons.prems k by (intro Cons.IH) (auto simp: bytes_taken_def)
    moreover have "take k (drop n b) @ drop (min (n + k) (length b)) b = drop n b"
      using append_take_drop_id [of k "drop n b"] by (cases "n + k \<le> length b") (simp_all add: min_def add.commute)
    ultimately show ?thesis using True k by simp
  next
    case False
    then show ?thesis using Cons by (cases a) (auto simp: bytes_taken_def)
  qed
qed (auto simp: bytes_taken_def)

section \<open>\<open>tcp_write\<close> sends everything when there is no short write\<close>

lemma tcp_write_loop_full:
  assumes "\<forall>a \<in> set as. \<forall>k. a = Took k \<longrightarrow> length b \<le> k"
  shows "tcp_write_loop b 0 as wire = write_all b 0 as wire"
  using assms
proof (induction as arbitrary: wire)
  case (Cons a as)
  have "tcp_write_loop b (length b) as w = write_all b (length b) as w" for w by (cases as) simp_all
  then show ?case using Cons by (cases a) (auto simp: min_absorb2)
qed simp


section \<open>\<open>tcp_writev\<close>\<close>

lemma find_block_bound: "fst (find_block c n ps bs) \<le> c + length bs" "c \<le> fst (find_block c n ps bs)"
  by (induction c n ps bs rule: find_block.induct) auto

lemma find_block_mono: "n \<le> m \<Longrightarrow> fst (find_block c n (ordinals acc vec) vec) \<le> fst (find_block c m (ordinals acc vec) vec)"
proof (induction vec arbitrary: c acc)
  case (Cons b bs)
  then show ?case using find_block_bound(2) [of "c + 1" m "ordinals (acc + length b) bs" bs] by auto
qed simp

lemma find_block_done:
  assumes "\<forall>b \<in> set vec. b \<noteq> []" and "n = acc + length (concat vec)"
  shows "fst (find_block c n (ordinals acc vec) vec) = c + length vec"
  using assms
proof (induction vec arbitrary: c acc)
  case (Cons b bs)
  then show ?case using Cons.IH [of "acc + length b" "c + 1"] by (cases bs) auto
qed simp

text \<open>The position that is found: what is left to send starts there.\<close>

lemma find_block_at:
  assumes "\<forall>b \<in> set vec. b \<noteq> []" and "acc \<le> n" and "n < acc + length (concat vec)" and "find_block c n (ordinals acc vec) vec = (c + i, off)"
  shows "i < length vec \<and> off < length (vec ! i) \<and> drop (n - acc) (concat vec) = drop off (vec ! i) @ concat (drop (Suc i) vec)"
  using assms
proof (induction vec arbitrary: c acc i)
  case (Cons b bs)
  show ?case
  proof (cases "n < acc + length b")
    case True
    then have "i = 0" "off = n - acc" using Cons.prems by auto
    then show ?thesis using True Cons.prems(2) by auto
  next
    case False
    have bs: "n < acc + length b + length (concat bs)" using Cons.prems(3) by simp
    show ?thesis
    proof (cases "n = acc + length b")
      case True
      then have "i = 1" "off = 0" "bs \<noteq> []" using Cons.prems(4) bs by auto
      then show ?thesis using True Cons.prems(1) by (cases bs) auto
    next
      case more: False
      then have f: "find_block (c + 1) n (ordinals (acc + length b) bs) bs = (c + i, off)" using False Cons.prems(4) by simp
      then have "1 \<le> i" using find_block_bound(2) [of "c + 1" n "ordinals (acc + length b) bs" bs] by simp
      then obtain j where j: "i = Suc j" by (cases i) auto
      have "j < length bs \<and> off < length (bs ! j) \<and> drop (n - (acc + length b)) (concat bs) = drop off (bs ! j) @ concat (drop (Suc j) bs)"
        using Cons.IH [of "acc + length b" "c + 1" j] Cons.prems(1) False bs f j by simp
      then show ?thesis using False j by simp
    qed
  qed
qed simp

lemma gather_fresh: "gather vec (copy_vector vec) = Some (concat vec)"
  by (induction vec) (simp_all add: copy_vector_def)

text \<open>The vector after the blocks up to \<open>off\<close> in block \<open>i\<close> have gone out.\<close>

definition advanced :: "buf list \<Rightarrow> iovec list \<Rightarrow> nat \<Rightarrow> nat \<Rightarrow> bool" where
  "advanced vec nv i off \<longleftrightarrow> length nv = length vec \<and> drop (Suc i) nv = copy_vector (drop (Suc i) vec)
     \<and> nv ! i = \<lparr>iov_base = off, iov_len = length (vec ! i) - off\<rparr>"

lemma gather_advanced:
  assumes "advanced vec nv i off" and "i < length vec" and "off \<le> length (vec ! i)"
  shows "gather (drop i vec) (drop i nv) = Some (drop off (vec ! i) @ concat (drop (Suc i) vec))"
proof -
  have len: "length nv = length vec" using assms(1) by (simp add: advanced_def)
  have "drop i vec = vec ! i # drop (Suc i) vec" using assms(2) by (rule Cons_nth_drop_Suc [symmetric])
  moreover have "drop i nv = nv ! i # drop (Suc i) nv" using assms(2) len by (intro Cons_nth_drop_Suc [symmetric]) simp
  ultimately have "gather (drop i vec) (drop i nv) = gather (vec ! i # drop (Suc i) vec)
      (\<lparr>iov_base = off, iov_len = length (vec ! i) - off\<rparr> # copy_vector (drop (Suc i) vec))"
    using assms(1) by (simp only: advanced_def)
  then show ?thesis using assms(3) gather_fresh [of "drop (Suc i) vec"] by simp
qed

lemma wrap_diff: "d \<le> l \<Longrightarrow> l < 2 ^ 64 \<Longrightarrow> (l + (2 ^ 64 - d)) mod 2 ^ 64 = l - d" for l d :: nat
proof -
  assume "d \<le> l" "l < 2 ^ 64"
  then have "l + (2 ^ 64 - d) = (l - d) + 2 ^ 64" by simp
  then show ?thesis using \<open>l < 2 ^ 64\<close> by (metis less_imp_diff_less mod_add_self2 mod_less)
qed

lemma advance_fresh:
  assumes "length nv = length vec" and "drop i nv = copy_vector (drop i vec)" and "i < length vec" and "off \<le> length (vec ! i)" and "length (vec ! i) < 2 ^ 64"
  shows "advanced vec (advance i off nv) i off"
proof -
  have "nv ! i # drop (Suc i) nv = copy_vector (vec ! i # drop (Suc i) vec)"
    using assms(1-3) by (simp add: Cons_nth_drop_Suc)
  then have "nv ! i = \<lparr>iov_base = 0, iov_len = length (vec ! i)\<rparr>" "drop (Suc i) nv = copy_vector (drop (Suc i) vec)"
    unfolding copy_vector_def by simp_all
  moreover note wrap_diff [OF assms(4,5)]
  ultimately show ?thesis using assms(1,3) by (simp add: advanced_def advance_def)
qed

text \<open>The position after \<open>n\<close> bytes, and the runs in which the kernel never stops twice inside one block.\<close>

definition pos :: "buf list \<Rightarrow> nat \<Rightarrow> nat \<times> nat" where
  "pos vec n = find_block 0 n (ordinals 0 vec) vec"

fun no_restop :: "buf list \<Rightarrow> nat \<Rightarrow> io_step list \<Rightarrow> bool" where
  "no_restop vec n (Took k # as) =
     (let m = min (n + k) (length (concat vec))
      in (snd (pos vec n) \<noteq> 0 \<longrightarrow> fst (pos vec m) \<noteq> fst (pos vec n)) \<and> no_restop vec m as)"
| "no_restop vec n (_ # as) = no_restop vec n as"
| "no_restop vec n [] = True"

lemma pos_facts:
  assumes "\<forall>b \<in> set vec. b \<noteq> []" and "n \<le> length (concat vec)" and "pos vec n = (i, off)"
  shows "i < length vec \<longleftrightarrow> n < length (concat vec)"
    and "n < length (concat vec) \<Longrightarrow> off < length (vec ! i) \<and> drop n (concat vec) = drop off (vec ! i) @ concat (drop (Suc i) vec)"
  using find_block_done [OF assms(1), of n 0 0] find_block_at [OF assms(1), of 0 n 0 i off] assms(2,3)
  by (fastforce simp: pos_def)+

lemma advanced_drop:
  assumes "advanced vec nv i off" and "i < length vec" and "i \<le> j" and "i = j \<longrightarrow> off = 0"
  shows "drop j nv = copy_vector (drop j vec)"
proof (cases "i = j")
  case True
  have "drop i nv = nv ! i # drop (Suc i) nv" using assms(1,2) by (intro Cons_nth_drop_Suc [symmetric]) (simp add: advanced_def)
  then have "drop i nv = copy_vector (vec ! i # drop (Suc i) vec)" using assms(1,4) True by (simp add: advanced_def copy_vector_def)
  then show ?thesis using assms(2) True by (simp add: Cons_nth_drop_Suc)
next
  case False
  then have "drop j nv = drop (j - Suc i) (drop (Suc i) nv)" using assms(3) by simp
  also have "\<dots> = drop (j - Suc i) (copy_vector (drop (Suc i) vec))" using assms(1) by (simp only: advanced_def)
  finally show ?thesis using False assms(3) by (simp add: copy_vector_def drop_map)
qed

lemma writev_loop_ok:
  assumes "\<forall>b \<in> set vec. b \<noteq> []" and "length (concat vec) < 2 ^ 64" and "n \<le> length (concat vec)" and "pos vec n = (i, off)"
    and "length nv = length vec" and "again \<Longrightarrow> drop i nv = copy_vector (drop i vec)" and "\<not> again \<Longrightarrow> startp = i \<and> advanced vec nv i off"
    and "no_restop vec n as"
  shows "writev_loop vec nv startp i off n again as wire = Some (write_all (concat vec) n as wire)"
  using assms(3-)
proof (induction as arbitrary: n i off nv again startp wire)
  case Nil
  then show ?case using pos_facts(1) [OF assms(1) Nil(1,2)] by simp
next
  case (Cons a as)
  show ?case
  proof (cases "n < length (concat vec)")
    case False
    then show ?thesis using pos_facts(1) [OF assms(1) Cons.prems(1,2)] by simp
  next
    case True
    let ?nv = "if again then advance i off nv else nv"
    have i: "i < length vec" "off < length (vec ! i)" "drop n (concat vec) = drop off (vec ! i) @ concat (drop (Suc i) vec)"
      using pos_facts [OF assms(1) Cons.prems(1,2)] True by simp_all
    have "length (vec ! i) \<le> length (concat vec)" using i(1) member_le_sum_list [of "length (vec ! i)" "map length vec"] by (simp add: length_concat)
    then have "length (vec ! i) < 2 ^ 64" using assms(2) by (rule le_less_trans)
    then have adv: "advanced vec ?nv i off" using advance_fresh [OF Cons.prems(3)] Cons.prems(4,5) i(1,2) by simp
    then have len: "length ?nv = length vec" unfolding advanced_def by blast
    have g: "gather (drop i vec) (drop i ?nv) = Some (drop n (concat vec))" using gather_advanced [OF adv i(1)] i(2,3) by simp
    have st: "(if again then i else startp) = i" using Cons.prems(5) by simp
    note step = writev_loop.simps(2) [of vec nv startp i off n again a as wire, unfolded Let_def st g]
    have rest: "writev_loop vec ?nv i i off n False as wire = Some (write_all (concat vec) n as wire)" if "no_restop vec n as"
      using Cons.IH [OF Cons.prems(1,2) len, of False i] adv that by simp
    show ?thesis
    proof (cases a)
      case (Took k)
      let ?m = "min (n + k) (length (concat vec))"
      obtain j off' where j: "pos vec ?m = (j, off')" by fastforce
      have "i \<le> j" using find_block_mono [of n ?m 0 0 vec] Cons.prems(1,2) j by (simp add: pos_def)
      moreover have "i = j \<longrightarrow> off = 0" "no_restop vec ?m as" using Cons.prems(2,6) Took j by (auto simp: Let_def)
      ultimately have "writev_loop vec ?nv i j off' ?m True as w = Some (write_all (concat vec) ?m as w)" for w
        using Cons.IH [OF _ j len, of True i] advanced_drop [OF adv i(1)] by simp
      moreover have "n + min k (length (concat vec) - n) = ?m" using True by simp
      moreover have "take (min k (length (concat vec) - n)) (drop n (concat vec)) = take k (drop n (concat vec))"
        by (metis length_drop min.commute take_all_iff take_take linorder_le_cases min_def)
      ultimately show ?thesis using step Took True i(1) j by (simp add: pos_def)
    qed (use step rest Cons.prems(6) True i(1) in simp_all)
  qed
qed

section \<open>Properties\<close>

text \<open>C6:
  \<^verbatim>\<open>tcp_writev\<close> with non-empty blocks does what the reference writer does for their concatenation, whatever the kernel
  answers, as long as it does not stop twice inside one block.  So it sends all bytes in order and once, and returns their
  number as soon as the kernel has taken them.
\<close>

theorem tcp_writev_equiv:
  assumes "vec \<noteq> []" and "length vec \<le> IOV_MAX" and "\<forall>b \<in> set vec. b \<noteq> []" and "length (concat vec) < 2 ^ 64" and "no_restop vec 0 as"
  shows "tcp_writev (Some vec) as wire = Some (write_all (concat vec) 0 as wire)
    \<and> (Broken \<notin> set as \<and> Again 0 \<notin> set as \<and> bytes_taken as \<ge> length (concat vec) \<longrightarrow>
       tcp_writev (Some vec) as wire = Some (Returned (int (length (concat vec))), wire @ concat vec))"
proof -
  have "pos vec 0 = (0, 0)" using assms(1,3) by (cases vec) (auto simp: pos_def)
  then have "tcp_writev (Some vec) as wire = Some (write_all (concat vec) 0 as wire)"
    using assms writev_loop_ok [OF assms(3,4), where n = 0 and i = 0 and off = 0 and nv = "copy_vector vec" and again = True and startp = 0 and as = as and wire = wire] by (simp add: tcp_writev_def copy_vector_def)
  then show ?thesis using write_all_done [of as "concat vec" 0 wire] by simp
qed

theorem tcp_writev_equiv_witness:
  "tcp_writev (Some [''abc'', ''de'']) [Took 1, Interrupted, Took 3, Again 1, Took 9] [] = Some (Returned 5, ''abcde'')"
  using tcp_writev_equiv [of "[''abc'', ''de'']" "[Took 1, Interrupted, Took 3, Again 1, Took 9]" "[]"]
  by (simp add: pos_def IOV_MAX_def bytes_taken_def)

lemma single_step:
  assumes "(len + (2 ^ 64 - off)) mod 2 ^ 64 = l" and "base + off + l \<le> length b" and "n + min k l < length b"
  shows "writev_loop [b] [\<lparr>iov_base = base, iov_len = len\<rparr>] st 0 off n True (Took k # as) wire =
    writev_loop [b] [\<lparr>iov_base = base + off, iov_len = l\<rparr>] 0 0 (n + min k l) (n + min k l) True as (wire @ take (min k l) (take l (drop (base + off) b)))"
proof -
  have adv: "advance 0 off [\<lparr>iov_base = base, iov_len = len\<rparr>] = [\<lparr>iov_base = base + off, iov_len = l\<rparr>]" using assms(1) by (simp add: advance_def)
  have "length (take l (drop (base + off) b)) = l" using assms(2) by simp
  moreover have "find_block 0 (n + min k l) (ordinals 0 [b]) [b] = (0, n + min k l)" using assms(3) by simp
  ultimately show ?thesis using adv assms(2) by (simp add: Let_def del: find_block.simps ordinals.simps length_take)
qed

lemma single_fault:
  assumes "length b < base + off + (len + (2 ^ 64 - off)) mod 2 ^ 64"
  shows "writev_loop [b] [\<lparr>iov_base = base, iov_len = len\<rparr>] st 0 off n True (a # as) wire = None"
  using assms by (simp add: advance_def)



text \<open>C35:
  \<^verbatim>\<open>tcp_write\<close> does what the reference writer does when every write takes the whole buffer.  After a short write it starts
  again at the beginning of the buffer: the peer gets the first bytes twice and the result is larger than the length.
\<close>

theorem tcp_write_resends:
  assumes "0 < k" and "k < length b" and "length b \<le> m"
  shows "tcp_write b (Took k # Took m # as) wire = (Returned (int (k + length b)), wire @ take k b @ b)
    \<and> tcp_write b (Took m # as) wire = write_all b 0 (Took m # as) wire
    \<and> tcp_write b (Took m # as) wire = (Returned (int (length b)), wire @ b)"
proof -
  have "tcp_write_loop b (length b) as w = (Returned (int (length b)), w)" "tcp_write_loop b (k + length b) as w = (Returned (int (k + length b)), w)"
    "write_all b (length b) as w = (Returned (int (length b)), w)" for w
    by (cases as; simp)+
  then show ?thesis using assms by (auto simp: tcp_write_def min_def)
qed

theorem tcp_write_resends_witness: "tcp_write ''abcd'' [Took 3, Took 4] [] = (Returned 7, ''abcabcd'')"
  using tcp_write_resends [of 3 "''abcd''" 4 "[]" "[]"] by simp

text \<open>An empty block at the end.\<close>

lemma find_block_before_last:
  assumes "bs \<noteq> []" and "\<forall>b \<in> set bs. b \<noteq> []" and "n = acc + length (concat bs)"
  shows "find_block c n (ordinals acc (bs @ [x])) (bs @ [x]) = (c + length bs, 0)"
  using assms
proof (induction bs arbitrary: c acc)
  case (Cons b bs)
  then show ?case using Cons.IH [of "acc + length b" "c + 1"] by (cases bs) auto
qed simp

lemma advance_none: "i < length vec \<Longrightarrow> length (vec ! i) < 2 ^ 64 \<Longrightarrow> advance i 0 (copy_vector vec) = copy_vector vec"
  by (simp add: advance_def copy_vector_def list_update_same_conv)

lemma writev_spins:
  assumes "find_block 0 n (ordinals 0 (bs @ [[]])) (bs @ [[]]) = (length bs, 0)"
  shows "writev_loop (bs @ [[]]) (copy_vector (bs @ [[]])) st (length bs) 0 n True (replicate m (Took 0)) wire = Some (Running, wire)"
proof (induction m arbitrary: st)
  case (Suc m)
  have "gather (drop (length bs) (bs @ [[]])) (drop (length bs) (copy_vector (bs @ [[]]))) = Some []"
    by (simp add: copy_vector_def)
  then show ?case using Suc assms advance_none [of "length bs" "bs @ [[]]"] by simp
qed simp

text \<open>C36:
  When the last block is empty, \<^verbatim>\<open>tcp_writev\<close> does not return after all bytes are out: it goes on with \<^verbatim>\<open>writev\<close> calls
  that write nothing.
\<close>

theorem tcp_writev_spins:
  assumes "bs \<noteq> []" and "\<forall>b \<in> set bs. b \<noteq> []" and "length bs < IOV_MAX" and "length (concat bs) < 2 ^ 64" and "length (concat bs) \<le> k"
  shows "tcp_writev (Some (bs @ [[]])) (Took k # replicate m (Took 0)) wire = Some (Running, wire @ concat bs)"
proof -
  let ?v = "bs @ [[]]"
  have f: "find_block 0 (length (concat bs)) (ordinals 0 ?v) ?v = (length bs, 0)" using find_block_before_last [OF assms(1,2), of "length (concat bs)" 0 0] by simp
  have "length (?v ! 0) \<le> length (concat bs)" using assms(1) by (cases bs) simp_all
  then have "advance 0 0 (copy_vector ?v) = copy_vector ?v" using advance_none [of 0 ?v] assms(4) by simp
  moreover have "min k (length (concat bs)) = length (concat bs)" using assms(5) by simp
  ultimately have "writev_loop ?v (copy_vector ?v) 0 0 0 0 True (Took k # replicate m (Took 0)) wire =
      writev_loop ?v (copy_vector ?v) 0 (length bs) 0 (length (concat bs)) True (replicate m (Took 0)) (wire @ concat bs)"
    using gather_fresh [of ?v] f by (simp add: Let_def)
  then show ?thesis using writev_spins [OF f] assms(3) by (simp add: tcp_writev_def)
qed

theorem tcp_writev_spins_witness: "tcp_writev (Some [''ab'', []]) (Took 2 # replicate 9 (Took 0)) [] = Some (Running, ''ab'')"
  using tcp_writev_spins [of "[''ab'']" 2 9 "[]"] by (simp add: IOV_MAX_def)

text \<open>\<^verbatim>\<open>tcp_sendfile\<close> never asks for more than the upper limit, and moves the offset by what was sent.\<close>

lemma tcp_sendfile_bounded:
  assumes "\<And>n. sendfile n \<le> int n" and "0 < n" and "tcp_sendfile sendfile n offset sent = (r, offset', sent')"
  shows "sent' \<le> int (min n MAX_SF_BLK_SIZE2) \<and> (r = 0 \<longleftrightarrow> 0 < sent') \<and> offset' = offset + max 0 sent'"
  using assms(2,3) assms(1) [of n] assms(1) [of MAX_SF_BLK_SIZE]
  by (auto simp: tcp_sendfile_def Let_def MAX_SF_BLK_SIZE2_def split: if_splits)

end
