(* ===== verification/Tcp.thy ===== *)
theory Tcp
  imports Tcp_Write
begin

text \<open>
  The connections of \<^verbatim>\<open>tcp.c\<close> and \<^verbatim>\<open>udp.c\<close>: the buffered writer and its event handler, the reader, the
  acceptor, the datagram handler and the listening sockets.  Results of system calls are arguments, in
  the order of the calls.
\<close>

section \<open>The send buffer\<close>

definition SEND_BUF_LEN :: nat where "SEND_BUF_LEN = 1024"

text \<open>What the event of a connection waits for; the callback is \<^verbatim>\<open>tcp_event_handler\<close> once it was set here.\<close>

datatype interest = Wait_Read | Wait_Both

text \<open>A connection as the writer sees it: its \<^verbatim>\<open>CONN_INFO\<close>, what has been sent, and its event.\<close>

record link =
  info :: conn_info
  wire :: buf
  waits_for :: interest
  added :: bool

text \<open>A read and a write of several bytes at an offset of the buffer.\<close>

definition sub_buf :: "buf \<Rightarrow> nat \<Rightarrow> nat \<Rightarrow> buf option" where
  "sub_buf b i n = (if i + n \<le> length b then Some (take n (drop i b)) else None)"

definition memcpy :: "buf \<Rightarrow> nat \<Rightarrow> buf \<Rightarrow> buf option" where
  "memcpy b i xs = (if i + length xs \<le> length b then Some (take i b @ xs @ drop (i + length xs) b) else None)"

text \<open>How the loop of the event handler ends: all sent or given up, blocked, or no more answers.\<close>

datatype send_end = Finished | Blocked | Sending

fun send_loop :: "io_step list \<Rightarrow> link \<Rightarrow> (send_end \<times> link) option" where
  "send_loop [] l = Some (if data_stored (info l) > data_sent (info l) then Sending else Finished, l)"
| "send_loop (a # as) l =
     (if data_stored (info l) > data_sent (info l) then do {
        bytes \<leftarrow> sub_buf (data_buf (info l)) (data_sent (info l)) (data_stored (info l) - data_sent (info l));
        (case a of
           Took k \<Rightarrow> (let nwritten = min k (length bytes) in
             send_loop as (l\<lparr>info := (info l)\<lparr>data_sent := data_sent (info l) + nwritten\<rparr>, wire := wire l @ take nwritten bytes\<rparr>))
         | Interrupted \<Rightarrow> send_loop as l
         | Again _ \<Rightarrow> Some (Blocked, l\<lparr>added := True\<rparr>)
         | Broken \<Rightarrow> Some (Finished, l))
      }
      else Some (Finished, l))"

definition tcp_send_back_handler :: "io_step list \<Rightarrow> bool \<Rightarrow> link \<Rightarrow> link option" where
  "tcp_send_back_handler as add_ok l = do {
     (e, l) \<leftarrow> send_loop as l;
     if e = Finished then do {
       b \<leftarrow> wr (data_buf (info l)) 0 NUL;
       Some (l\<lparr>info := (info l)\<lparr>data_buf := b, data_sent := 0, data_stored := 0\<rparr>, waits_for := Wait_Read, added := add_ok\<rparr>)
     }
     else Some l
   }"

text \<open>The second part of \<^verbatim>\<open>tcp_send_back\<close>: the bytes that are left go into the buffer.\<close>

definition store_back :: "bool \<Rightarrow> buf \<Rightarrow> link \<Rightarrow> (int \<times> link) option" where
  "store_back add_ok bytes l =
     (if int SEND_BUF_LEN - int (data_stored (info l)) \<ge> int (length bytes) then
        (if data_stored (info l) = 0 \<and> \<not> add_ok then Some (-1, l\<lparr>waits_for := Wait_Both, added := False\<rparr>)
         else do {
           let l = (if data_stored (info l) = 0 then l\<lparr>waits_for := Wait_Both, added := True\<rparr> else l);
           b \<leftarrow> memcpy (data_buf (info l)) (data_stored (info l)) bytes;
           Some (0, l\<lparr>info := (info l)\<lparr>data_buf := b, data_stored := data_stored (info l) + length bytes\<rparr>\<rparr>)
         })
      else Some (-1, l))"

definition tcp_send_back :: "io_step \<Rightarrow> bool \<Rightarrow> buf \<Rightarrow> link \<Rightarrow> (int \<times> link) option" where
  "tcp_send_back a add_ok bytes l =
     (if conn_type (info l) \<noteq> CSF_TCP then Some (-1, l)
      else if data_stored (info l) = 0 then (case a of
          Took k \<Rightarrow> (let nwritten = min k (length bytes);
                         l = l\<lparr>wire := wire l @ take nwritten bytes\<rparr>
            in if length bytes - nwritten = 0 then Some (0, l) else store_back add_ok (drop nwritten bytes) l)
        | Interrupted \<Rightarrow> store_back add_ok bytes l
        | Again _ \<Rightarrow> store_back add_ok bytes l
        | Broken \<Rightarrow> Some (-1, l))
      else store_back add_ok bytes l)"

section \<open>Reading\<close>

datatype read_errno = EAGAIN | ECONNRESET | EOTHER

datatype read_step = Got buf | Eof | Failed read_errno

datatype tcp_event = Ev_Timeout | Ev_Read | Ev_Write | Ev_Both

definition PROTOCOL_DISCONNECT :: int where "PROTOCOL_DISCONNECT = -2"

type_synonym 'w entry = "nat \<Rightarrow> ptr \<Rightarrow> ptr \<Rightarrow> buf \<Rightarrow> int \<Rightarrow> 'w \<Rightarrow> int \<times> 'w"

text \<open>Closing the connection: the sequence that three branches of the handler share.\<close>

definition hang_up :: "nat \<Rightarrow> 'a world_scheme \<Rightarrow> 'a world_scheme option" where
  "hang_up c w = do { w \<leftarrow> tcp_conn_close (Some c) w; conn_state_cleanup c w }"

text \<open>The read loop with the static buffer \<^verbatim>\<open>recv_data\<close>; one \<^verbatim>\<open>read\<close> returns at most \<^const>\<open>RECV_DATA_LEN\<close> bytes.\<close>

fun read_loop :: "'a world_scheme entry \<Rightarrow> nat \<Rightarrow> read_step list \<Rightarrow> buf \<Rightarrow> 'a world_scheme \<Rightarrow> 'a world_scheme option" where
  "read_loop entry c [] recv_data w = Some w"
| "read_loop entry c (Failed e # as) recv_data w =
     (if e \<noteq> EAGAIN then (if e = ECONNRESET then hang_up c w else Some w) else Some (emit (EventAdd c) w))"
| "read_loop entry c (Eof # as) recv_data w = hang_up c w"
| "read_loop entry c (Got b # as) recv_data w = do {
     let len = min (length b) RECV_DATA_LEN;
     recv_data \<leftarrow> memcpy recv_data 0 (take len b);
     recv_data \<leftarrow> wr recv_data len NUL;
     (rc, w) \<leftarrow> data_received entry (Some c) (Some recv_data) len w;
     if rc = PROTOCOL_DISCONNECT then hang_up c w else read_loop entry c as recv_data w
   }"

definition tcp_conn_handler ::
  "'a world_scheme entry \<Rightarrow> bool \<Rightarrow> read_step list \<Rightarrow> buf \<Rightarrow> nat \<Rightarrow> tcp_event \<Rightarrow> 'a world_scheme \<Rightarrow> 'a world_scheme option" where
  "tcp_conn_handler entry getfl_ok as recv_data c ev w =
     (if ev = Ev_Timeout then hang_up c w
      else if \<not> getfl_ok then Some w
      else read_loop entry c as recv_data w)"

definition tcp_event_handler ::
  "'a world_scheme entry \<Rightarrow> bool \<Rightarrow> read_step list \<Rightarrow> buf \<Rightarrow> io_step list \<Rightarrow> bool \<Rightarrow> nat \<Rightarrow> tcp_event \<Rightarrow>
     link \<times> 'a world_scheme \<Rightarrow> (link \<times> 'a world_scheme) option" where
  "tcp_event_handler entry getfl_ok rs recv_data as add_ok c ev = (\<lambda>(l, w).
     if ev = Ev_Read then map_option (Pair l) (tcp_conn_handler entry getfl_ok rs recv_data c ev w)
     else if ev = Ev_Write then do {
       cs \<leftarrow> conns w c;
       l \<leftarrow> tcp_send_back_handler as add_ok (l\<lparr>info := ci cs\<rparr>);
       Some (l, w\<lparr>conns := (conns w)(c \<mapsto> cs\<lparr>ci := info l\<rparr>)\<rparr>)
     }
     else map_option (Pair l) (tcp_conn_handler entry getfl_ok rs recv_data c ev w))"

section \<open>Accepting\<close>

datatype accept_step = Accepted int "u32 \<times> u16" u32 | Retry | Refused

text \<open>\<^verbatim>\<open>EAGAIN\<close> and \<^verbatim>\<open>EINTR\<close> go round, every other error leaves; None stands for no connection yet.\<close>

fun accept_loop :: "accept_step list \<Rightarrow> (int \<times> (u32 \<times> u16) \<times> u32) option" where
  "accept_loop [] = None"
| "accept_loop (Accepted f a n # as) = Some (f, a, n)"
| "accept_loop (Retry # as) = accept_loop as"
| "accept_loop (Refused # as) = None"

text \<open>The new connection is made in the memory \<open>blk\<close> at the address \<open>c\<close>.\<close>

definition tcp_socket_event_handler ::
  "(nat \<Rightarrow> nat \<Rightarrow> ptr) \<Rightarrow> bool \<Rightarrow> accept_step list \<Rightarrow> bool \<Rightarrow> nat \<times> conn_state \<Rightarrow> 'a world_scheme \<Rightarrow> 'a world_scheme option" where
  "tcp_socket_event_handler start listen_fl_ok as fl_ok = (\<lambda>(c, blk) w.
     if \<not> listen_fl_ok then Some w
     else case accept_loop as of
       None \<Rightarrow> Some w
     | Some (connfd, cliaddr, clilen) \<Rightarrow>
         if \<not> fl_ok then Some w
         else do {
           b \<leftarrow> wr (data_buf (ci blk)) 0 NUL;
           let cs = blk\<lparr>ref_cnt := 1, ci := (ci blk)\<lparr>fd := connfd, conn_type := CSF_TCP, cp_ops_of := Some tcp_ops, data_buf := b,
             data_sent := 0, data_stored := 0, addr := cliaddr, addrlen := clilen\<rparr>\<rparr>;
           (_, w) \<leftarrow> connection_made start (Some c) (w\<lparr>conns := (conns w)(c \<mapsto> cs)\<rparr>);
           Some (emit (EventAdd c) w)
         })"

section \<open>Sockets\<close>

text \<open>The static part of \<^verbatim>\<open>tcp.c\<close> and \<^verbatim>\<open>udp.c\<close>: the descriptor of the operation table and the timeout, and the descriptors that are open.\<close>

record port =
  sockfd :: int
  server_timeout :: u32
  open_fds :: "int set"

definition close_fd :: "int \<Rightarrow> port \<Rightarrow> port" where
  "close_fd d p = p\<lparr>open_fds := open_fds p - {d}\<rparr>"

definition open_fd :: "int \<Rightarrow> port \<Rightarrow> port" where
  "open_fd d p = (if d < 0 then p else p\<lparr>open_fds := insert d (open_fds p)\<rparr>)"

definition tcp_socket_init :: "int \<Rightarrow> int \<Rightarrow> int \<Rightarrow> int \<Rightarrow> u32 \<Rightarrow> port \<Rightarrow> int \<times> port" where
  "tcp_socket_init sock setopt bound listening timeout p =
     (let p = open_fd sock (p\<lparr>server_timeout := timeout\<rparr>)
      in if sock < 0 then (sock, p)
         else if setopt < 0 then (-1, close_fd sock p)
         else if bound < 0 then (-1, close_fd sock p)
         else if listening < 0 then (-1, close_fd sock p)
         else (sock, p\<lparr>sockfd := sock\<rparr>))"

text \<open>\<^verbatim>\<open>udp_socket_init\<close> does not test the result of \<^verbatim>\<open>socket\<close>.\<close>

definition udp_socket_init :: "int \<Rightarrow> int \<Rightarrow> int \<Rightarrow> u32 \<Rightarrow> port \<Rightarrow> int \<times> port" where
  "udp_socket_init sock setopt bound timeout p =
     (let p = open_fd sock (p\<lparr>server_timeout := timeout\<rparr>)
      in if setopt < 0 then (-1, close_fd sock p)
         else if bound < 0 then (-1, close_fd sock p)
         else (sock, p\<lparr>sockfd := sock\<rparr>))"

text \<open>Both \<^verbatim>\<open>port_close\<close> operations: the result is that of \<^verbatim>\<open>shutdown\<close> on the socket.\<close>

definition tcp_port_close :: "(int \<Rightarrow> int) \<Rightarrow> port \<Rightarrow> int" where
  "tcp_port_close shutdown p = shutdown (sockfd p)"

definition udp_port_close :: "(int \<Rightarrow> int) \<Rightarrow> port \<Rightarrow> int" where
  "udp_port_close shutdown p = shutdown (sockfd p)"

section \<open>Datagrams\<close>

definition udp_send_back :: "(buf \<Rightarrow> u32 \<times> u16 \<Rightarrow> int) \<Rightarrow> conn_info \<Rightarrow> buf \<Rightarrow> int" where
  "udp_send_back sendto cip b =
     (if conn_type cip = CSF_UDP then (let rc = sendto b (addr cip) in if rc < 0 then -1 else rc) else -1)"

text \<open>A datagram with the address of its sender, or the failure of \<^verbatim>\<open>recvfrom\<close>.\<close>

definition udp_socket_event_handler ::
  "(nat \<Rightarrow> nat \<Rightarrow> ptr) \<Rightarrow> 'a world_scheme entry \<Rightarrow> int \<Rightarrow> buf \<Rightarrow> (buf \<times> (u32 \<times> u16) \<times> u32) option \<Rightarrow> nat \<times> conn_state \<Rightarrow>
     'a world_scheme \<Rightarrow> 'a world_scheme option" where
  "udp_socket_event_handler start entry d recv_data dgram = (\<lambda>(c, blk) w.
     case dgram of
       None \<Rightarrow> Some (w\<lparr>conns := (conns w)(c \<mapsto> blk\<lparr>ci := (ci blk)\<lparr>addrlen := 16\<rparr>\<rparr>)\<rparr>)
     | Some (b, a, n) \<Rightarrow> do {
         let cs = blk\<lparr>ci := (ci blk)\<lparr>addrlen := n, addr := a, conn_type := CSF_UDP, fd := d, cp_ops_of := Some udp_ops\<rparr>, ref_cnt := 1\<rparr>;
         let len = min (length b) RECV_DATA_LEN;
         recv_data \<leftarrow> memcpy recv_data 0 (take len b);
         (_, w) \<leftarrow> connection_made start (Some c) (w\<lparr>conns := (conns w)(c \<mapsto> cs)\<rparr>);
         (_, w) \<leftarrow> data_received entry (Some c) (Some recv_data) len w;
         (_, w) \<leftarrow> connection_lost (Some c) w;
         CS_RELE c w
       })"

end
