(* ===== verification/Tcp_Props.thy ===== *)
theory Tcp_Props
  imports Tcp
begin

text \<open>
  Properties of the connections: the buffered writer keeps the order of the stream, the
  reader delivers and closes once, the sockets are not leaked.
\<close>

section \<open>The byte stream\<close>

definition pending :: "link \<Rightarrow> buf" where
  "pending l = take (data_stored (info l) - data_sent (info l)) (drop (data_sent (info l)) (data_buf (info l)))"

text \<open>The pointers are inside of the buffer, and an event waits for writing while there are bytes to send.\<close>

definition link_ok :: "link \<Rightarrow> bool" where
  "link_ok l \<longleftrightarrow> conn_type (info l) = CSF_TCP \<and> length (data_buf (info l)) = SEND_BUF_LEN \<and> data_sent (info l) \<le> data_stored (info l)
     \<and> data_stored (info l) \<le> SEND_BUF_LEN \<and> (data_stored (info l) \<noteq> 0 \<longrightarrow> waits_for l = Wait_Both)"

lemma pending_Nil [simp]: "link_ok l \<Longrightarrow> pending l = [] \<longleftrightarrow> data_stored (info l) = data_sent (info l)"
  by (auto simp: pending_def link_ok_def)

lemma sub_buf_pending:
  "link_ok l \<Longrightarrow> sub_buf (data_buf (info l)) (data_sent (info l)) (data_stored (info l) - data_sent (info l)) = Some (pending l)"
  by (simp add: sub_buf_def pending_def link_ok_def)

lemma pending_advance:
  assumes "link_ok l" and "n \<le> length (pending l)"
  defines "l' \<equiv> l\<lparr>info := (info l)\<lparr>data_sent := data_sent (info l) + n\<rparr>, wire := wire l @ take n (pending l)\<rparr>"
  shows "pending l' = drop n (pending l)" "link_ok l'"
proof -
  have n: "n \<le> data_stored (info l) - data_sent (info l)" using assms(1,2) by (simp add: pending_def link_ok_def)
  show p: "pending l' = drop n (pending l)" by (simp add: pending_def l'_def drop_take add.commute)
  then show "link_ok l'" using assms(1) n by (auto simp: link_ok_def l'_def)
qed

text \<open>The loop of the event handler moves bytes from the buffer to the wire.\<close>

lemma send_loop_stream:
  assumes "link_ok l"
  shows "\<exists>e l'. send_loop as l = Some (e, l') \<and> link_ok l' \<and> wire l' @ pending l' = wire l @ pending l
    \<and> (e = Finished \<and> Broken \<notin> set as \<longrightarrow> pending l' = [])"
  using assms
proof (induction as arbitrary: l)
  case (Cons a as)
  show ?case
  proof (cases "pending l = []")
    case True
    then show ?thesis using Cons.prems by auto
  next
    case False
    then have nz: "data_sent (info l) < data_stored (info l)" using Cons.prems by (auto simp: link_ok_def)
    show ?thesis
    proof (cases a)
      case (Took k)
      let ?n = "min k (length (pending l))"
      let ?l = "l\<lparr>info := (info l)\<lparr>data_sent := data_sent (info l) + ?n\<rparr>, wire := wire l @ take ?n (pending l)\<rparr>"
      have p: "pending ?l = drop ?n (pending l)" "link_ok ?l" using pending_advance [OF Cons.prems, of ?n] by simp_all
      have "send_loop (a # as) l = send_loop as ?l" using nz Took sub_buf_pending [OF Cons.prems] by (simp add: Let_def)
      moreover have "wire ?l @ pending ?l = wire l @ pending l" unfolding p(1) by simp
      ultimately show ?thesis using Cons.IH [OF p(2)] Took by auto
    next
      case (Again r)
      have "pending (l\<lparr>added := True\<rparr>) = pending l" by (simp add: pending_def)
      then show ?thesis using nz Again sub_buf_pending [OF Cons.prems] Cons.prems by (auto simp: link_ok_def)
    qed (use nz sub_buf_pending [OF Cons.prems] Cons in auto)
  qed
qed (auto simp: link_ok_def)

lemma handler_stream:
  assumes "link_ok l" and "Broken \<notin> set as"
  shows "\<exists>l'. tcp_send_back_handler as add_ok l = Some l' \<and> link_ok l' \<and> wire l' @ pending l' = wire l @ pending l"
proof -
  obtain e l1 where 1: "send_loop as l = Some (e, l1)" "link_ok l1" "wire l1 @ pending l1 = wire l @ pending l" "e = Finished \<longrightarrow> pending l1 = []"
    using send_loop_stream [OF assms(1)] assms(2) by blast
  have "0 < length (data_buf (info l1))" using 1(2) by (simp add: link_ok_def SEND_BUF_LEN_def)
  then have b: "wr (data_buf (info l1)) 0 NUL = Some ((data_buf (info l1))[0 := NUL])" by simp
  show ?thesis
  proof (cases "e = Finished")
    case True
    let ?l = "l1\<lparr>info := (info l1)\<lparr>data_buf := (data_buf (info l1))[0 := NUL], data_sent := 0, data_stored := 0\<rparr>, waits_for := Wait_Read, added := add_ok\<rparr>"
    have "tcp_send_back_handler as add_ok l = Some ?l" using 1(1) True b by (simp add: tcp_send_back_handler_def)
    moreover have "link_ok ?l" "pending ?l = []" using 1(2) by (simp_all add: link_ok_def pending_def)
    ultimately show ?thesis using 1(3,4) True by auto
  next
    case False
    then have "tcp_send_back_handler as add_ok l = Some l1" using 1(1) by (simp add: tcp_send_back_handler_def)
    then show ?thesis using 1(2,3) by blast
  qed
qed

lemma memcpy_pending:
  assumes "i \<le> s" and "memcpy b s xs = Some b'"
  shows "take (s + length xs - i) (drop i b') = take (s - i) (drop i b) @ xs" "length b' = length b"
proof -
  have b: "s + length xs \<le> length b" "b' = take s b @ xs @ drop (s + length xs) b" using assms(2) by (auto simp: memcpy_def split: if_splits)
  then have "drop i b' = take (s - i) (drop i b) @ xs @ drop (s + length xs) b" using assms(1) by (simp add: drop_take)
  moreover have "length (take (s - i) (drop i b)) = s - i" "s + length xs - i = (s - i) + length xs" using assms(1) b(1) by simp_all
  ultimately show "take (s + length xs - i) (drop i b') = take (s - i) (drop i b) @ xs" by simp
  show "length b' = length b" using b by simp
qed

lemma store_back_stream:
  assumes "link_ok l"
  shows "\<exists>r l'. store_back add_ok bs l = Some (r, l') \<and> link_ok l' \<and>
    (if r = 0 then wire l' @ pending l' = wire l @ pending l @ bs else r = -1 \<and> wire l' @ pending l' = wire l @ pending l)"
proof (cases "length bs + data_stored (info l) \<le> SEND_BUF_LEN")
  case fits: True
  show ?thesis
  proof (cases "data_stored (info l) = 0 \<and> \<not> add_ok")
    case True
    let ?l = "l\<lparr>waits_for := Wait_Both, added := False\<rparr>"
    have "store_back add_ok bs l = Some (-1, ?l)" using True fits by (simp add: store_back_def)
    moreover have "pending ?l = pending l" "link_ok ?l" using assms by (simp_all add: pending_def link_ok_def)
    ultimately show ?thesis by simp
  next
    case False
    have l: "length (data_buf (info l)) = SEND_BUF_LEN" "data_sent (info l) \<le> data_stored (info l)" using assms by (simp_all add: link_ok_def)
    then obtain b where b: "memcpy (data_buf (info l)) (data_stored (info l)) bs = Some b" using fits by (simp add: memcpy_def)
    let ?l1 = "if data_stored (info l) = 0 then l\<lparr>waits_for := Wait_Both, added := True\<rparr> else l"
    let ?l = "?l1\<lparr>info := (info l)\<lparr>data_buf := b, data_stored := data_stored (info l) + length bs\<rparr>\<rparr>"
    have "store_back add_ok bs l = Some (0, ?l)" using False fits b
      by (cases "data_stored (info l) = 0") (simp_all add: store_back_def)
    moreover have "pending ?l = pending l @ bs" using memcpy_pending(1) [OF l(2) b] by (simp add: pending_def)
    moreover have "link_ok ?l" using assms fits memcpy_pending(2) [OF l(2) b] by (simp add: link_ok_def)
    ultimately show ?thesis by simp
  qed
next
  case False
  then have "store_back add_ok bs l = Some (-1, l)" by (simp add: store_back_def)
  then show ?thesis using assms by simp
qed

lemma send_back_stream:
  assumes "link_ok l"
  shows "\<exists>r l'. tcp_send_back a add_ok bs l = Some (r, l') \<and> link_ok l' \<and> (r = 0 \<or> r = -1)
    \<and> (\<exists>k \<le> length bs. wire l' @ pending l' = wire l @ pending l @ take k bs \<and> (r = 0 \<longrightarrow> k = length bs))"
proof -
  have keep: ?thesis if "tcp_send_back a add_ok bs l = store_back add_ok bs l"
    using store_back_stream [OF assms, of add_ok bs] that by (fastforce split: if_splits)
  have tcp: "conn_type (info l) = CSF_TCP" using assms by (simp add: link_ok_def)
  show ?thesis
  proof (cases "data_stored (info l) = 0 \<and> (a = Broken \<or> (\<exists>k. a = Took k))")
    case False
    then show ?thesis using tcp by (intro keep) (cases a; simp add: tcp_send_back_def)
  next
    case True
    then have e: "pending l = []" using assms by (simp add: link_ok_def)
    show ?thesis
    proof (cases a)
      case (Took k)
      let ?n = "min k (length bs)"
      let ?l = "l\<lparr>wire := wire l @ take ?n bs\<rparr>"
      have p: "pending ?l = []" "link_ok ?l" using e assms by (simp_all add: pending_def link_ok_def)
      show ?thesis
      proof (cases "length bs \<le> k")
        case full: True
        then have "tcp_send_back a add_ok bs l = Some (0, ?l)" using True tcp Took by (simp add: tcp_send_back_def)
        then show ?thesis using p e full by auto
      next
        case short: False
        then have "tcp_send_back a add_ok bs l = store_back add_ok (drop ?n bs) ?l" using True tcp Took by (simp add: tcp_send_back_def)
        moreover obtain r l' where "store_back add_ok (drop ?n bs) ?l = Some (r, l')" "link_ok l'" "if r = 0 then wire l' @ pending l' = wire ?l @ pending ?l @ drop ?n bs
          else r = -1 \<and> wire l' @ pending l' = wire ?l @ pending ?l" using store_back_stream [OF p(2)] by blast
        ultimately show ?thesis using p(1) e short
          by (intro exI [of _ r] exI [of _ l'] conjI exI [of _ "if r = 0 then length bs else ?n"]) (auto split: if_splits simp: min_def)
      qed
    qed (use True tcp assms in \<open>auto simp: tcp_send_back_def\<close>)
  qed
qed

text \<open>
  The life of the writer of one connection: it starts with an empty buffer, \<^verbatim>\<open>tcp_send_back\<close> accepts bytes, and the event
  handler runs at any time.  The second argument is what was accepted.
\<close>

inductive stream :: "link \<Rightarrow> buf \<Rightarrow> bool" where
  opened: "\<lbrakk>conn_type (info l) = CSF_TCP; length (data_buf (info l)) = SEND_BUF_LEN; data_sent (info l) = 0; data_stored (info l) = 0; wire l = []\<rbrakk>
     \<Longrightarrow> stream l []"
| sent: "stream l acc \<Longrightarrow> tcp_send_back a add_ok bs l = Some (0, l') \<Longrightarrow> stream l' (acc @ bs)"
| writable: "stream l acc \<Longrightarrow> Broken \<notin> set as \<Longrightarrow> tcp_send_back_handler as add_ok l = Some l' \<Longrightarrow> stream l' acc"

lemma stream_inv: "stream l acc \<Longrightarrow> link_ok l \<and> wire l @ pending l = acc"
proof (induction rule: stream.induct)
  case (opened l)
  then show ?case by (simp add: link_ok_def pending_def)
next
  case (sent l acc a add_ok bs l')
  then show ?case using send_back_stream [of l a add_ok bs] by auto
next
  case (writable l acc as add_ok l')
  then show ?case using handler_stream [of l as add_ok] by auto
qed


definition ex_link :: link where
  "ex_link = \<lparr>info = \<lparr>conn_type = CSF_TCP, fd = 7, data_buf = replicate SEND_BUF_LEN NUL, data_sent = 0, data_stored = 0, addr = (0, 0), addrlen = 16,
     cp_ops_of = Some tcp_ops\<rparr>, wire = [], waits_for = Wait_Read, added = True\<rparr>"


section \<open>Reading and closing\<close>

text \<open>Closing a connection.\<close>

lemma hang_up_ok:
  assumes "conns w c = Some cs" and "conn_type (ci cs) = CSF_TCP"
  shows "\<exists>w'. hang_up c w = Some w' \<and> connection_counter w' = connection_counter w - 1
    \<and> conns w' = (conns w)(c := if ref_cnt cs = 1 then None else Some (cs\<lparr>ref_cnt := ref_cnt cs - 1, ci := (ci cs)\<lparr>fd := -1\<rparr>\<rparr>))
    \<and> trace w' = trace w @ CloseFd (fd (ci cs)) # (case protocol_session_end (pc w) of Some f \<Rightarrow> [SessionEnd f c (data cs)] | None \<Rightarrow> [])
        @ EventDel c # (if ref_cnt cs = 1 then [FreeConn c] else [])"
  using assms by (auto simp: hang_up_def tcp_conn_close_def conn_state_cleanup_def connection_lost_def do_protocol_session_end_def CS_RELE_def Let_def split: option.splits)

text \<open>
  A session entry is well behaved on a connection when it keeps the connection's record and the functions of the
  protocol module.
\<close>

definition entry_keeps :: "'a world_scheme entry \<Rightarrow> nat \<Rightarrow> bool" where
  "entry_keeps entry c \<longleftrightarrow> (\<forall>f d b n w. conns (snd (entry f (Some c) d b n w)) c = conns w c \<and> pc (snd (entry f (Some c) d b n w)) = pc w)"

text \<open>What is left of a connection after it was closed: nothing, or a record without descriptor that requests still hold.\<close>

definition closed :: "conn_state \<Rightarrow> conn_state option" where
  "closed cs = (if ref_cnt cs = 1 then None else Some (cs\<lparr>ref_cnt := ref_cnt cs - 1, ci := (ci cs)\<lparr>fd := -1\<rparr>\<rparr>))"

lemma data_received_keeps:
  assumes "entry_keeps entry c" and "conns w c = Some cs" and "n < length b"
  shows "\<exists>rc w'. data_received entry (Some c) (Some b) n w = Some (rc, w') \<and> conns w' c = Some cs"
proof (cases "protocol_session_entry (pc w)")
  case None
  then show ?thesis using assms(2,3) by (simp add: data_received_def do_protocol_session_entry_def)
next
  case (Some f)
  let ?e = "entry f (Some c) (data cs) (b[n := NUL]) (int n) (emit (SessionEntry f (Some c) (data cs) (b[n := NUL]) (int n)) w)"
  have "data_received entry (Some c) (Some b) n w = Some (fst ?e, snd ?e)"
    using Some assms(2,3) by (simp add: data_received_def do_protocol_session_entry_def)
  moreover have "conns (snd ?e) c = Some cs" using assms(1,2) by (simp add: entry_keeps_def)
  ultimately show ?thesis by blast
qed

lemma got_step:
  assumes "entry_keeps entry c" and "conns w c = Some cs" and "length recv = Suc RECV_DATA_LEN"
  shows "\<exists>rc w' recv'. read_loop entry c (Got b # as) recv w = (if rc = PROTOCOL_DISCONNECT then hang_up c w' else read_loop entry c as recv' w')
    \<and> conns w' c = Some cs \<and> length recv' = Suc RECV_DATA_LEN"
proof -
  let ?n = "min (length b) RECV_DATA_LEN"
  let ?r = "(take ?n b @ drop ?n recv)[?n := NUL]"
  have n: "?n < length recv" using assms(3) by simp
  have m: "memcpy recv 0 (take ?n b) = Some (take ?n b @ drop ?n recv)" using n by (simp add: memcpy_def)
  have l: "length (take ?n b @ drop ?n recv) = length recv" using n by simp
  have "?n < length ?r" using l n by simp
  then obtain rc w' where d: "data_received entry (Some c) (Some ?r) ?n w = Some (rc, w')" "conns w' c = Some cs"
    using data_received_keeps [OF assms(1,2)] by blast
  have "wr (take ?n b @ drop ?n recv) ?n NUL = Some ?r" using l n by (intro wr_Some) simp
  then have "read_loop entry c (Got b # as) recv w = (if rc = PROTOCOL_DISCONNECT then hang_up c w' else read_loop entry c as ?r w')"
    using m d(1) by (simp add: Let_def)
  then show ?thesis using d(2) l assms(3) by (intro exI [of _ rc] exI [of _ w'] exI [of _ ?r]) simp
qed

lemma hang_up_closed: "conns w c = Some cs \<Longrightarrow> conn_type (ci cs) = CSF_TCP \<Longrightarrow> \<exists>w'. hang_up c w = Some w' \<and> conns w' c = closed cs"
  using hang_up_ok [of w c cs] by (auto simp: closed_def)

lemma read_loop_ok:
  assumes "entry_keeps entry c" and "conn_type (ci cs) = CSF_TCP" and "conns w c = Some cs" and "length recv = Suc RECV_DATA_LEN"
  shows "\<exists>w'. read_loop entry c as recv w = Some w' \<and> (conns w' c = Some cs \<or> conns w' c = closed cs)
    \<and> (\<forall>bs a rest. as = map Got bs @ a # rest \<and> a \<in> {Eof, Failed ECONNRESET} \<longrightarrow> conns w' c = closed cs)"
  using assms(3,4)
proof (induction as arbitrary: w recv)
  case (Cons a as)
  show ?case
  proof (cases a)
    case (Got b)
    obtain rc w1 recv' where s: "read_loop entry c (Got b # as) recv w = (if rc = PROTOCOL_DISCONNECT then hang_up c w1 else read_loop entry c as recv' w1)"
      "conns w1 c = Some cs" "length recv' = Suc RECV_DATA_LEN" using got_step [OF assms(1) Cons.prems, of b as] by blast
    show ?thesis
    proof (cases "rc = PROTOCOL_DISCONNECT")
      case True
      then show ?thesis using s(1) hang_up_closed [OF s(2) assms(2)] Got by auto
    next
      case False
      then show ?thesis using s(1) Cons.IH [OF s(2,3)] Got by (auto simp: Cons_eq_append_conv Cons_eq_map_conv)
    qed
  next
    case Eof
    then show ?thesis using hang_up_closed [OF Cons.prems(1) assms(2)] by auto
  next
    case (Failed e)
    then show ?thesis using hang_up_closed [OF Cons.prems(1) assms(2)] Cons.prems(1) by (cases e) (auto simp: Cons_eq_append_conv)
  qed
qed simp


definition ex_tcp_conn :: conn_state where
  "ex_tcp_conn = \<lparr>ci = info ex_link, ref_cnt = 1, data = Some 5\<rparr>"

definition ex_world :: world where
  "ex_world = \<lparr>conns = [1 \<mapsto> ex_tcp_conn], connection_counter = 1, pc = \<lparr>protocol_session_start = None, protocol_session_entry = Some 3,
     protocol_session_end = Some 4, local_entry = None\<rparr>, trace = []\<rparr>"


section \<open>Accepting, datagrams and sockets\<close>

text \<open>C26:
  A connection that \<^verbatim>\<open>accept\<close> returns, after any number of retries, gets a record with one reference, an empty send buffer and the
  operations of \<^verbatim>\<open>tcp.c\<close>; the protocol module has been told and the event is added.
\<close>

theorem tcp_accept_correct:
  assumes "length (data_buf (ci blk)) = SEND_BUF_LEN"
  shows "\<exists>w' cs. tcp_socket_event_handler start True (replicate k Retry @ Accepted f a n # as) True (c, blk) w = Some w'
    \<and> conns w' = (conns w)(c \<mapsto> cs) \<and> ref_cnt cs = 1 \<and> fd (ci cs) = f \<and> addr (ci cs) = a \<and> conn_close (cp_ops_of (ci cs)) = Some tcp_conn_close
    \<and> data cs = (case protocol_session_start (pc w) of Some g \<Rightarrow> start g c | None \<Rightarrow> None)
    \<and> stream \<lparr>info = ci cs, wire = [], waits_for = Wait_Read, added = True\<rparr> []
    \<and> connection_counter w' = connection_counter w + 1 \<and> last (trace w') = EventAdd c"
proof -
  have loop: "accept_loop (replicate k Retry @ Accepted f a n # as) = Some (f, a, n)" by (induction k) simp_all
  have b: "wr (data_buf (ci blk)) 0 NUL = Some ((data_buf (ci blk))[0 := NUL])" using assms by (simp add: SEND_BUF_LEN_def)
  let ?d = "case protocol_session_start (pc w) of Some g \<Rightarrow> start g c | None \<Rightarrow> None"
  let ?cs = "blk\<lparr>ref_cnt := 1, ci := (ci blk)\<lparr>fd := f, conn_type := CSF_TCP, cp_ops_of := Some tcp_ops, data_buf := (data_buf (ci blk))[0 := NUL],
             data_sent := 0, data_stored := 0, addr := a, addrlen := n\<rparr>, data := ?d\<rparr>"
  obtain w' where w': "tcp_socket_event_handler start True (replicate k Retry @ Accepted f a n # as) True (c, blk) w = Some w'" "conns w' = (conns w)(c \<mapsto> ?cs)"
    "connection_counter w' = connection_counter w + 1" "last (trace w') = EventAdd c"
    using loop b by (cases "protocol_session_start (pc w)")
      (auto simp: tcp_socket_event_handler_def connection_made_def do_protocol_session_start_def Let_def)
  have "stream \<lparr>info = ci ?cs, wire = [], waits_for = Wait_Read, added = True\<rparr> []" using assms by (intro stream.opened) simp_all
  then show ?thesis using w' by (intro exI [of _ w'] exI [of _ ?cs]) (simp add: conn_close_def)
qed

theorem tcp_accept_correct_witness:
  "\<exists>w' cs. tcp_socket_event_handler (\<lambda>g c. Some 9) True [Retry, Accepted 8 (0, 80) 16] True (2, ex_tcp_conn) ex_world = Some w' \<and> conns w' 2 = Some cs \<and> fd (ci cs) = 8"
  using tcp_accept_correct [of ex_tcp_conn "\<lambda>g c. Some 9" 1 8 "(0, 80)" 16 "[]" 2 ex_world] by (auto simp: ex_tcp_conn_def ex_link_def)

lemma conns_made: "conns w c = Some cs \<Longrightarrow> \<exists>w' d. connection_made start (Some c) w = Some (CSF_OK, w') \<and> conns w' c = Some (cs\<lparr>data := d\<rparr>)
    \<and> connection_counter w' = connection_counter w + 1 \<and> pc w' = pc w"
  by (auto simp: connection_made_def do_protocol_session_start_def Let_def split: option.splits)



text \<open>C29:
  \<^verbatim>\<open>tcp_socket_init\<close> and \<^verbatim>\<open>udp_socket_init\<close> return a descriptor that is open and stored in the operation table, or a negative number, and then
  no descriptor is left open.
\<close>

theorem socket_init_no_leak:
  assumes "sock \<notin> open_fds p" and "sock < 0 \<Longrightarrow> setopt < 0"
  shows "(case tcp_socket_init sock setopt bound listening timeout p of (r, p') \<Rightarrow>
      if r < 0 then open_fds p' = open_fds p \<and> sockfd p' = sockfd p else r = sock \<and> open_fds p' = insert r (open_fds p) \<and> sockfd p' = r)
    \<and> (case udp_socket_init sock setopt bound timeout p of (r, p') \<Rightarrow>
      if r < 0 then open_fds p' = open_fds p \<and> sockfd p' = sockfd p else r = sock \<and> open_fds p' = insert r (open_fds p) \<and> sockfd p' = r)"
  using assms by (auto simp: tcp_socket_init_def udp_socket_init_def open_fd_def close_fd_def Let_def)

theorem socket_init_no_leak_witness:
  "open_fds (snd (tcp_socket_init 5 0 (-1) 0 10 \<lparr>sockfd = -1, server_timeout = 0, open_fds = {0}\<rparr>)) = {0}"
  using socket_init_no_leak [of 5 "\<lparr>sockfd = -1, server_timeout = 0, open_fds = {0}\<rparr>" 0 "-1" 0 10]
  by (simp add: tcp_socket_init_def Let_def)

end
