(* ===== verification/Stage.thy ===== *)
theory Stage
  imports Rbtree_Props Pipeline Strl "HOL-Library.List_Lexorder"
begin

text \<open>
  The index of the pipeline stages by their names, \<^verbatim>\<open>pipeline_stage.c\<close>: a red-black tree whose
  elements are the request queue control blocks.
\<close>

definition MAX_MOD_NAME_LEN :: nat where "MAX_MOD_NAME_LEN = 64"
definition STAGE_ADD_ERR :: int where "STAGE_ADD_ERR = -1"
definition STAGE_ADD_OK :: int where "STAGE_ADD_OK = 0"
definition STAGE_SET_ERR :: int where "STAGE_SET_ERR = -1"
definition STAGE_SET_OK :: int where "STAGE_SET_OK = 0"

section \<open>The functions\<close>

text \<open>\<^verbatim>\<open>strncmp\<close> of the C library: the bytes are compared as unsigned numbers.\<close>

fun strncmp :: "nat \<Rightarrow> string \<Rightarrow> string \<Rightarrow> int" where
  "strncmp 0 a b = 0"
| "strncmp (Suc n) [] [] = 0"
| "strncmp (Suc n) [] (d # ds) = - of_char d"
| "strncmp (Suc n) (c # cs) [] = of_char c"
| "strncmp (Suc n) (c # cs) (d # ds) = (if c = d then strncmp n cs ds else of_char c - of_char d)"

text \<open>The name of a control block, as the comparison reads it.\<close>

definition name_of :: "(nat \<rightharpoonup> rqcb) \<Rightarrow> nat \<Rightarrow> string" where
  "name_of qs q = (case qs q of Some b \<Rightarrow> mod_name b | None \<Rightarrow> [])"

definition name_cmp :: "string \<Rightarrow> (nat \<rightharpoonup> rqcb) \<Rightarrow> nat \<Rightarrow> int" where
  "name_cmp a qs b = (let diff = strncmp (MAX_MOD_NAME_LEN - 1) a (name_of qs b) in
     if diff = 0 then 0 else if diff < 0 then -1 else 1)"

text \<open>
  \<^verbatim>\<open>stage_init\<close>: with a null pointer a new empty tree, else the given one.  The entries of all control blocks stay where they are.
\<close>

definition stage_init :: "rb_tree option \<Rightarrow> bool \<Rightarrow> rb_tree \<Rightarrow> rb_tree option" where
  "stage_init p mem old = (case p of
     None \<Rightarrow> if mem then Some (RB_INIT old) else None
   | Some t \<Rightarrow> Some t)"

definition stage_add :: "nat \<Rightarrow> (nat \<rightharpoonup> rqcb) \<Rightarrow> rb_tree \<Rightarrow> (int \<times> rb_tree) option" where
  "stage_add q qs t = do {
     (p, t) \<leftarrow> RB_INSERT (name_cmp (name_of qs q) qs) q t;
     Some (if p = None then STAGE_ADD_OK else STAGE_ADD_ERR, t)
   }"

text \<open>The name is copied into a control block on the stack, whose bytes before are \<open>junk\<close>.\<close>

definition stage_find :: "buf \<Rightarrow> buf \<Rightarrow> (nat \<rightharpoonup> rqcb) \<Rightarrow> rb_tree \<Rightarrow> ptr option" where
  "stage_find junk name qs t = do {
     (find, _) \<leftarrow> strlcpy junk name MAX_MOD_NAME_LEN;
     RB_FIND (name_cmp (cstr find) qs) t
   }"

text \<open>The result has the new \<^verbatim>\<open>next_rqcbp\<close> of the worker.\<close>

definition set_next_stage :: "buf \<Rightarrow> buf \<Rightarrow> (nat \<rightharpoonup> rqcb) \<Rightarrow> rb_tree \<Rightarrow> ptr \<Rightarrow> (int \<times> ptr) option" where
  "set_next_stage junk stage_name qs t next_rqcbp = do {
     rqcbp \<leftarrow> stage_find junk stage_name qs t;
     Some (if rqcbp = None then (STAGE_SET_ERR, next_rqcbp) else (STAGE_SET_OK, rqcbp))
   }"

section \<open>Properties\<close>

text \<open>Names in the order of the tree: their bytes, as far as they are compared.\<close>

definition name_key :: "string \<Rightarrow> nat list" where
  "name_key a = map of_char (take (MAX_MOD_NAME_LEN - 1) a)"

lemma of_char_pos: "c \<noteq> NUL \<Longrightarrow> 0 < (of_char c :: int)"
proof -
  assume "c \<noteq> NUL"
  then have "(of_char c :: nat) \<noteq> of_char NUL" unfolding of_char_eq_iff .
  moreover have "(of_char c :: int) = int (of_char c)" by (rule of_nat_of_char [symmetric])
  ultimately show ?thesis by simp
qed

lemma strncmp_less:
  assumes "NUL \<notin> set a" and "NUL \<notin> set b"
  shows "(strncmp n a b < 0 \<longleftrightarrow> map of_char (take n a) < (map of_char (take n b) :: nat list))
    \<and> (0 < strncmp n a b \<longleftrightarrow> map of_char (take n b) < (map of_char (take n a) :: nat list))"
  using assms
proof (induction n a b rule: strncmp.induct)
  case (5 n c cs d ds)
  have i: "(of_char x :: int) = int (of_char x)" for x by (rule of_nat_of_char [symmetric])
  have "(of_char x :: int) < of_char y \<longleftrightarrow> (of_char x :: nat) < of_char y" for x y using i [of x] i [of y] by linarith
  then show ?case using 5 by (simp add: Cons_less_Cons)
qed (auto dest!: of_char_pos [OF not_sym])

text \<open>The tree \<open>t\<close> indexes the control blocks \<open>S\<close> by their names.\<close>

definition stages_ok :: "(nat \<rightharpoonup> rqcb) \<Rightarrow> rb_tree \<Rightarrow> nat set \<Rightarrow> bool" where
  "stages_ok qs t S \<longleftrightarrow> tree_index (\<lambda>q. name_key (name_of qs q)) t S \<and> (\<forall>q \<in> S. NUL \<notin> set (name_of qs q))"

lemma name_cmp_compares:
  assumes "stages_ok qs t S" and "NUL \<notin> set a"
  shows "compares (name_cmp a qs) (\<lambda>q. name_key (name_of qs q)) (name_key a) S"
  unfolding compares_def
proof
  fix q
  assume "q \<in> S"
  then have "NUL \<notin> set (name_of qs q)" using assms(1) by (simp add: stages_ok_def)
  note less = strncmp_less [OF assms(2) this, of "MAX_MOD_NAME_LEN - 1", folded name_key_def]
  show "(name_cmp a qs q < 0) = (name_key a < name_key (name_of qs q)) \<and> (0 < name_cmp a qs q) = (name_key (name_of qs q) < name_key a)"
    using less by (cases "strncmp (MAX_MOD_NAME_LEN - 1) a (name_of qs q)" "0 :: int" rule: linorder_cases) (auto simp: name_cmp_def)
qed

lemma stage_add_ok:
  assumes "stages_ok qs t S" and "NUL \<notin> set (name_of qs q)" and "tree_cell t q" and "name_key (name_of qs q) \<notin> (\<lambda>q. name_key (name_of qs q)) ` S"
  shows "\<exists>t'. stage_add q qs t = Some (STAGE_ADD_OK, t') \<and> stages_ok qs t' (insert q S) \<and> (\<forall>b. tree_cell t' b = tree_cell t b)"
proof -
  have i: "tree_index (\<lambda>q. name_key (name_of qs q)) t S" using assms(1) by (simp add: stages_ok_def)
  obtain t' where "RB_INSERT (name_cmp (name_of qs q) qs) q t = Some (None, t')" "tree_index (\<lambda>q. name_key (name_of qs q)) t' (insert q S)"
    "\<forall>b. tree_cell t' b = tree_cell t b" using rb.ins_new [OF i name_cmp_compares [OF assms(1,2)] assms(4,3)] by blast
  then show ?thesis using assms(1,2) by (auto simp: stage_add_def stages_ok_def)
qed

lemma stage_add_dup:
  assumes "stages_ok qs t S" and "NUL \<notin> set (name_of qs q)" and "p \<in> S" and "name_key (name_of qs p) = name_key (name_of qs q)"
  shows "stage_add q qs t = Some (STAGE_ADD_ERR, t)"
proof -
  have i: "tree_index (\<lambda>q. name_key (name_of qs q)) t S" using assms(1) by (simp add: stages_ok_def)
  show ?thesis using rb.ins_old [OF i name_cmp_compares [OF assms(1,2)] assms(3,4)] by (simp add: stage_add_def)
qed

lemma name_key_take [simp]: "name_key (take (MAX_MOD_NAME_LEN - 1) a) = name_key a"
  by (simp add: name_key_def)

lemma stage_find_ok:
  assumes "stages_ok qs t S" and "holds name a" and "length junk = MAX_MOD_NAME_LEN"
  shows "\<exists>r. stage_find junk name qs t = Some r
    \<and> (case r of None \<Rightarrow> name_key a \<notin> (\<lambda>q. name_key (name_of qs q)) ` S | Some q \<Rightarrow> q \<in> S \<and> name_key (name_of qs q) = name_key a)"
proof -
  let ?a = "take (MAX_MOD_NAME_LEN - 1) a"
  have nul: "NUL \<notin> set ?a" using assms(2) by (auto simp: holds_def dest: in_set_takeD)
  obtain r where "strlcpy junk name MAX_MOD_NAME_LEN = Some (?a @ NUL # r, length a)"
    using strlcpy_holds [OF assms(2), of MAX_MOD_NAME_LEN junk] assms(3) by (auto simp: MAX_MOD_NAME_LEN_def)
  moreover have i: "tree_index (\<lambda>q. name_key (name_of qs q)) t S" using assms(1) by (simp add: stages_ok_def)
  ultimately show ?thesis using rb.find_law [OF i name_cmp_compares [OF assms(1) nul], unfolded name_key_take] nul
    by (simp add: stage_find_def)
qed

text \<open>C13:
  The index of the stages: \<^verbatim>\<open>stage_add\<close> adds a control block under its name and refuses a second one with the same name, and
  \<^verbatim>\<open>set_next_stage\<close> gives the worker exactly the control block that was added under the name, or reports an error and changes nothing.
  Names are equal when their first 63 bytes are.
\<close>

theorem stage_index_correct:
  assumes "stages_ok qs t S" and "NUL \<notin> set (name_of qs q)" and "tree_cell t q" and "length junk = MAX_MOD_NAME_LEN" and "holds name a"
  shows "(\<exists>rc t'. stage_add q qs t = Some (rc, t')
      \<and> (if \<exists>p \<in> S. name_key (name_of qs p) = name_key (name_of qs q) then rc = STAGE_ADD_ERR \<and> t' = t else rc = STAGE_ADD_OK \<and> stages_ok qs t' (insert q S)))
    \<and> (\<exists>rc nx'. set_next_stage junk name qs t nx = Some (rc, nx')
      \<and> (if \<exists>p \<in> S. name_key (name_of qs p) = name_key a then rc = STAGE_SET_OK \<and> (\<exists>p \<in> S. nx' = Some p \<and> name_key (name_of qs p) = name_key a)
         else rc = STAGE_SET_ERR \<and> nx' = nx))"
proof
  show "\<exists>rc t'. stage_add q qs t = Some (rc, t')
      \<and> (if \<exists>p \<in> S. name_key (name_of qs p) = name_key (name_of qs q) then rc = STAGE_ADD_ERR \<and> t' = t else rc = STAGE_ADD_OK \<and> stages_ok qs t' (insert q S))"
  proof (cases "\<exists>p \<in> S. name_key (name_of qs p) = name_key (name_of qs q)")
    case True
    then obtain p where "p \<in> S" "name_key (name_of qs p) = name_key (name_of qs q)" by blast
    from stage_add_dup [OF assms(1,2) this] True show ?thesis by simp
  next
    case False
    then have "name_key (name_of qs q) \<notin> (\<lambda>q. name_key (name_of qs q)) ` S" by force
    from stage_add_ok [OF assms(1-3) this] False show ?thesis by auto
  qed
  obtain r where "stage_find junk name qs t = Some r"
    "case r of None \<Rightarrow> name_key a \<notin> (\<lambda>q. name_key (name_of qs q)) ` S | Some q \<Rightarrow> q \<in> S \<and> name_key (name_of qs q) = name_key a"
    using stage_find_ok [OF assms(1,5,4)] by blast
  moreover have "set_next_stage junk name qs t nx = Some (if r = None then (STAGE_SET_ERR, nx) else (STAGE_SET_OK, r))"
    using calculation(1) by (simp add: set_next_stage_def)
  moreover have "(\<exists>p \<in> S. name_key (name_of qs p) = name_key a) \<longleftrightarrow> r \<noteq> None" using calculation(2) by (cases r) force+
  ultimately show "\<exists>rc nx'. set_next_stage junk name qs t nx = Some (rc, nx')
      \<and> (if \<exists>p \<in> S. name_key (name_of qs p) = name_key a then rc = STAGE_SET_OK \<and> (\<exists>p \<in> S. nx' = Some p \<and> name_key (name_of qs p) = name_key a)
         else rc = STAGE_SET_ERR \<and> nx' = nx)"
    by (cases r) auto
qed

definition ex_stages :: "nat \<rightharpoonup> rqcb" where
  "ex_stages = [1 \<mapsto> \<lparr>request_head = [], next_rqcb = None, mod_name = ''filter.so'', queue_id = 0, queue_len = 0, thread_num = 1, delay = 0,
     request_init = None, request_deinit = None, request_handler = None, rqst_num = 0, request_count = 0\<rparr>]"

definition ex_stage_tree :: rb_tree where
  "ex_stage_tree = \<lparr>rbh_root = None, entries = [1 \<mapsto> \<lparr>rbe_left = None, rbe_right = None, rbe_parent = None, rbe_color = RB_BLACK\<rparr>]\<rparr>"

theorem stage_index_correct_witness:
  "\<exists>t'. stage_add 1 ex_stages ex_stage_tree = Some (STAGE_ADD_OK, t') \<and> stages_ok ex_stages t' {1}"
proof -
  have "tree_index k ex_stage_tree {}" for k :: "nat \<Rightarrow> nat list"
    unfolding tree_index_def by (rule exI [of _ Lf]) (simp add: tree_at_def red_black_def ex_stage_tree_def)
  then have "stages_ok ex_stages ex_stage_tree {}" by (simp add: stages_ok_def)
  moreover have "NUL \<notin> set (name_of ex_stages 1)" "tree_cell ex_stage_tree 1" by (simp_all add: name_of_def ex_stages_def tree_cell_def ex_stage_tree_def)
  moreover have "length (replicate MAX_MOD_NAME_LEN NUL) = MAX_MOD_NAME_LEN" "holds [NUL] []" by (simp_all add: holds_def)
  ultimately show ?thesis using stage_index_correct by fastforce
qed

end
