(* ===== verification/Modules.thy ===== *)
theory Modules
  imports Stage Confparser
begin

text \<open>
  The loading of the modules, \<^verbatim>\<open>module.c\<close>: every section of the configuration file that is neither the server's nor the protocol
  module's names a shared object with a stage of a pipeline.  What a shared object does is a parameter.
\<close>

definition MOD_CONF_ERR :: int where "MOD_CONF_ERR = -3"

record mod_config =
  mc_pipeline_id :: u32
  mc_delay :: u32
  mc_stage_id :: int
  mc_thread_num :: int
  mc_name :: string
  mc_request_init :: ptr
  mc_request_deinit :: ptr
  mc_request_handler :: ptr

text \<open>The static variables that \<^verbatim>\<open>load_conf\<close> fills, by number, with their defaults.\<close>

definition mod_conf_int_array :: "conf_int_config list" where
  "mod_conf_int_array = int_table [(''threads'', 0), (''stage_id'', 1), (''pipeline_id'', 2), (''delay'', 3)]"

definition mod_conf_defaults :: "nat \<Rightarrow> int" where
  "mod_conf_defaults = (\<lambda>_. 0)(0 := 8, 1 := 1, 2 := 0, 3 := 0)"

text \<open>
  What is outside: the file system and the memory of the configuration reader, whether a shared object can be opened and has
  the symbol, whether there is memory for the \<open>i\<close>-th module, and what its \<^verbatim>\<open>_mod_init\<close> returns and fills in.
\<close>

record mod_env =
  me_conf :: conf_env
  me_conf_file :: buf
  dlopen_ok :: "string \<Rightarrow> bool"
  dlsym_ok :: "string \<Rightarrow> bool"
  calloc_ok :: "nat \<Rightarrow> bool"
  mod_init :: "string \<Rightarrow> mod_config \<Rightarrow> int \<times> mod_config"

record mod_state =
  mod_vars :: conf_vars
  mcq :: "mod_config list"
  protocol_init :: "string option"

section \<open>The functions\<close>

definition mod_path :: "string \<Rightarrow> string \<Rightarrow> string" where
  "mod_path dir name = take (2 * CONF_ITEM_LEN - 1) (dir @ ''/'' @ name)"

text \<open>\<^verbatim>\<open>load_protocol_mod\<close> with \<^verbatim>\<open>set_protocol_init\<close>; the function pointer is named by the path of its object.\<close>

definition load_protocol_mod :: "mod_env \<Rightarrow> string \<Rightarrow> string \<Rightarrow> mod_state \<Rightarrow> int \<times> mod_state" where
  "load_protocol_mod e dir name s =
     (if \<not> dlopen_ok e (mod_path dir name) then (CSF_ERR, s)
      else if \<not> dlsym_ok e (mod_path dir name) then (CSF_ERR, s)
      else (CSF_OK, s\<lparr>protocol_init := Some (mod_path dir name)\<rparr>))"

text \<open>The insertion into the queue of modules; the loop looks for the first module of a later pipeline.\<close>

fun insert_before_later :: "mod_config \<Rightarrow> mod_config list \<Rightarrow> mod_config list option" where
  "insert_before_later m [] = None"
| "insert_before_later m (m1 # q) =
     (if mc_pipeline_id m1 > mc_pipeline_id m then Some (m # m1 # q) else map_option ((#) m1) (insert_before_later m q))"

definition insert_mod :: "mod_config \<Rightarrow> mod_config list \<Rightarrow> mod_config list" where
  "insert_mod m q = (if q = [] then [m]
     else case insert_before_later m q of
       Some q' \<Rightarrow> q'
     | None \<Rightarrow> (let m1 = last q in
         if mc_pipeline_id m1 = mc_pipeline_id m then
           if mc_stage_id m1 > mc_stage_id m then butlast q @ [m, m1] else q @ [m]
         else q @ [m]))"

text \<open>
  One section.  A module without \<^verbatim>\<open>_mod_init\<close> is called through a null pointer, and a pipeline number that is too large is
  printed from a null pointer; both have no result.
\<close>

definition load_section :: "mod_env \<Rightarrow> string \<Rightarrow> nat \<Rightarrow> string \<Rightarrow> mod_state \<Rightarrow> (int option \<times> mod_state) option" where
  "load_section e dir i secname s =
     (if \<not> dlopen_ok e (mod_path dir secname) then Some (Some CSF_ERR, s)
      else if \<not> calloc_ok e i then Some (Some CSF_ERR, s)
      else do {
        (retval, vs) \<leftarrow> load_conf (me_conf e) (me_conf_file e) None (Some secname) (Some mod_conf_int_array) None (mod_vars s);
        let s = s\<lparr>mod_vars := vs\<rparr>;
        if retval \<noteq> 0 then Some (Some MOD_CONF_ERR, s)
        else do {
          let msp = \<lparr>mc_pipeline_id = word_of_int (int_at vs 2), mc_delay = word_of_int (int_at vs 3), mc_stage_id = int_at vs 1,
             mc_thread_num = int_at vs 0, mc_name = [], mc_request_init = None, mc_request_deinit = None, mc_request_handler = None\<rparr>;
          _ \<leftarrow> (if dlsym_ok e (mod_path dir secname) then Some () else None);
          let (retval, msp) = mod_init e secname msp;
          if retval < 0 then Some (Some CSF_ERR, s)
          else if unat (mc_pipeline_id msp) \<ge> PIPELINE_SIZE then None
          else Some (None, s\<lparr>mcq := insert_mod (msp\<lparr>mc_name := take (MAX_MOD_NAME_LEN - 1) secname\<rparr>) (mcq s)\<rparr>)
        }
      })"

text \<open>The loop over the sections; a result that is not None ends it.\<close>

fun section_loop :: "mod_env \<Rightarrow> string \<Rightarrow> string \<Rightarrow> dictionary \<Rightarrow> nat \<Rightarrow> nat \<Rightarrow> mod_state \<Rightarrow> (int \<times> mod_state) option" where
  "section_loop e dir proto conf i 0 s = Some (CSF_OK, s)"
| "section_loop e dir proto conf i (Suc n) s = do {
     secp \<leftarrow> iniparser_getsecname (Some conf) (int i);
     secname \<leftarrow> secp;
     if strncmp (length secname) secname ''server'' \<noteq> 0 \<and> strncmp (length secname) secname proto \<noteq> 0
     then do {
       (r, s) \<leftarrow> load_section e dir i secname s;
       (case r of Some rc \<Rightarrow> Some (rc, s) | None \<Rightarrow> section_loop e dir proto conf (Suc i) n s)
     }
     else section_loop e dir proto conf (Suc i) n s
   }"

definition mod_config_init :: "mod_env \<Rightarrow> string \<Rightarrow> string \<Rightarrow> mod_state \<Rightarrow> (int \<times> mod_state) option" where
  "mod_config_init e mod_dir protocol_module s = do {
     conf \<leftarrow> open_conf_file (me_conf e) (me_conf_file e) None;
     (case conf of None \<Rightarrow> Some (CSF_ERR, s)
      | Some d \<Rightarrow> do {
          let (_, s) = load_protocol_mod e mod_dir protocol_module s;
          nsec \<leftarrow> iniparser_getnsec conf;
          if nsec < 1 then do { _ \<leftarrow> close_conf_file conf; Some (CSF_OK, s) }
          else do {
            (rc, s) \<leftarrow> section_loop e mod_dir protocol_module d 0 (nat nsec) s;
            _ \<leftarrow> (if rc = MOD_CONF_ERR then Some [] else close_conf_file conf);
            Some (rc, s)
          }
        })
   }"

section \<open>The order of the modules\<close>

text \<open>The modules are grouped by their pipelines, in ascending order, and the pipelines exist.\<close>

definition grouped :: "mod_config list \<Rightarrow> bool" where
  "grouped q \<longleftrightarrow> sorted (map mc_pipeline_id q) \<and> (\<forall>m \<in> set q. unat (mc_pipeline_id m) < PIPELINE_SIZE)"

lemma insert_before_later_ok:
  assumes "sorted (map mc_pipeline_id q)"
  shows "case insert_before_later m q of
      Some q' \<Rightarrow> sorted (map mc_pipeline_id q') \<and> mset q' = add_mset m (mset q)
    | None \<Rightarrow> \<forall>m1 \<in> set q. mc_pipeline_id m1 \<le> mc_pipeline_id m"
  using assms
proof (induction q)
  case (Cons m1 q)
  then show ?case
  proof (cases "insert_before_later m q")
    case (Some q')
    then have "sorted (map mc_pipeline_id q')" "mset q' = add_mset m (mset q)" using Cons by simp_all
    moreover from this(2) have "set q' = insert m (set q)" by (metis set_mset_add_mset_insert set_mset_mset)
    ultimately show ?thesis using Some Cons.prems by auto
  qed (use Cons in auto)
qed simp

lemma insert_mod_ok:
  assumes "sorted (map mc_pipeline_id q)"
  shows "sorted (map mc_pipeline_id (insert_mod m q)) \<and> mset (insert_mod m q) = add_mset m (mset q)"
proof (cases "q = [] \<or> insert_before_later m q \<noteq> None")
  case True
  then show ?thesis using insert_before_later_ok [OF assms, of m] by (auto simp: insert_mod_def)
next
  case False
  then obtain q' m1 where q: "q = q' @ [m1]" by (cases q rule: rev_cases) auto
  have "\<forall>m1 \<in> set q. mc_pipeline_id m1 \<le> mc_pipeline_id m" using insert_before_later_ok [OF assms, of m] False by simp
  then show ?thesis using assms False q by (auto simp: insert_mod_def sorted_append)
qed

lemma grouped_insert:
  assumes "grouped q" and "unat (mc_pipeline_id m) < PIPELINE_SIZE"
  shows "grouped (insert_mod m q)"
proof -
  have s: "sorted (map mc_pipeline_id (insert_mod m q))" "mset (insert_mod m q) = add_mset m (mset q)"
    using insert_mod_ok [of q m] assms(1) by (simp_all add: grouped_def)
  then have "set (insert_mod m q) = insert m (set q)" by (metis set_mset_add_mset_insert set_mset_mset)
  then show ?thesis using assms s(1) by (auto simp: grouped_def)
qed

lemma section_loop_grouped:
  "section_loop e dir proto conf i n s = Some (rc, s') \<Longrightarrow> grouped (mcq s) \<Longrightarrow> grouped (mcq s')"
proof (induction n arbitrary: i s)
  case (Suc n)
  obtain secname where sec: "iniparser_getsecname (Some conf) (int i) = Some (Some secname)"
    using Suc.prems(1) by (cases "iniparser_getsecname (Some conf) (int i)"; cases "the (iniparser_getsecname (Some conf) (int i))") simp_all
  show ?case
  proof (cases "strncmp (length secname) secname ''server'' \<noteq> 0 \<and> strncmp (length secname) secname proto \<noteq> 0")
    case True
    then obtain r s1 where l: "load_section e dir i secname s = Some (r, s1)"
      "(case r of Some rc \<Rightarrow> Some (rc, s1) | None \<Rightarrow> section_loop e dir proto conf (Suc i) n s1) = Some (rc, s')"
      using Suc.prems(1) sec by (auto simp: bind_eq_Some_conv)
    have "grouped (mcq s1)" using l(1) Suc.prems(2)
      by (auto simp: load_section_def Let_def bind_eq_Some_conv split: if_splits prod.splits intro!: grouped_insert)
    then show ?thesis using l(2) Suc.IH by (auto split: option.splits)
  next
    case False
    then have "section_loop e dir proto conf (Suc i) n s = Some (rc, s')" using Suc.prems(1) sec by auto
    then show ?thesis using Suc by blast
  qed
qed simp

text \<open>Whatever the configuration file and the shared objects are, the queue that \<^verbatim>\<open>mod_config_init\<close> leaves is grouped.\<close>

lemma mod_config_init_grouped:
  assumes "mod_config_init e dir proto s = Some (rc, s')" and "grouped (mcq s)"
  shows "grouped (mcq s')"
proof -
  obtain x s1 where lp: "load_protocol_mod e dir proto s = (x, s1)" by fastforce
  then have g: "grouped (mcq s1)" using assms(2) by (auto simp: load_protocol_mod_def split: if_splits)
  show ?thesis using assms lp g
    by (auto simp: mod_config_init_def bind_eq_Some_conv split: option.splits if_splits dest: section_loop_grouped [OF _ g])
qed

text \<open>C22:
  The modules end up grouped by pipeline, in ascending order of the pipeline numbers, whatever their order in the configuration file is, and none
  is lost.  This is the order on which \<^verbatim>\<open>pipeline_init\<close> relies.  The stages of one pipeline are not sorted, although a comment says so: three
  stages that come in descending order end up with the first two in front of the third but not in order.
\<close>

theorem module_queue_order:
  assumes "\<forall>m \<in> set ms. unat (mc_pipeline_id m) < PIPELINE_SIZE"
    and "mc_pipeline_id a = mc_pipeline_id b" and "mc_pipeline_id b = mc_pipeline_id c" and "mc_stage_id a > mc_stage_id b" and "mc_stage_id b > mc_stage_id c"
  shows "grouped (fold insert_mod ms []) \<and> mset (fold insert_mod ms []) = mset ms
    \<and> fold insert_mod [a, b, c] [] = [b, c, a] \<and> \<not> sorted (map mc_stage_id (fold insert_mod [a, b, c] []))"
proof -
  have "grouped (fold insert_mod ms q) \<and> mset (fold insert_mod ms q) = mset ms + mset q" if "grouped q" for q
    using assms(1) that
  proof (induction ms arbitrary: q)
    case (Cons m ms)
    have "grouped (insert_mod m q)" using Cons.prems by (intro grouped_insert) simp_all
    then show ?case using Cons insert_mod_ok [of q m] by (simp add: grouped_def)
  qed simp
  from this [of "[]"] have "grouped (fold insert_mod ms [])" "mset (fold insert_mod ms []) = mset ms" by (simp_all add: grouped_def)
  then show ?thesis using assms(2-) by (auto simp: insert_mod_def Let_def)
qed

definition ex_mod :: "u32 \<Rightarrow> int \<Rightarrow> mod_config" where
  "ex_mod p i = \<lparr>mc_pipeline_id = p, mc_delay = 0, mc_stage_id = i, mc_thread_num = 1, mc_name = [], mc_request_init = None, mc_request_deinit = None,
     mc_request_handler = None\<rparr>"

theorem module_queue_order_witness:
  "grouped (fold insert_mod [ex_mod 2 1, ex_mod 1 1] []) \<and> fold insert_mod [ex_mod 1 3, ex_mod 1 2, ex_mod 1 1] [] = [ex_mod 1 2, ex_mod 1 1, ex_mod 1 3]"
  using module_queue_order [of "[ex_mod 2 1, ex_mod 1 1]" "ex_mod 1 3" "ex_mod 1 2" "ex_mod 1 1"] by (simp add: ex_mod_def PIPELINE_SIZE_def)

end
