(* ===== verification/Startup.thy ===== *)
theory Startup
  imports Modules
begin

text \<open>
  The start of the pipelines, \<^verbatim>\<open>pipeline_init\<close> in \<^verbatim>\<open>pipeline.c\<close> and what it calls: the control blocks of
  the queues and pipelines, the index of the stages and the worker threads.  The results of allocations and thread calls
  are functions of the number of the module (and of the thread).
\<close>

definition PIPELINE_INIT_OK :: int where "PIPELINE_INIT_OK = 0"
definition PIPELINE_INIT_ERR :: int where "PIPELINE_INIT_ERR = -1"
definition PIPELINE_CONF_ERR :: int where "PIPELINE_CONF_ERR = -2"
definition MAX_PIPELINE_QUEUE_SIZE :: int where "MAX_PIPELINE_QUEUE_SIZE = 0x7FFFFFFF"

section \<open>State\<close>

text \<open>
  A worker thread is known by its queue; \<open>threads\<close> is \<^verbatim>\<open>pl_thr_queue_head\<close>.  The tree has the \<^verbatim>\<open>stage_entry\<close> fields of the control blocks.
\<close>

record boot =
  core :: sys
  stage_tree :: rb_tree
  mods :: "mod_config list"
  threads :: "nat list"
  pipeline_working_threads :: u32
  initialized_thread_num :: u32
  pipeline_initialized :: bool

record boot_env =
  first_rqcb :: ptr
  next_rqcb_mem :: "nat \<Rightarrow> ptr"
  pcb_mem :: "nat \<Rightarrow> bool"
  sync_ok :: "nat \<Rightarrow> bool"
  thread_mem :: "nat \<Rightarrow> nat \<Rightarrow> bool"
  create_ok :: "nat \<Rightarrow> nat \<Rightarrow> bool"
  stage_mem :: bool
  global_sync_ok :: bool
  done_sync_ok :: bool

text \<open>How the start ends: with a return value, with the exit of the process, or waiting for threads for ever.\<close>

datatype boot_end = Ret int | Exits | Hangs

definition on_core :: "(sys \<Rightarrow> sys) \<Rightarrow> boot \<Rightarrow> boot" where
  "on_core f b = b\<lparr>core := f (core b)\<rparr>"

text \<open>\<^verbatim>\<open>calloc\<close> of a control block: all fields are zero.\<close>

definition zero_rqcb :: rqcb where
  "zero_rqcb = \<lparr>request_head = [], next_rqcb = None, mod_name = [], queue_id = 0, queue_len = 0, thread_num = 0, delay = 0,
     request_init = None, request_deinit = None, request_handler = None, rqst_num = 0, request_count = 0\<rparr>"

definition zero_pcb :: pcb where
  "zero_pcb = \<lparr>counter = 0, pipeline_id = 0, first_rqcbp = None, aqe_empty = True, tmp_queue_len = 0, tmp_request_head = []\<rparr>"

definition new_rqcb :: "nat \<Rightarrow> boot \<Rightarrow> boot" where
  "new_rqcb a b = (on_core (put_rqcb a zero_rqcb) b)\<lparr>stage_tree := (stage_tree b)\<lparr>entries := (entries (stage_tree b))(a \<mapsto>
     \<lparr>rbe_left = None, rbe_right = None, rbe_parent = None, rbe_color = RB_BLACK\<rparr>)\<rparr>\<rparr>"

section \<open>The functions\<close>

text \<open>\<^verbatim>\<open>request_queue_init\<close> on a control block; the mutex and the condition variable can fail.\<close>

definition request_queue_init :: "bool \<Rightarrow> ptr \<Rightarrow> u32 \<Rightarrow> ptr \<Rightarrow> ptr \<Rightarrow> ptr \<Rightarrow> rqcb \<Rightarrow> int \<times> rqcb" where
  "request_queue_init ok nx d rip rdp rhp b =
     (if ok then CSF_OK else CSF_ERR,
      b\<lparr>rqst_num := 0, queue_len := 0, thread_num := 0, next_rqcb := nx, request_init := rip, request_deinit := rdp, request_handler := rhp,
        request_count := 0, delay := d, request_head := []\<rparr>)"

text \<open>
  \<^verbatim>\<open>thread_pool_init\<close>; a thread that cannot be created is left out.  The number of the next thread and the count of those to come are arguments.
\<close>

fun thread_pool_init :: "(nat \<Rightarrow> bool) \<Rightarrow> (nat \<Rightarrow> bool) \<Rightarrow> nat \<Rightarrow> nat \<Rightarrow> nat \<Rightarrow> boot \<Rightarrow> int \<times> boot" where
  "thread_pool_init mem create q i 0 b = (CSF_OK, b)"
| "thread_pool_init mem create q i (Suc n) b =
     (if \<not> mem i then (CSF_ERR, b)
      else thread_pool_init mem create q (Suc i) n (if create i then b\<lparr>threads := threads b @ [q]\<rparr> else b))"

text \<open>
  \<^verbatim>\<open>free_pipeline_data\<close>: the loop reads the link of a control block that it has just freed, which has no result.
\<close>

fun free_pipelines :: "nat list \<Rightarrow> boot \<Rightarrow> boot option" where
  "free_pipelines [] b = Some b"
| "free_pipelines (p # ps) b = (case pcbs (core b) p of
     None \<Rightarrow> free_pipelines ps b
   | Some c \<Rightarrow> (case first_rqcbp c of
       None \<Rightarrow> free_pipelines ps (on_core (\<lambda>s. s\<lparr>pcbs := (pcbs s)(p := None)\<rparr>) b)
     | Some q \<Rightarrow> do {
         _ \<leftarrow> rqcbs (core b) q;
         let b = on_core (\<lambda>s. s\<lparr>rqcbs := (rqcbs s)(q := None)\<rparr>) b;
         _ \<leftarrow> rqcbs (core b) q;
         free_pipelines ps b
       }))"

definition free_pipeline_data :: "boot \<Rightarrow> boot option" where
  "free_pipeline_data b = free_pipelines [0..<PIPELINE_SIZE] b"

text \<open>\<^verbatim>\<open>worker_thread_init\<close> of a thread of the queue \<open>q\<close>; a failing \<^verbatim>\<open>request_init\<close> exits the process.\<close>

definition worker_thread_init :: "(nat \<Rightarrow> int) \<Rightarrow> nat \<Rightarrow> boot \<Rightarrow> boot option option" where
  "worker_thread_init rinit q b = do {
     let b = b\<lparr>pipeline_working_threads := pipeline_working_threads b + 1\<rparr>;
     c \<leftarrow> rqcbs (core b) q;
     if (case request_init c of Some f \<Rightarrow> rinit f | None \<Rightarrow> PIPELINE_SUCCESS) \<noteq> PIPELINE_SUCCESS then Some None
     else Some (Some ((on_core (put_rqcb q (c\<lparr>thread_num := thread_num c + 1\<rparr>)) b)\<lparr>initialized_thread_num := initialized_thread_num b + 1\<rparr>))
   }"

fun threads_start :: "(nat \<Rightarrow> int) \<Rightarrow> nat list \<Rightarrow> boot \<Rightarrow> boot option option" where
  "threads_start rinit [] b = Some (Some b)"
| "threads_start rinit (q # qs) b = do {
     r \<leftarrow> worker_thread_init rinit q b;
     (case r of None \<Rightarrow> Some None | Some b \<Rightarrow> threads_start rinit qs b)
   }"

text \<open>\<^verbatim>\<open>thread_deinit\<close>; the last thread exits the process.\<close>

definition thread_deinit :: "nat \<Rightarrow> boot \<Rightarrow> boot_end \<times> boot" where
  "thread_deinit q b =
     (let b = b\<lparr>threads := remove1 q (threads b), pipeline_working_threads := pipeline_working_threads b - 1\<rparr>
      in if pipeline_working_threads b = 0 then (Exits, b) else (Ret CSF_OK, b))"

text \<open>\<^verbatim>\<open>broadcast_signal_to_allqueue\<close>: the queues whose condition variable is signalled, in order.  The chain is followed through the store.\<close>

partial_function (option) queue_chain :: "(nat \<rightharpoonup> rqcb) \<Rightarrow> ptr \<Rightarrow> nat list option" where
  "queue_chain qs p = (case p of None \<Rightarrow> Some []
     | Some q \<Rightarrow> do { c \<leftarrow> qs q; r \<leftarrow> queue_chain qs (next_rqcb c); Some (q # r) })"

fun broadcast_loop :: "nat list \<Rightarrow> sys \<Rightarrow> nat list option" where
  "broadcast_loop [] s = Some []"
| "broadcast_loop (p # ps) s = (case pcbs s p of
     None \<Rightarrow> broadcast_loop ps s
   | Some c \<Rightarrow> do { qs \<leftarrow> queue_chain (rqcbs s) (first_rqcbp c); r \<leftarrow> broadcast_loop ps s; Some (qs @ r) })"

definition broadcast_signal_to_allqueue :: "sys \<Rightarrow> nat list option" where
  "broadcast_signal_to_allqueue s = broadcast_loop [0..<PIPELINE_SIZE] s"

text \<open>\<^verbatim>\<open>request_info_init\<close>: the block copies the queue size and the timeout of the configuration; the rest of it are pointers to the globals.\<close>

definition request_info_init :: "bool \<Rightarrow> int \<Rightarrow> int \<Rightarrow> sys \<Rightarrow> sys option" where
  "request_info_init mem queue_size timeout s =
     (if mem then Some (s\<lparr>ri_queue_size := word_of_int queue_size, ri_timeout := timeout\<rparr>) else None)"

section \<open>\<open>pipeline_init\<close>\<close>

text \<open>The next control block, when there is another module, and the link to it, when it is of the same pipeline.\<close>

definition next_block :: "boot_env \<Rightarrow> nat \<Rightarrow> u32 \<Rightarrow> mod_config list \<Rightarrow> nat \<Rightarrow> int \<Rightarrow> boot \<Rightarrow> ((ptr \<times> ptr \<times> int) option \<times> boot)" where
  "next_block e k cur_id ms rqcbp qid b = (case ms of
     [] \<Rightarrow> (Some (None, None, qid), b)
   | m # _ \<Rightarrow> (case next_rqcb_mem e k of
       None \<Rightarrow> (None, b)
     | Some nx \<Rightarrow> let b = new_rqcb nx b in
         if mc_pipeline_id m = cur_id
         then (Some (Some nx, Some nx, qid + 1), on_core (\<lambda>s. s\<lparr>rqcbs := (rqcbs s)(rqcbp := map_option (\<lambda>c. c\<lparr>queue_id := qid\<rparr>) (rqcbs s rqcbp))\<rparr>) b)
         else (Some (Some nx, None, 0), b)))"

text \<open>The control block of the pipeline, made for its first stage.\<close>

definition pcb_block :: "boot_env \<Rightarrow> nat \<Rightarrow> u32 \<Rightarrow> nat \<Rightarrow> boot \<Rightarrow> boot option" where
  "pcb_block e k cur_id rqcbp b = (if pcbs (core b) (unat cur_id) \<noteq> None then Some b
     else if pcb_mem e k then Some (on_core (put_pcb (unat cur_id) (zero_pcb\<lparr>first_rqcbp := Some rqcbp, pipeline_id := cur_id\<rparr>)) b)
     else None)"

text \<open>The loop over the modules, with the number of the module, the control block for it, the queue number and the number of threads.\<close>

fun mod_loop :: "boot_env \<Rightarrow> nat \<Rightarrow> ptr \<Rightarrow> int \<Rightarrow> u32 \<Rightarrow> mod_config list \<Rightarrow> boot \<Rightarrow> ((boot_end + u32) \<times> boot) option" where
  "mod_loop e k rqp qid all [] b = Some (Inr all, b)"
| "mod_loop e k rqp qid all (m # ms) b = do {
     rqcbp \<leftarrow> rqp;
     c \<leftarrow> rqcbs (core b) rqcbp;
     let b = on_core (put_rqcb rqcbp (c\<lparr>mod_name := take (MAX_MOD_NAME_LEN - 1) (mc_name m)\<rparr>)) b;
     let cur_id = mc_pipeline_id m;
     (rc, t) \<leftarrow> stage_add rqcbp (rqcbs (core b)) (stage_tree b);
     let b = b\<lparr>stage_tree := t\<rparr>;
     if rc = STAGE_ADD_ERR then Some (Inl (Ret PIPELINE_INIT_ERR), b)
     else if unat cur_id \<ge> PIPELINE_SIZE then None
     else (case pcb_block e k cur_id rqcbp b of
       None \<Rightarrow> do { b \<leftarrow> free_pipeline_data b; Some (Inl (Ret PIPELINE_INIT_ERR), b) }
     | Some b \<Rightarrow> (case next_block e k cur_id ms rqcbp qid b of
         (None, b) \<Rightarrow> do { b \<leftarrow> free_pipeline_data b; Some (Inl (Ret PIPELINE_INIT_ERR), b) }
       | (Some (next_rqcbp, next_arg, qid), b) \<Rightarrow> do {
           c \<leftarrow> rqcbs (core b) rqcbp;
           let (rc, c) = request_queue_init (sync_ok e k) next_arg (mc_delay m) (mc_request_init m) (mc_request_deinit m) (mc_request_handler m) c;
           let b = on_core (put_rqcb rqcbp c) b;
           if rc \<noteq> CSF_OK then Some (Inl Exits, b)
           else (let (_, b) = thread_pool_init (thread_mem e k) (create_ok e k) rqcbp 0 (nat (mc_thread_num m)) b
             in mod_loop e (Suc k) next_rqcbp qid (all + word_of_int (mc_thread_num m)) ms (b\<lparr>mods := ms\<rparr>))
         }))
   }"

definition pipeline_init :: "boot_env \<Rightarrow> (nat \<Rightarrow> int) \<Rightarrow> int \<Rightarrow> int \<Rightarrow> boot \<Rightarrow> (boot_end \<times> boot) option" where
  "pipeline_init e rinit queue_size timeout b = do {
     let b = (on_core (\<lambda>s. s\<lparr>request_timeout := timeout, pcbs := Map.empty, apq := []\<rparr>) b)\<lparr>pipeline_initialized := False\<rparr>;
     if mods b = [] then Some (Ret PIPELINE_CONF_ERR, b)
     else if \<not> (queue_size \<ge> 0 \<and> queue_size < MAX_PIPELINE_QUEUE_SIZE) then Some (Ret PIPELINE_CONF_ERR, b)
     else do {
       let b = (on_core (\<lambda>s. s\<lparr>pipeline_queue_size := word_of_int queue_size\<rparr>) b)\<lparr>threads := []\<rparr>;
       case stage_init None (stage_mem e) (stage_tree b) of None \<Rightarrow> Some (Exits, b)
       | Some t \<Rightarrow> let b = b\<lparr>stage_tree := t\<rparr> in
       if \<not> global_sync_ok e then Some (Ret PIPELINE_INIT_ERR, b)
       else case first_rqcb e of None \<Rightarrow> Some (Ret PIPELINE_INIT_ERR, b)
       | Some a \<Rightarrow> do {
           (r, b) \<leftarrow> mod_loop e 0 (Some a) 0 0 (mods b) (new_rqcb a b);
           (case r of Inl res \<Rightarrow> Some (res, b)
            | Inr all \<Rightarrow> do {
                st \<leftarrow> threads_start rinit (threads b) b;
                (case st of None \<Rightarrow> Some (Exits, b)
                 | Some b \<Rightarrow> if all \<noteq> initialized_thread_num b then Some (Hangs, b)
                     else (let (rc, d) = request_queue_init (done_sync_ok e) None 0 None None None (done_rqcb (core b));
                               b = on_core (\<lambda>s. s\<lparr>done_rqcb := d\<rparr>) b
                       in if rc \<noteq> CSF_OK then Some (Exits, b) else Some (Ret PIPELINE_INIT_OK, b\<lparr>pipeline_initialized := True\<rparr>)))
              })
         }
     }
   }"

end
