(* ===== verification/Startup_Props.thy ===== *)
theory Startup_Props
  imports Startup
begin

text \<open>
  What the start of the pipelines builds: the chains of queues, the index of the stages and the threads.
\<close>

section \<open>Chains of queues\<close>

text \<open>A piece of a chain: the queues \<open>xs\<close> from the pointer \<open>p\<close> on, up to the pointer \<open>q\<close>.\<close>

fun lseg :: "(nat \<rightharpoonup> rqcb) \<Rightarrow> ptr \<Rightarrow> nat list \<Rightarrow> ptr \<Rightarrow> bool" where
  "lseg qs p [] q \<longleftrightarrow> p = q"
| "lseg qs p (x # xs) q \<longleftrightarrow> p = Some x \<and> (\<exists>c. qs x = Some c \<and> lseg qs (next_rqcb c) xs q)"

lemma lseg_append [simp]: "lseg qs p (xs @ ys) q \<longleftrightarrow> (\<exists>r. lseg qs p xs r \<and> lseg qs r ys q)"
  by (induction xs arbitrary: p) auto

lemma lseg_cong: "(\<And>x. x \<in> set xs \<Longrightarrow> map_option next_rqcb (qs' x) = map_option next_rqcb (qs x)) \<Longrightarrow> lseg qs' p xs q = lseg qs p xs q"
proof (induction xs arbitrary: p)
  case (Cons x xs)
  have "map_option next_rqcb (qs' x) = map_option next_rqcb (qs x)" using Cons.prems by simp
  moreover have "lseg qs' r xs q = lseg qs r xs q" for r using Cons by simp
  ultimately show ?case by (cases "qs x"; cases "qs' x") auto
qed simp

lemma queue_chain_lseg: "lseg qs p xs None \<Longrightarrow> queue_chain qs p = Some xs"
proof (induction xs arbitrary: p)
  case Nil
  then show ?case by (simp add: queue_chain.simps)
next
  case (Cons x xs)
  then obtain c where "p = Some x" "qs x = Some c" "queue_chain qs (next_rqcb c) = Some xs" by auto
  then show ?case by (subst queue_chain.simps) simp
qed

section \<open>The invariant of the loop\<close>

text \<open>The modules done so far with their control blocks, by pipeline.\<close>

definition of_pipeline :: "nat \<Rightarrow> (nat \<times> mod_config) list \<Rightarrow> nat list" where
  "of_pipeline p D = map fst (filter (\<lambda>(a, m). unat (mc_pipeline_id m) = p) D)"

lemma of_pipeline_simps [simp]:
  "of_pipeline p [] = []" "of_pipeline p (D @ E) = of_pipeline p D @ of_pipeline p E"
  "of_pipeline p [(a, m)] = (if unat (mc_pipeline_id m) = p then [a] else [])"
  by (simp_all add: of_pipeline_def)

lemma of_pipeline_subset: "set (of_pipeline p D) \<subseteq> fst ` set D"
  by (auto simp: of_pipeline_def)

text \<open>The pipelines: the chain of a pipeline is complete, or it ends at the block of the module that comes next.\<close>

definition pipe_chains :: "sys \<Rightarrow> (nat \<times> mod_config) list \<Rightarrow> (nat \<Rightarrow> ptr) \<Rightarrow> bool" where
  "pipe_chains s D ends \<longleftrightarrow> (\<forall>p. case pcbs s p of
     None \<Rightarrow> of_pipeline p D = []
   | Some c \<Rightarrow> of_pipeline p D \<noteq> [] \<and> lseg (rqcbs s) (first_rqcbp c) (of_pipeline p D) (ends p))"

definition block_ok :: "mod_config \<Rightarrow> rqcb \<Rightarrow> bool" where
  "block_ok m c \<longleftrightarrow> mod_name c = take (MAX_MOD_NAME_LEN - 1) (mc_name m) \<and> request_head c = [] \<and> queue_len c = 0 \<and> thread_num c = 0
     \<and> request_handler c = mc_request_handler m \<and> request_init c = mc_request_init m \<and> delay c = mc_delay m"

text \<open>Where the chain of a pipeline ends, when \<open>ms\<close> are the modules to come and \<open>xs\<close> their blocks.\<close>

definition open_end :: "(nat \<times> mod_config) list \<Rightarrow> nat list \<Rightarrow> mod_config list \<Rightarrow> nat \<Rightarrow> ptr" where
  "open_end D xs ms p = (if D \<noteq> [] \<and> ms \<noteq> [] \<and> unat (mc_pipeline_id (snd (last D))) = p \<and> unat (mc_pipeline_id (hd ms)) = p then Some (hd xs) else None)"

definition loop_inv :: "(nat \<times> mod_config) list \<Rightarrow> nat list \<Rightarrow> mod_config list \<Rightarrow> boot \<Rightarrow> bool" where
  "loop_inv D xs ms b \<longleftrightarrow> pipe_chains (core b) D (open_end D xs ms)
     \<and> stages_ok (rqcbs (core b)) (stage_tree b) (fst ` set D)
     \<and> (\<forall>(a, m) \<in> set D. \<exists>c. rqcbs (core b) a = Some c \<and> block_ok m c)
     \<and> (ms \<noteq> [] \<longrightarrow> rqcbs (core b) (hd xs) = Some zero_rqcb \<and> tree_cell (stage_tree b) (hd xs))"

text \<open>The threads that are made for the modules from number \<open>k\<close> on.\<close>

fun made_threads :: "boot_env \<Rightarrow> nat \<Rightarrow> (nat \<times> mod_config) list \<Rightarrow> nat list" where
  "made_threads e k [] = []"
| "made_threads e k ((a, m) # D) = replicate (length (filter (create_ok e k) [0..<nat (mc_thread_num m)])) a @ made_threads e (Suc k) D"

lemma thread_pool_init_ok:
  assumes "\<forall>i. mem i"
  shows "thread_pool_init mem create q i n b = (CSF_OK, b\<lparr>threads := threads b @ replicate (length (filter create [i..<i + n])) q\<rparr>)"
  using assms
proof (induction n arbitrary: i b)
  case (Suc n)
  have "[i..<i + Suc n] = i # [Suc i..<Suc i + n]" by (simp add: upt_conv_Cons)
  then show ?case using Suc by (cases "create i") (simp_all add: replicate_app_Cons_same)
qed simp

text \<open>The names of the blocks decide the index.\<close>

lemma stages_ok_cong:
  assumes "stages_ok qs t S" and "\<And>q. q \<in> S \<Longrightarrow> name_of qs' q = name_of qs q"
  shows "stages_ok qs' t S"
proof -
  have "tree_index (\<lambda>q. name_key (name_of qs q)) t S" using assms(1) by (simp add: stages_ok_def)
  then have "tree_index (\<lambda>q. name_key (name_of qs' q)) t S" by (rule rb.rep_key) (simp add: assms(2))
  then show ?thesis using assms by (simp add: stages_ok_def)
qed

section \<open>One module\<close>

lemma core_simps [simp]:
  "core (on_core f b) = f (core b)" "stage_tree (on_core f b) = stage_tree b" "threads (on_core f b) = threads b" "mods (on_core f b) = mods b"
  "initialized_thread_num (on_core f b) = initialized_thread_num b" "pipeline_working_threads (on_core f b) = pipeline_working_threads b"
  by (simp_all add: on_core_def)

lemma put_simps [simp]:
  "rqcbs (put_rqcb x c s) = (rqcbs s)(x \<mapsto> c)" "pcbs (put_rqcb x c s) = pcbs s" "pcbs (put_pcb p d s) = (pcbs s)(p \<mapsto> d)" "rqcbs (put_pcb p d s) = rqcbs s"
  by (simp_all add: put_rqcb_def put_pcb_def)

text \<open>All calls succeed, and the blocks for the modules from number \<open>k\<close> on are \<open>xs\<close>.\<close>

definition gives_blocks :: "boot_env \<Rightarrow> nat \<Rightarrow> nat list \<Rightarrow> bool" where
  "gives_blocks e k xs \<longleftrightarrow> (\<forall>j. pcb_mem e j \<and> sync_ok e j \<and> (\<forall>i. thread_mem e j i)) \<and> (\<forall>j. Suc j < length xs \<longrightarrow> next_rqcb_mem e (k + j) = Some (xs ! Suc j))"

lemma gives_blocks_tl: "gives_blocks e k (x # xs) \<Longrightarrow> gives_blocks e (Suc k) xs"
  by (auto simp: gives_blocks_def)

text \<open>The states a module goes through: its name and the index, the block of its pipeline, the block of the next module, and its own block.\<close>

lemma named_block:
  assumes "stages_ok (rqcbs (core b)) (stage_tree b) S" and "x \<notin> S" and "tree_cell (stage_tree b) x" and "NUL \<notin> set (mc_name m)"
    and "name_key (mc_name m) \<notin> (\<lambda>q. name_key (name_of (rqcbs (core b)) q)) ` S"
  defines "qs \<equiv> (rqcbs (core b))(x \<mapsto> zero_rqcb\<lparr>mod_name := take (MAX_MOD_NAME_LEN - 1) (mc_name m)\<rparr>)"
  shows "\<exists>t. stage_add x qs (stage_tree b) = Some (STAGE_ADD_OK, t) \<and> stages_ok qs t (insert x S) \<and> (\<forall>a. tree_cell t a = tree_cell (stage_tree b) a)"
proof -
  have nm: "name_of qs x = take (MAX_MOD_NAME_LEN - 1) (mc_name m)" by (simp add: qs_def name_of_def)
  have other: "name_of qs q = name_of (rqcbs (core b)) q" if "q \<in> S" for q using that assms(2) by (auto simp: qs_def name_of_def)
  have "stages_ok qs (stage_tree b) S" using assms(1) other by (rule stages_ok_cong)
  moreover have "NUL \<notin> set (name_of qs x)" unfolding nm using assms(4) by (auto dest: in_set_takeD)
  moreover have "name_key (name_of qs x) \<notin> (\<lambda>q. name_key (name_of qs q)) ` S" unfolding nm name_key_take using assms(5) other by (auto simp: image_iff)
  ultimately show ?thesis using assms(3) by (intro stage_add_ok)
qed

lemma pcb_block_ok:
  assumes "gives_blocks e k xs"
  shows "pcb_block e k p x b = Some (if pcbs (core b) (unat p) = None
    then on_core (put_pcb (unat p) (zero_pcb\<lparr>first_rqcbp := Some x, pipeline_id := p\<rparr>)) b else b)"
  using assms by (simp add: pcb_block_def gives_blocks_def)

text \<open>The block of the next module leaves everything else, but for the queue number of this module.\<close>

lemma next_block_ok:
  assumes "gives_blocks e k (x # xs)" and "length xs = length ms" and "ms \<noteq> [] \<longrightarrow> hd xs \<noteq> x" and "rqcbs (core b) x = Some c"
    and "stages_ok (rqcbs (core b)) (stage_tree b) S" and "ms \<noteq> [] \<longrightarrow> hd xs \<notin> S"
  shows "\<exists>qid' b' c'. next_block e k (mc_pipeline_id m) ms x qid b =
      (Some (if ms = [] then None else Some (hd xs), if ms \<noteq> [] \<and> mc_pipeline_id (hd ms) = mc_pipeline_id m then Some (hd xs) else None, qid'), b')
    \<and> pcbs (core b') = pcbs (core b) \<and> threads b' = threads b \<and> initialized_thread_num b' = initialized_thread_num b
    \<and> rqcbs (core b') x = Some c' \<and> mod_name c' = mod_name c \<and> (\<forall>a. a \<noteq> x \<longrightarrow> (ms = [] \<or> a \<noteq> hd xs) \<longrightarrow> rqcbs (core b') a = rqcbs (core b) a)
    \<and> (ms \<noteq> [] \<longrightarrow> rqcbs (core b') (hd xs) = Some zero_rqcb \<and> tree_cell (stage_tree b') (hd xs))
    \<and> stages_ok (rqcbs (core b')) (stage_tree b') S"
proof (cases ms)
  case Nil
  then show ?thesis using assms by (auto simp: next_block_def)
next
  case (Cons m' ms')
  then obtain nx xs' where xs: "xs = nx # xs'" using assms(2) by (cases xs) auto
  have nx: "next_rqcb_mem e k = Some nx" "nx \<noteq> x" "nx \<notin> S" using assms(1,3,6) xs Cons by (auto simp: gives_blocks_def)
  let ?b = "new_rqcb nx b"
  let ?b2 = "if mc_pipeline_id m' = mc_pipeline_id m then on_core (\<lambda>s. s\<lparr>rqcbs := (rqcbs s)(x := map_option (\<lambda>c. c\<lparr>queue_id := qid\<rparr>) (rqcbs s x))\<rparr>) ?b else ?b"
  let ?c = "if mc_pipeline_id m' = mc_pipeline_id m then c\<lparr>queue_id := qid\<rparr> else c"
  have q: "rqcbs (core ?b2) = (rqcbs (core b))(nx \<mapsto> zero_rqcb, x \<mapsto> ?c)" using assms(4) nx(2)
    by (auto simp: new_rqcb_def put_rqcb_def on_core_def fun_eq_iff)
  have t: "stage_tree ?b2 = (stage_tree b)\<lparr>entries := (entries (stage_tree b))(nx \<mapsto> \<lparr>rbe_left = None, rbe_right = None, rbe_parent = None, rbe_color = RB_BLACK\<rparr>)\<rparr>"
    by (simp add: new_rqcb_def on_core_def)
  have "stages_ok (rqcbs (core ?b2)) (stage_tree b) S" using assms(5)
  proof (rule stages_ok_cong)
    fix a
    assume "a \<in> S"
    then show "name_of (rqcbs (core ?b2)) a = name_of (rqcbs (core b)) a" unfolding q using assms(4) nx(3) by (auto simp: name_of_def)
  qed
  then have st: "stages_ok (rqcbs (core ?b2)) (stage_tree ?b2) S" unfolding t using tree_index_alloc nx(3) by (auto simp: stages_ok_def)
  have "next_block e k (mc_pipeline_id m) ms x qid b =
      (Some (Some nx, if mc_pipeline_id m' = mc_pipeline_id m then Some nx else None, if mc_pipeline_id m' = mc_pipeline_id m then qid + 1 else 0), ?b2)"
    using Cons nx(1) by (simp add: next_block_def)
  moreover have "pcbs (core ?b2) = pcbs (core b)" "threads ?b2 = threads b" "initialized_thread_num ?b2 = initialized_thread_num b"
    by (simp_all add: new_rqcb_def put_rqcb_def on_core_def)
  moreover have "tree_cell (stage_tree ?b2) nx" unfolding t by (simp add: tree_cell_def)
  ultimately show ?thesis using q st nx(2) Cons xs by (intro exI [of _ "if mc_pipeline_id m' = mc_pipeline_id m then qid + 1 else 0"] exI [of _ ?b2] exI [of _ ?c]) simp
qed

text \<open>What one round of the loop leaves: the block of the module \<open>m\<close> at \<open>x\<close>, linked to the next when that is of the same pipeline.\<close>

definition round_done :: "boot_env \<Rightarrow> nat \<Rightarrow> nat \<Rightarrow> mod_config \<Rightarrow> nat list \<Rightarrow> mod_config list \<Rightarrow> nat set \<Rightarrow> boot \<Rightarrow> boot \<Rightarrow> bool" where
  "round_done e k x m xs ms S b b' \<longleftrightarrow>
     (\<exists>c. rqcbs (core b') x = Some c \<and> block_ok m c
        \<and> next_rqcb c = (if ms \<noteq> [] \<and> mc_pipeline_id (hd ms) = mc_pipeline_id m then Some (hd xs) else None))
     \<and> (\<forall>a. a \<noteq> x \<longrightarrow> (ms = [] \<or> a \<noteq> hd xs) \<longrightarrow> rqcbs (core b') a = rqcbs (core b) a)
     \<and> (ms \<noteq> [] \<longrightarrow> rqcbs (core b') (hd xs) = Some zero_rqcb \<and> tree_cell (stage_tree b') (hd xs))
     \<and> (\<exists>c. first_rqcbp c = Some x \<and>
          pcbs (core b') = (if pcbs (core b) (unat (mc_pipeline_id m)) = None then (pcbs (core b))(unat (mc_pipeline_id m) \<mapsto> c) else pcbs (core b)))
     \<and> stages_ok (rqcbs (core b')) (stage_tree b') (insert x S)
     \<and> threads b' = threads b @ replicate (length (filter (create_ok e k) [0..<nat (mc_thread_num m)])) x
     \<and> initialized_thread_num b' = initialized_thread_num b"

lemma mod_round:
  assumes env: "gives_blocks e k (x # xs)" and len: "length xs = length ms" and fresh: "ms \<noteq> [] \<longrightarrow> hd xs \<noteq> x \<and> hd xs \<notin> S" and x: "x \<notin> S"
    and blk: "rqcbs (core b) x = Some zero_rqcb" "tree_cell (stage_tree b) x" and st: "stages_ok (rqcbs (core b)) (stage_tree b) S"
    and nm: "NUL \<notin> set (mc_name m)" "name_key (mc_name m) \<notin> (\<lambda>q. name_key (name_of (rqcbs (core b)) q)) ` S" and p: "unat (mc_pipeline_id m) < PIPELINE_SIZE"
  shows "\<exists>qid' b'. mod_loop e k (Some x) qid all (m # ms) b = mod_loop e (Suc k) (if ms = [] then None else Some (hd xs)) qid' (all + word_of_int (mc_thread_num m)) ms b'
    \<and> round_done e k x m xs ms S b b'"
proof -
  let ?c1 = "zero_rqcb\<lparr>mod_name := take (MAX_MOD_NAME_LEN - 1) (mc_name m)\<rparr>"
  let ?q1 = "(rqcbs (core b))(x \<mapsto> ?c1)"
  let ?p = "unat (mc_pipeline_id m)"
  obtain t where t: "stage_add x ?q1 (stage_tree b) = Some (STAGE_ADD_OK, t)" "stages_ok ?q1 t (insert x S)"
    using named_block [OF st x blk(2) nm] by blast
  let ?b2 = "(on_core (put_rqcb x ?c1) b)\<lparr>stage_tree := t\<rparr>"
  let ?pc = "zero_pcb\<lparr>first_rqcbp := Some x, pipeline_id := mc_pipeline_id m\<rparr>"
  let ?b3 = "if pcbs (core b) ?p = None then on_core (put_pcb ?p ?pc) ?b2 else ?b2"
  have b2: "rqcbs (core ?b2) = ?q1" "pcbs (core ?b2) = pcbs (core b)" "threads ?b2 = threads b" "initialized_thread_num ?b2 = initialized_thread_num b"
    by (simp_all add: put_rqcb_def on_core_def)
  have b3: "rqcbs (core ?b3) = ?q1" "pcbs (core ?b3) = (if pcbs (core b) ?p = None then (pcbs (core b))(?p \<mapsto> ?pc) else pcbs (core b))"
    "stage_tree ?b3 = t" "threads ?b3 = threads b" "initialized_thread_num ?b3 = initialized_thread_num b"
    by (simp_all add: put_rqcb_def put_pcb_def on_core_def)
  have pcb: "pcb_block e k (mc_pipeline_id m) x ?b2 = Some ?b3" using pcb_block_ok [OF env] b2(2) by simp
  obtain na nxp where na: "na = (if ms \<noteq> [] \<and> mc_pipeline_id (hd ms) = mc_pipeline_id m then Some (hd xs) else None)"
    and nxp: "nxp = (if ms = [] then None else Some (hd xs))" by blast
  obtain qid' b4 c4 where n4: "next_block e k (mc_pipeline_id m) ms x qid ?b3 = (Some (nxp, na, qid'), b4)"
    "pcbs (core b4) = pcbs (core ?b3)" "threads b4 = threads ?b3" "initialized_thread_num b4 = initialized_thread_num ?b3"
    "rqcbs (core b4) x = Some c4" "mod_name c4 = mod_name ?c1" "\<forall>a. a \<noteq> x \<longrightarrow> (ms = [] \<or> a \<noteq> hd xs) \<longrightarrow> rqcbs (core b4) a = rqcbs (core ?b3) a"
    "ms \<noteq> [] \<longrightarrow> rqcbs (core b4) (hd xs) = Some zero_rqcb \<and> tree_cell (stage_tree b4) (hd xs)" "stages_ok (rqcbs (core b4)) (stage_tree b4) (insert x S)"
    using next_block_ok [OF env len, of ?b3 ?c1 "insert x S" m qid, folded na nxp] fresh b3(1,3) t(2) by auto
  obtain c5 where c5: "request_queue_init True na (mc_delay m) (mc_request_init m) (mc_request_deinit m) (mc_request_handler m) c4 = (CSF_OK, c5)"
    "block_ok m c5" "next_rqcb c5 = na" "mod_name c5 = mod_name c4" using n4(6) by (simp add: block_ok_def request_queue_init_def)
  let ?b5 = "on_core (put_rqcb x c5) b4"
  let ?b6 = "?b5\<lparr>threads := threads ?b5 @ replicate (length (filter (create_ok e k) [0..<nat (mc_thread_num m)])) x, mods := ms\<rparr>"
  have q6: "rqcbs (core ?b6) = (rqcbs (core b4))(x \<mapsto> c5)" by (simp add: on_core_def put_rqcb_def)
  have "stages_ok (rqcbs (core ?b6)) (stage_tree b4) (insert x S)" using n4(9)
    by (rule stages_ok_cong) (use q6 c5(4) n4(5) in \<open>auto simp: name_of_def\<close>)
  then have 1: "stages_ok (rqcbs (core ?b6)) (stage_tree ?b6) (insert x S)" by (simp add: on_core_def)
  have 2: "pcbs (core ?b6) = (if pcbs (core b) ?p = None then (pcbs (core b))(?p \<mapsto> ?pc) else pcbs (core b))" using n4(2) b3(2) by simp
  have 3: "threads ?b6 = threads b @ replicate (length (filter (create_ok e k) [0..<nat (mc_thread_num m)])) x" "initialized_thread_num ?b6 = initialized_thread_num b"
    using n4(3,4) b3(4,5) by simp_all
  have 4: "rqcbs (core ?b6) x = Some c5" using q6 by simp
  have 5: "\<forall>a. a \<noteq> x \<longrightarrow> (ms = [] \<or> a \<noteq> hd xs) \<longrightarrow> rqcbs (core ?b6) a = rqcbs (core b) a" using q6 n4(7) b3(1) by simp
  have 6: "ms \<noteq> [] \<longrightarrow> rqcbs (core ?b6) (hd xs) = Some zero_rqcb \<and> tree_cell (stage_tree ?b6) (hd xs)" using q6 n4(8) fresh by simp
  have 7: "first_rqcbp ?pc = Some x" by simp
  have "round_done e k x m xs ms S b ?b6" unfolding round_done_def na [symmetric]
    by (intro conjI exI [of _ c5] exI [of _ ?pc]) (fact 4 c5(2,3) 5 6 7 2 1 3)+
  moreover have "mod_loop e k (Some x) qid all (m # ms) b = mod_loop e (Suc k) nxp qid' (all + word_of_int (mc_thread_num m)) ms ?b6"
    using blk(1) t(1) p pcb n4(1,5) c5(1) env thread_pool_init_ok [of "thread_mem e k" "create_ok e k" x 0]
    by (simp add: gives_blocks_def STAGE_ADD_OK_def STAGE_ADD_ERR_def)
  ultimately show ?thesis unfolding nxp by blast
qed

section \<open>All modules\<close>

lemma last_of_pipeline:
  assumes "sorted (map mc_pipeline_id (map snd D @ m # ms))" and "of_pipeline (unat (mc_pipeline_id m)) D \<noteq> []"
  shows "D \<noteq> [] \<and> mc_pipeline_id (snd (last D)) = mc_pipeline_id m"
proof -
  obtain a m' where am: "(a, m') \<in> set D" "mc_pipeline_id m' = mc_pipeline_id m" using assms(2) by (auto simp: of_pipeline_def filter_empty_conv dest: unsigned_word_eqI)
  then obtain E y where D: "D = E @ [y]" by (cases D rule: rev_cases) auto
  then have "mc_pipeline_id m' \<le> mc_pipeline_id (snd y)" "mc_pipeline_id (snd y) \<le> mc_pipeline_id m"
    using assms(1) am(1) by (auto simp: sorted_append)
  then show ?thesis using am(2) D by simp
qed

lemma chains_step:
  assumes ch: "pipe_chains (core b) D (open_end D (x # xs) (m # ms))" and r: "round_done e k x m xs ms S b b'"
    and srt: "sorted (map mc_pipeline_id (map snd D @ m # ms))" and x: "x \<notin> fst ` set D" and nx: "ms \<noteq> [] \<longrightarrow> hd xs \<notin> fst ` set D"
  shows "pipe_chains (core b') (D @ [(x, m)]) (open_end (D @ [(x, m)]) xs ms)"
  unfolding pipe_chains_def
proof
  fix p
  let ?q = "unat (mc_pipeline_id m)"
  have keep: "rqcbs (core b') a = rqcbs (core b) a" if "a \<in> fst ` set D" for a using r that x nx unfolding round_done_def by metis
  have seg: "lseg (rqcbs (core b')) f (of_pipeline p D) z = lseg (rqcbs (core b)) f (of_pipeline p D) z" for f z
    using keep of_pipeline_subset [of p D] by (intro lseg_cong) (simp add: subset_iff)
  obtain c pc where c: "rqcbs (core b') x = Some c" "next_rqcb c = (if ms \<noteq> [] \<and> mc_pipeline_id (hd ms) = mc_pipeline_id m then Some (hd xs) else None)"
    and pc: "first_rqcbp pc = Some x" "pcbs (core b') = (if pcbs (core b) ?q = None then (pcbs (core b))(?q \<mapsto> pc) else pcbs (core b))"
    using r unfolding round_done_def by blast
  have ch_p: "case pcbs (core b) p of None \<Rightarrow> of_pipeline p D = []
    | Some c \<Rightarrow> of_pipeline p D \<noteq> [] \<and> lseg (rqcbs (core b)) (first_rqcbp c) (of_pipeline p D) (open_end D (x # xs) (m # ms) p)" using ch unfolding pipe_chains_def by blast
  show "case pcbs (core b') p of None \<Rightarrow> of_pipeline p (D @ [(x, m)]) = []
    | Some c \<Rightarrow> of_pipeline p (D @ [(x, m)]) \<noteq> [] \<and> lseg (rqcbs (core b')) (first_rqcbp c) (of_pipeline p (D @ [(x, m)])) (open_end (D @ [(x, m)]) xs ms p)"
  proof (cases "p = ?q")
    case True
    have e: "open_end (D @ [(x, m)]) xs ms p = next_rqcb c" using c(2) True by (auto simp: open_end_def dest: unsigned_word_eqI)
    show ?thesis
    proof (cases "pcbs (core b) p")
      case None
      then show ?thesis using ch_p pc c(1) e True by simp
    next
      case (Some d)
      then have "open_end D (x # xs) (m # ms) p = Some x" using last_of_pipeline [OF srt] ch_p True by (simp add: open_end_def)
      then show ?thesis using ch_p Some pc c(1) e True seg by simp
    qed
  next
    case False
    then have "pcbs (core b') p = pcbs (core b) p" "open_end D (x # xs) (m # ms) p = None" "open_end (D @ [(x, m)]) xs ms p = None"
      using pc(2) by (auto simp: open_end_def)
    then show ?thesis using ch_p seg False by (simp split: option.splits)
  qed
qed

lemma loop_step:
  assumes inv: "loop_inv D (x # xs) (m # ms) b" and r: "round_done e k x m xs ms (fst ` set D) b b'"
    and srt: "sorted (map mc_pipeline_id (map snd D @ m # ms))" and x: "x \<notin> fst ` set D" and nx: "ms \<noteq> [] \<longrightarrow> hd xs \<notin> fst ` set D"
  shows "loop_inv (D @ [(x, m)]) xs ms b'"
proof -
  have "pipe_chains (core b') (D @ [(x, m)]) (open_end (D @ [(x, m)]) xs ms)" using chains_step [OF _ r srt x nx] inv by (simp add: loop_inv_def)
  moreover have "rqcbs (core b') a = rqcbs (core b) a" if "a \<in> fst ` set D" for a using r that x nx unfolding round_done_def by metis
  then have "\<forall>(a, m) \<in> set (D @ [(x, m)]). \<exists>c. rqcbs (core b') a = Some c \<and> block_ok m c"
    using inv r unfolding loop_inv_def round_done_def by force
  moreover have "fst ` set (D @ [(x, m)]) = insert x (fst ` set D)" by auto
  ultimately show ?thesis using r unfolding loop_inv_def round_done_def by simp
qed

text \<open>What the modules have to be for the start to succeed: grouped, and with different names.\<close>

definition modules_ok :: "mod_config list \<Rightarrow> bool" where
  "modules_ok ms \<longleftrightarrow> grouped ms \<and> distinct (map (name_key \<circ> mc_name) ms) \<and> (\<forall>m \<in> set ms. NUL \<notin> set (mc_name m))"

definition thread_sum :: "mod_config list \<Rightarrow> u32" where
  "thread_sum ms = word_of_int (\<Sum>m \<leftarrow> ms. mc_thread_num m)"

lemma thread_sum_simps [simp]: "thread_sum [] = 0" "thread_sum (m # ms) = word_of_int (mc_thread_num m) + thread_sum ms"
  by (simp_all add: thread_sum_def)

lemma done_names:
  assumes "loop_inv D xs ms b" and "modules_ok (map snd D @ m # ms')"
  shows "name_key (mc_name m) \<notin> (\<lambda>q. name_key (name_of (rqcbs (core b)) q)) ` fst ` set D"
proof
  assume "name_key (mc_name m) \<in> (\<lambda>q. name_key (name_of (rqcbs (core b)) q)) ` fst ` set D"
  then obtain a m' where a: "(a, m') \<in> set D" "name_key (mc_name m) = name_key (name_of (rqcbs (core b)) a)" by auto
  then obtain c where "rqcbs (core b) a = Some c" "block_ok m' c" using assms(1) unfolding loop_inv_def by blast
  then have "name_key (mc_name m) = name_key (mc_name m')" using a(2) name_key_take [of "mc_name m'"] by (simp add: name_of_def block_ok_def)
  moreover have "m' \<in> set (map snd D)" using a(1) by force
  ultimately show False using assms(2) by (auto simp: modules_ok_def)
qed

lemma mod_loop_ok:
  assumes "loop_inv D xs ms b" and "gives_blocks e k xs" and "length xs = length ms" and "distinct (map fst D @ xs)" and "modules_ok (map snd D @ ms)"
  shows "\<exists>b'. mod_loop e k (if ms = [] then None else Some (hd xs)) qid all ms b = Some (Inr (all + thread_sum ms), b')
    \<and> loop_inv (D @ zip xs ms) [] [] b' \<and> threads b' = threads b @ made_threads e k (zip xs ms) \<and> initialized_thread_num b' = initialized_thread_num b"
  using assms
proof (induction ms arbitrary: D xs b k qid all)
  case Nil
  then show ?case by simp
next
  case (Cons m ms)
  then obtain x xs' where xs: "xs = x # xs'" by (cases xs) auto
  have d: "x \<notin> fst ` set D" "x \<notin> set xs'" "fst ` set D \<inter> set xs' = {}" "length xs' = length ms" using Cons.prems(3,4) xs by auto
  then have "ms \<noteq> [] \<longrightarrow> hd xs' \<in> set xs'" by (cases xs') auto
  then have x: "x \<notin> fst ` set D" "ms \<noteq> [] \<longrightarrow> hd xs' \<noteq> x \<and> hd xs' \<notin> fst ` set D" "length xs' = length ms" using d by blast+
  have blk: "rqcbs (core b) x = Some zero_rqcb" "tree_cell (stage_tree b) x" "stages_ok (rqcbs (core b)) (stage_tree b) (fst ` set D)"
    using Cons.prems(1) xs by (simp_all add: loop_inv_def)
  have m: "NUL \<notin> set (mc_name m)" "unat (mc_pipeline_id m) < PIPELINE_SIZE" "sorted (map mc_pipeline_id (map snd D @ m # ms))"
    using Cons.prems(5) by (auto simp: modules_ok_def grouped_def)
  obtain qid' b1 where r: "mod_loop e k (Some x) qid all (m # ms) b =
      mod_loop e (Suc k) (if ms = [] then None else Some (hd xs')) qid' (all + word_of_int (mc_thread_num m)) ms b1" "round_done e k x m xs' ms (fst ` set D) b b1"
    using mod_round [OF Cons.prems(2) [unfolded xs] x(3,2,1) blk m(1) done_names [OF Cons.prems(1,5)] m(2)] by blast
  have inv: "loop_inv (D @ [(x, m)]) xs' ms b1" using loop_step [OF Cons.prems(1) [unfolded xs] r(2) m(3) x(1)] x(2) by simp
  obtain b' where b': "mod_loop e (Suc k) (if ms = [] then None else Some (hd xs')) qid' (all + word_of_int (mc_thread_num m)) ms b1 =
      Some (Inr (all + word_of_int (mc_thread_num m) + thread_sum ms), b')" "loop_inv ((D @ [(x, m)]) @ zip xs' ms) [] [] b'"
    "threads b' = threads b1 @ made_threads e (Suc k) (zip xs' ms)" "initialized_thread_num b' = initialized_thread_num b1"
    using Cons.IH [OF inv gives_blocks_tl [OF Cons.prems(2) [unfolded xs]] x(3)] Cons.prems(4,5) xs by fastforce
  then show ?case using r xs by (simp add: round_done_def add.assoc)
qed

section \<open>The threads\<close>

text \<open>Every thread counts itself; nothing but the thread counters of the queues changes.\<close>

lemma threads_start_ok:
  assumes "\<forall>f. rinit f = PIPELINE_SUCCESS" and "\<forall>q \<in> set ts. rqcbs (core b) q \<noteq> None"
  shows "\<exists>b'. threads_start rinit ts b = Some (Some b') \<and> initialized_thread_num b' = initialized_thread_num b + of_nat (length ts)
    \<and> stage_tree b' = stage_tree b \<and> pcbs (core b') = pcbs (core b)
    \<and> (\<forall>q. rqcbs (core b') q = map_option (\<lambda>c. c\<lparr>thread_num := thread_num c + of_nat (count_list ts q)\<rparr>) (rqcbs (core b) q))"
  using assms(2)
proof (induction ts arbitrary: b)
  case Nil
  have "map_option (\<lambda>c :: rqcb. c\<lparr>thread_num := thread_num c\<rparr>) r = r" for r by (cases r) simp_all
  then show ?case by simp
next
  case (Cons t ts)
  then obtain c where c: "rqcbs (core b) t = Some c" by auto
  let ?b = "(on_core (put_rqcb t (c\<lparr>thread_num := thread_num c + 1\<rparr>)) (b\<lparr>pipeline_working_threads := pipeline_working_threads b + 1\<rparr>))
    \<lparr>initialized_thread_num := initialized_thread_num b + 1\<rparr>"
  have w: "worker_thread_init rinit t b = Some (Some ?b)" using c assms(1) by (simp add: worker_thread_init_def split: option.split)
  have "\<forall>q \<in> set ts. rqcbs (core ?b) q \<noteq> None" using Cons.prems by auto
  from Cons.IH [OF this] obtain b' where b': "threads_start rinit ts ?b = Some (Some b')" "initialized_thread_num b' = initialized_thread_num ?b + of_nat (length ts)"
    "stage_tree b' = stage_tree ?b" "pcbs (core b') = pcbs (core ?b)"
    "\<forall>q. rqcbs (core b') q = map_option (\<lambda>c. c\<lparr>thread_num := thread_num c + of_nat (count_list ts q)\<rparr>) (rqcbs (core ?b) q)" by blast
  then show ?case using w c by (intro exI [of _ b']) (auto simp: algebra_simps)
qed

lemma made_threads_set: "set (made_threads e k D) \<subseteq> fst ` set D"
  by (induction e k D rule: made_threads.induct) auto

text \<open>Every thread of the modules from number \<open>k\<close> on can be created.\<close>

definition all_created :: "boot_env \<Rightarrow> nat \<Rightarrow> mod_config list \<Rightarrow> bool" where
  "all_created e k ms \<longleftrightarrow> (\<forall>j < length ms. \<forall>i < nat (mc_thread_num (ms ! j)). create_ok e (k + j) i)"

lemma all_created_Cons [simp]:
  "all_created e k (m # ms) \<longleftrightarrow> (\<forall>i < nat (mc_thread_num m). create_ok e k i) \<and> all_created e (Suc k) ms"
  by (auto simp: all_created_def nth_Cons split: nat.split)

lemma filter_upt_length: "length (filter P [0..<n]) \<le> n" "length (filter P [0..<n]) = n \<longleftrightarrow> (\<forall>i < n. P i)"
proof -
  show "length (filter P [0..<n]) \<le> n" using length_filter_le [of P "[0..<n]"] by simp
  show "length (filter P [0..<n]) = n \<longleftrightarrow> (\<forall>i < n. P i)" using length_filter_less [of _ "[0..<n]" P] filter_True [of "[0..<n]" P] by fastforce
qed

lemma made_threads_length:
  assumes "length xs = length ms"
  shows "length (made_threads e k (zip xs ms)) \<le> (\<Sum>m \<leftarrow> ms. nat (mc_thread_num m))
    \<and> (length (made_threads e k (zip xs ms)) = (\<Sum>m \<leftarrow> ms. nat (mc_thread_num m)) \<longleftrightarrow> all_created e k ms)"
  using assms
proof (induction xs ms arbitrary: k rule: list_induct2)
  case (Cons x xs m ms)
  show ?case using Cons.IH [of "Suc k"] filter_upt_length [of "create_ok e k" "nat (mc_thread_num m)"] by auto
qed (simp add: all_created_def)

lemma count_replicate: "count_list (replicate n x) y = (if x = y then n else 0)"
  by (induction n) auto

lemma made_threads_count:
  assumes "length xs = length ms" and "distinct xs" and "all_created e k ms" and "j < length ms"
  shows "count_list (made_threads e k (zip xs ms)) (xs ! j) = nat (mc_thread_num (ms ! j))"
  using assms
proof (induction xs ms arbitrary: k j rule: list_induct2)
  case (Cons x xs m ms)
  have "count_list (made_threads e (Suc k) (zip xs ms)) x = 0" using made_threads_set [of e "Suc k" "zip xs ms"] Cons.prems(1)
    by (force simp: count_list_0_iff dest: set_zip_leftD)
  moreover have "xs ! i \<noteq> x" if "i < length ms" for i using that Cons.prems(1) Cons.hyps by (auto simp: in_set_conv_nth)
  ultimately show ?case using Cons.IH [of "Suc k"] Cons.prems filter_upt_length(2) [of "create_ok e k" "nat (mc_thread_num m)"]
    by (cases j) (auto simp: count_replicate)
qed simp

section \<open>The start\<close>

text \<open>A start where everything but the creation of threads succeeds; \<open>xs\<close> are the control blocks of the modules.\<close>

definition boots :: "boot_env \<Rightarrow> (nat \<Rightarrow> int) \<Rightarrow> int \<Rightarrow> nat list \<Rightarrow> boot \<Rightarrow> bool" where
  "boots e rinit queue_size xs b \<longleftrightarrow> mods b \<noteq> [] \<and> modules_ok (mods b) \<and> 0 \<le> queue_size \<and> queue_size < MAX_PIPELINE_QUEUE_SIZE
     \<and> length xs = length (mods b) \<and> distinct xs \<and> first_rqcb e = Some (hd xs) \<and> gives_blocks e 0 xs \<and> stage_mem e \<and> global_sync_ok e \<and> done_sync_ok e
     \<and> (\<forall>f. rinit f = PIPELINE_SUCCESS) \<and> initialized_thread_num b = 0
     \<and> (\<forall>m \<in> set (mods b). 0 \<le> mc_thread_num m) \<and> (\<Sum>m \<leftarrow> mods b. mc_thread_num m) < 2 ^ 32"

lemma boot_start:
  assumes "boots e rinit queue_size xs b"
  shows "\<exists>b1. pipeline_init e rinit queue_size timeout b = (case threads_start rinit (threads b1) b1 of
      Some (Some b2) \<Rightarrow> if thread_sum (mods b) \<noteq> initialized_thread_num b2 then Some (Hangs, b2)
        else Some (Ret PIPELINE_INIT_OK, (on_core (\<lambda>s. s\<lparr>done_rqcb := snd (request_queue_init True None 0 None None None (done_rqcb (core b2)))\<rparr>) b2)\<lparr>pipeline_initialized := True\<rparr>)
    | Some None \<Rightarrow> Some (Exits, b1) | None \<Rightarrow> None)
    \<and> loop_inv (zip xs (mods b)) [] [] b1 \<and> threads b1 = made_threads e 0 (zip xs (mods b)) \<and> initialized_thread_num b1 = 0"
proof -
  let ?b0 = "(on_core (\<lambda>s. s\<lparr>request_timeout := timeout, pcbs := Map.empty, apq := []\<rparr>) b)\<lparr>pipeline_initialized := False\<rparr>"
  let ?b1 = "(on_core (\<lambda>s. s\<lparr>pipeline_queue_size := word_of_int queue_size\<rparr>) ?b0)\<lparr>threads := []\<rparr>"
  let ?b2 = "?b1\<lparr>stage_tree := RB_INIT (stage_tree ?b1)\<rparr>"
  let ?b3 = "new_rqcb (hd xs) ?b2"
  have "tree_index k (stage_tree ?b3) {}" for k :: "nat \<Rightarrow> nat list"
    unfolding tree_index_def by (rule exI [of _ Lf]) (simp add: tree_at_def red_black_def RB_INIT_def new_rqcb_def on_core_def)
  then have inv: "loop_inv [] xs (mods b) ?b3"
    by (simp add: loop_inv_def pipe_chains_def stages_ok_def new_rqcb_def on_core_def put_rqcb_def tree_cell_def)
  have ok: "mods b \<noteq> []" "modules_ok (mods b)" "length xs = length (mods b)" "distinct xs" "gives_blocks e 0 xs" using assms by (simp_all add: boots_def)
  obtain b1 where b1: "mod_loop e 0 (Some (hd xs)) 0 0 (mods b) ?b3 = Some (Inr (thread_sum (mods b)), b1)" "loop_inv (zip xs (mods b)) [] [] b1"
    "threads b1 = threads ?b3 @ made_threads e 0 (zip xs (mods b))" "initialized_thread_num b1 = initialized_thread_num ?b3"
    using mod_loop_ok [OF inv ok(5,3), of 0 0] ok(1,2,4) by fastforce
  have b3: "threads ?b3 = []" "initialized_thread_num ?b3 = 0" "mods ?b0 = mods b" using assms by (simp_all add: new_rqcb_def on_core_def boots_def)
  have "pipeline_init e rinit queue_size timeout b = (case threads_start rinit (threads b1) b1 of
      Some (Some b2) \<Rightarrow> if thread_sum (mods b) \<noteq> initialized_thread_num b2 then Some (Hangs, b2)
        else Some (Ret PIPELINE_INIT_OK, (on_core (\<lambda>s. s\<lparr>done_rqcb := snd (request_queue_init True None 0 None None None (done_rqcb (core b2)))\<rparr>) b2)\<lparr>pipeline_initialized := True\<rparr>)
    | Some None \<Rightarrow> Some (Exits, b1) | None \<Rightarrow> None)"
    unfolding pipeline_init_def Let_def
    using assms b1(1) b3(3) by (simp add: boots_def stage_init_def request_queue_init_def split: option.splits)
  then show ?thesis using b1(2-4) b3(1,2) by (intro exI [of _ b1]) simp
qed

text \<open>The chains of a complete start, and the signals that reach them.\<close>

lemma chains_closed:
  assumes "pipe_chains s D (open_end D [] [])" and "pcbs s p = Some c"
  shows "of_pipeline p D \<noteq> [] \<and> queue_chain (rqcbs s) (first_rqcbp c) = Some (of_pipeline p D)"
proof -
  have "of_pipeline p D \<noteq> [] \<and> lseg (rqcbs s) (first_rqcbp c) (of_pipeline p D) None"
    using spec [OF assms(1) [unfolded pipe_chains_def], of p] assms(2) by (simp add: open_end_def)
  then show ?thesis using queue_chain_lseg by blast
qed

lemma broadcast_chains:
  assumes "pipe_chains s D (open_end D [] [])"
  shows "broadcast_loop ps s = Some (concat (map (\<lambda>p. of_pipeline p D) ps))"
proof (induction ps)
  case (Cons p ps)
  show ?case
  proof (cases "pcbs s p")
    case None
    then have "of_pipeline p D = []" using spec [OF assms [unfolded pipe_chains_def], of p] by simp
    then show ?thesis using None Cons by simp
  qed (use Cons chains_closed [OF assms, of p] in simp)
qed simp

lemma all_pipelines:
  assumes "length xs = length ms" and "grouped ms"
  shows "set (concat (map (\<lambda>p. of_pipeline p (zip xs ms)) [0..<PIPELINE_SIZE])) = set xs"
proof -
  have "set (concat (map (\<lambda>p. of_pipeline p (zip xs ms)) [0..<PIPELINE_SIZE])) = fst ` {y \<in> set (zip xs ms). unat (mc_pipeline_id (snd y)) < PIPELINE_SIZE}"
    by (force simp: of_pipeline_def)
  also have "{y \<in> set (zip xs ms). unat (mc_pipeline_id (snd y)) < PIPELINE_SIZE} = set (zip xs ms)"
    using assms(2) by (auto simp: grouped_def dest: set_zip_rightD)
  also have "fst ` set (zip xs ms) = set xs" using assms(1) by (metis map_fst_zip set_map)
  finally show ?thesis .
qed

text \<open>The threads add to the counters of the queues only.\<close>

lemma counted_inv:
  assumes "loop_inv D [] [] b" and "pcbs (core b') = pcbs (core b)" and "stage_tree b' = stage_tree b"
    and q: "\<forall>q. rqcbs (core b') q = map_option (\<lambda>c. c\<lparr>thread_num := thread_num c + f q\<rparr>) (rqcbs (core b) q)"
  shows "pipe_chains (core b') D (open_end D [] []) \<and> stages_ok (rqcbs (core b')) (stage_tree b') (fst ` set D)
    \<and> (\<forall>(a, m) \<in> set D. \<exists>c. rqcbs (core b') a = Some c \<and> block_ok m (c\<lparr>thread_num := 0\<rparr>) \<and> thread_num c = f a)"
proof (intro conjI)
  have "map_option next_rqcb (rqcbs (core b') x) = map_option next_rqcb (rqcbs (core b) x)" for x using q by (cases "rqcbs (core b) x") auto
  then have seg: "lseg (rqcbs (core b')) = lseg (rqcbs (core b))" by (intro ext lseg_cong)
  show "pipe_chains (core b') D (open_end D [] [])" using assms(1) unfolding loop_inv_def pipe_chains_def assms(2) seg by blast
  have "name_of (rqcbs (core b')) x = name_of (rqcbs (core b)) x" for x using q by (cases "rqcbs (core b) x") (auto simp: name_of_def)
  moreover have "stages_ok (rqcbs (core b)) (stage_tree b) (fst ` set D)" using assms(1) unfolding loop_inv_def by blast
  ultimately show "stages_ok (rqcbs (core b')) (stage_tree b') (fst ` set D)" unfolding assms(3) by (rule stages_ok_cong [rotated])
  show "\<forall>(a, m) \<in> set D. \<exists>c. rqcbs (core b') a = Some c \<and> block_ok m (c\<lparr>thread_num := 0\<rparr>) \<and> thread_num c = f a"
    using assms(1) q unfolding loop_inv_def block_ok_def by fastforce
qed


lemma thread_total: "\<forall>m \<in> set ms. 0 \<le> mc_thread_num m \<Longrightarrow> int (\<Sum>m \<leftarrow> ms. nat (mc_thread_num m)) = (\<Sum>m \<leftarrow> ms. mc_thread_num m)"
  by (induction ms) simp_all

text \<open>All threads count themselves exactly when all were created.\<close>

lemma thread_count:
  assumes "boots e rinit queue_size xs b"
  shows "thread_sum (mods b) = of_nat (length (made_threads e 0 (zip xs (mods b)))) \<longleftrightarrow> all_created e 0 (mods b)"
proof -
  let ?n = "\<Sum>m \<leftarrow> mods b. nat (mc_thread_num m)"
  let ?l = "length (made_threads e 0 (zip xs (mods b)))"
  have n: "int ?n = (\<Sum>m \<leftarrow> mods b. mc_thread_num m)" using assms by (intro thread_total) (simp add: boots_def)
  then have "?n < 2 ^ 32" using assms by (simp add: boots_def)
  moreover have l: "?l \<le> ?n" "?l = ?n \<longleftrightarrow> all_created e 0 (mods b)" using made_threads_length [of xs "mods b" e 0] assms by (simp_all add: boots_def)
  ultimately have "(of_nat ?n :: u32) = of_nat ?l \<longleftrightarrow> ?n = ?l" by (simp add: word_of_nat_eq_iff take_bit_nat_eq_self)
  moreover have "thread_sum (mods b) = of_nat ?n" unfolding thread_sum_def n [symmetric] by simp
  ultimately show ?thesis using l(2) by auto
qed

section \<open>The result\<close>

text \<open>The running system: the chains, the signals, the index and the control blocks.\<close>

definition running :: "nat list \<Rightarrow> mod_config list \<Rightarrow> boot \<Rightarrow> bool" where
  "running xs ms b \<longleftrightarrow> pipeline_initialized b \<and> request_head (done_rqcb (core b)) = []
     \<and> (\<forall>p. case pcbs (core b) p of None \<Rightarrow> of_pipeline p (zip xs ms) = []
          | Some c \<Rightarrow> of_pipeline p (zip xs ms) \<noteq> [] \<and> queue_chain (rqcbs (core b)) (first_rqcbp c) = Some (of_pipeline p (zip xs ms)))
     \<and> (\<exists>qs. broadcast_signal_to_allqueue (core b) = Some qs \<and> set qs = set xs)
     \<and> stages_ok (rqcbs (core b)) (stage_tree b) (set xs)
     \<and> (\<forall>j < length ms. \<exists>c. rqcbs (core b) (xs ! j) = Some c \<and> block_ok (ms ! j) (c\<lparr>thread_num := 0\<rparr>) \<and> thread_num c = word_of_int (mc_thread_num (ms ! j)))"

lemma running_inv:
  assumes bo: "boots e rinit queue_size xs b" and all: "all_created e 0 (mods b)"
    and inv: "loop_inv (zip xs (mods b)) [] [] b1" and "pcbs (core b2) = pcbs (core b1)" and "stage_tree b2 = stage_tree b1"
    and "\<forall>q. rqcbs (core b2) q = map_option (\<lambda>c. c\<lparr>thread_num := thread_num c + of_nat (count_list (made_threads e 0 (zip xs (mods b))) q)\<rparr>) (rqcbs (core b1) q)"
  shows "running xs (mods b) ((on_core (\<lambda>s. s\<lparr>done_rqcb := snd (request_queue_init True None 0 None None None (done_rqcb (core b2)))\<rparr>) b2)\<lparr>pipeline_initialized := True\<rparr>)"
    (is "running xs ?ms ?b")
proof -
  have ok: "length xs = length ?ms" "distinct xs" "grouped ?ms" "\<forall>m \<in> set ?ms. 0 \<le> mc_thread_num m" using bo by (simp_all add: boots_def modules_ok_def)
  note c = counted_inv [OF assms(3-6)]
  obtain B where B: "B = ?b" by blast
  have eq: "pcbs (core B) = pcbs (core b2)" "rqcbs (core B) = rqcbs (core b2)" "stage_tree B = stage_tree b2" by (simp_all add: B)
  have ch: "pipe_chains (core B) (zip xs ?ms) (open_end (zip xs ?ms) [] [])" using c unfolding pipe_chains_def eq by blast
  have "broadcast_signal_to_allqueue (core B) = Some (concat (map (\<lambda>p. of_pipeline p (zip xs ?ms)) [0..<PIPELINE_SIZE]))"
    unfolding broadcast_signal_to_allqueue_def by (rule broadcast_chains [OF ch])
  then have 1: "\<exists>qs. broadcast_signal_to_allqueue (core B) = Some qs \<and> set qs = set xs" using all_pipelines [OF ok(1,3)] by blast
  have 2: "case pcbs (core B) p of None \<Rightarrow> of_pipeline p (zip xs ?ms) = []
      | Some c \<Rightarrow> of_pipeline p (zip xs ?ms) \<noteq> [] \<and> queue_chain (rqcbs (core B)) (first_rqcbp c) = Some (of_pipeline p (zip xs ?ms))" for p
    using chains_closed [OF ch, of p] spec [OF ch [unfolded pipe_chains_def], of p] by (simp split: option.splits)
  have "fst ` set (zip xs ?ms) = set xs" using ok(1) by (metis map_fst_zip set_map)
  then have 3: "stages_ok (rqcbs (core B)) (stage_tree B) (set xs)" using c eq by simp
  have 4: "\<exists>c. rqcbs (core B) (xs ! j) = Some c \<and> block_ok (?ms ! j) (c\<lparr>thread_num := 0\<rparr>) \<and> thread_num c = word_of_int (mc_thread_num (?ms ! j))" if j: "j < length ?ms" for j
  proof -
    have "(xs ! j, ?ms ! j) \<in> set (zip xs ?ms)" using j ok(1) by (force simp: set_zip)
    then obtain c where "rqcbs (core b2) (xs ! j) = Some c" "block_ok (?ms ! j) (c\<lparr>thread_num := 0\<rparr>)"
      "thread_num c = of_nat (count_list (made_threads e 0 (zip xs ?ms)) (xs ! j))" using c by blast
    moreover have "(of_nat (nat (mc_thread_num (?ms ! j))) :: u32) = word_of_int (mc_thread_num (?ms ! j))" using ok(4) j by (simp add: of_nat_nat)
    ultimately show ?thesis using eq made_threads_count [OF ok(1,2) all j] by simp
  qed
  have 5: "pipeline_initialized B" "request_head (done_rqcb (core B)) = []" by (simp_all add: B request_queue_init_def)
  have "running xs ?ms B" unfolding running_def using 1 2 3 4 5 by blast
  then show ?thesis by (simp only: B)
qed



definition ex_module :: "u32 \<Rightarrow> string \<Rightarrow> mod_config" where
  "ex_module p n = (ex_mod p 1)\<lparr>mc_name := n, mc_thread_num := 2\<rparr>"

definition ex_boot :: "sys \<Rightarrow> boot" where
  "ex_boot s = \<lparr>core = s, stage_tree = \<lparr>rbh_root = None, entries = Map.empty\<rparr>, mods = [ex_module 1 ''read'', ex_module 1 ''log'', ex_module 2 ''echo''], threads = [],
     pipeline_working_threads = 0, initialized_thread_num = 0, pipeline_initialized = False\<rparr>"

definition ex_boot_env :: "(nat \<Rightarrow> nat \<Rightarrow> bool) \<Rightarrow> boot_env" where
  "ex_boot_env cr = \<lparr>first_rqcb = Some 1, next_rqcb_mem = (\<lambda>k. Some (k + 2)), pcb_mem = (\<lambda>_. True), sync_ok = (\<lambda>_. True), thread_mem = (\<lambda>_ _. True),
     create_ok = cr, stage_mem = True, global_sync_ok = True, done_sync_ok = True\<rparr>"

lemma ex_boots: "boots (ex_boot_env cr) (\<lambda>_. 0) 100 [1, 2, 3] (ex_boot s)"
proof -
  have "gives_blocks (ex_boot_env cr) 0 [1, 2, 3]" by (auto simp: gives_blocks_def ex_boot_env_def less_Suc_eq)
  moreover have "modules_ok (mods (ex_boot s))" by (simp add: modules_ok_def grouped_def ex_boot_def ex_module_def ex_mod_def PIPELINE_SIZE_def name_key_def MAX_MOD_NAME_LEN_def)
  ultimately show ?thesis by (simp add: boots_def ex_boot_def ex_boot_env_def ex_module_def ex_mod_def MAX_PIPELINE_QUEUE_SIZE_def PIPELINE_SUCCESS_def)
qed


end
