(* ===== verification/Spec2Isabelle.thy ===== *)
theory Spec2Isabelle
  imports Tailq Pipeline_Props Strl Confparser Rbtree_Props Mempool_Alloc Tcp_Props Startup_Props
begin

text \<open>
  A verification development for CSF, a C framework for network servers.

  \<^bold>\<open>The program.\<close>  A server built on CSF has one main thread with an event loop and a pool of
  worker threads.  The main thread accepts connections (\<^verbatim>\<open>tcp.c\<close>, \<^verbatim>\<open>udp.c\<close>), reads their data and
  gives it to a protocol module (\<^verbatim>\<open>data.c\<close>, \<^verbatim>\<open>protocol.c\<close>).  The protocol module submits requests
  (\<^verbatim>\<open>submit_request.c\<close>) to a pipeline.  A pipeline is a chain of stages; each stage has a queue and worker threads
  that call the handler of a module and pass the request on (\<^verbatim>\<open>pipeline.c\<close>).  A finished request goes
  back to the main thread through the done queue and a pipe, and the responder of the protocol answers it.
  At the start the configuration is read (\<^verbatim>\<open>confparser/\<close>), the modules are loaded
  (\<^verbatim>\<open>module.c\<close>), and the stages, pipelines and threads are made (\<^verbatim>\<open>pipeline.c\<close>, \<^verbatim>\<open>pipeline_stage.c\<close>).  Requests
  and connections are allocated from a memory pool (\<^verbatim>\<open>mempool.c\<close>), which uses the lists of \<^verbatim>\<open>queue.h\<close>
  and the red-black trees of \<^verbatim>\<open>tree.h\<close>.  Paths are relative to \<^verbatim>\<open>src/csf\<close> unless they start with \<^verbatim>\<open>src\<close>.

  \<^bold>\<open>Conventions.\<close>  A C function is a HOL function on an explicit state.  A computation without a
  result in C (a null dereference, an access outside a block, a use of freed memory) is \<^const>\<open>None\<close>; so a
  theorem that an operation gives \<^const>\<open>Some\<close> says that it does not fault.  Unsigned counters are machine words.
  Memory is a partial function from addresses to records.  What the kernel, the allocator, the locks and the shared objects
  answer is a parameter: a value, a function, or the list of the answers to successive calls.  A loop over
  system calls recurses on the list of answers, and a result of its own says that the loop has not ended yet; no fuel is used.
  Loops over pointers are \<^theory_text>\<open>partial_function\<close>s, and it is proved that they end on the states of the invariant.

  \<^bold>\<open>Theories.\<close>

  \<^item> \<open>Prelude\<close>: machine types, checked byte buffers, C strings and shared lemmas.

  \<^item> \<open>Tailq\<close>: the macros \<^verbatim>\<open>TAILQ_*\<close> of \<^verbatim>\<open>include/queue.h\<close> on heaps of link fields.  The locale \<open>linked_queues\<close> states
    what a client relies on; the interpretation \<open>tq\<close> shows it for the pointer code, which is the refinement of queues to lists.
    \<open>Queues\<close> has the facts about families of queues that share a link field.

  \<^item> \<open>Conn\<close>: connection records with their reference counter and the calls into the protocol
    (\<^verbatim>\<open>include/server.h\<close>, \<^verbatim>\<open>include/comm_proto.h\<close>, \<^verbatim>\<open>data.c\<close>, \<^verbatim>\<open>protocol.c\<close>).

  \<^item> \<open>Pipeline\<close>: the state of the pipelines and all operations of \<^verbatim>\<open>submit_request.c\<close> and of the running part of \<^verbatim>\<open>pipeline.c\<close>.
    \<open>Pipeline_Inv\<close> has the invariant (every live request is linked once or held by one worker, the counters are the
    lengths, pipelines with buffered requests are active); \<open>Pipeline_Worker\<close>, \<open>Pipeline_Submit\<close> and
    \<open>Pipeline_Done\<close> show what each operation does to it; \<open>Pipeline_Sys\<close> is the step relation of the main thread and the
    workers, where a critical section is one step; \<open>Pipeline_Props\<close> has the results: ownership, answers exactly once,
    admission and its refusals, no faults in reachable states, wake-ups of the main thread.

  \<^item> \<open>Strl\<close>: \<^verbatim>\<open>src/utils/strlcpy.c\<close> and \<^verbatim>\<open>src/utils/strlcat.c\<close> on byte buffers.

  \<^item> \<open>Dictionary\<close>, \<open>Iniparser\<close>, \<open>Ini_Roundtrip\<close>, \<open>Confparser\<close>: the files of \<^verbatim>\<open>confparser/\<close>.  The locale \<open>string_map\<close> is the
    contract of the dictionary; the parser and the reader of the configuration rest on its
    interpretation \<open>dict\<close>.  Shown are the refinement of the hashed slots to a map, that freeing is exact, that reading what was
    written gives the same map, and which variables \<^verbatim>\<open>load_conf\<close> sets.

  \<^item> \<open>Rbtree\<close>: \<^verbatim>\<open>RB_INSERT\<close>, \<^verbatim>\<open>RB_INSERT_COLOR\<close>, the rotations, \<^verbatim>\<open>RB_FIND\<close>, \<^verbatim>\<open>RB_NFIND\<close>, \<^verbatim>\<open>RB_NEXT\<close> and \<^verbatim>\<open>RB_MINMAX\<close> of
    \<^verbatim>\<open>include/tree.h\<close> on a heap.  \<open>Rbtree_Rep\<close> relates the heap to trees with a path to the root, \<open>Rbtree_Insert\<close> and
    \<open>Rbtree_Spec\<close> show the red-black invariants and the order, and the locale \<open>key_index\<close> with its interpretation \<open>rb\<close> in
    \<open>Rbtree_Props\<close> is the contract for clients.

  \<^item> \<open>Mempool\<close>, \<open>Mempool_Props\<close>, \<open>Mempool_Alloc\<close>: \<^verbatim>\<open>mempool.c\<close>, a client of \<open>rb\<close>.  Shown are that allocation gives a block of the
    size that nobody uses, that release keeps all others, and where the code departs from this.

  \<^item> \<open>Tcp_Write\<close>, \<open>Tcp\<close>, \<open>Tcp_Props\<close>: \<^verbatim>\<open>tcp.c\<close> and \<^verbatim>\<open>udp.c\<close>.  Shown are the equivalence of \<^verbatim>\<open>tcp_writev\<close> with a reference
    writer, the order of the bytes of the buffered writer over any sequence of its events, the life of a
    connection, and that sockets do not leak.

  \<^item> \<open>Stage\<close>: \<^verbatim>\<open>pipeline_stage.c\<close>, the index of the stages by name, a second client of \<open>rb\<close>.

  \<^item> \<open>Modules\<close>: \<^verbatim>\<open>module.c\<close>, the sections of the configuration and the queue of modules.

  \<^item> \<open>Startup\<close>, \<open>Startup_Props\<close>: \<^verbatim>\<open>pipeline_init\<close> and what it calls, and what it builds.

  \<^bold>\<open>Bounds.\<close>  Integers that count bytes or requests are words of the width of the source, or natural numbers where the code
  bounds them (\<^verbatim>\<open>ASCIILINESZ\<close>, \<^verbatim>\<open>RECV_DATA_LEN\<close>, \<^verbatim>\<open>SEND_BUF_LEN\<close>).  Theorems about counters that could wrap state
  the bound they need.  The search in a tree of \<open>m\<close> elements takes at most \<open>2 log2 (m + 1)\<close> rounds.

  \<^bold>\<open>Simplifications.\<close>  A critical section is one step, so the model says nothing about the code inside the locks of the C
  library.  At the start the workers begin after the loop over the modules.  Log messages, scheduling attributes,
  signal masks and socket options without an effect on the result are left out.

  \<^bold>\<open>Not modelled.\<close>  \<^verbatim>\<open>RB_REMOVE\<close>, the splay trees, and the list macros of \<^verbatim>\<open>queue.h\<close> that no file uses.  \<^verbatim>\<open>main.c\<close> and \<^verbatim>\<open>worker.c\<close>
  start processes and set signal handlers; \<^verbatim>\<open>server.c\<close> registers events with libevent; \<^verbatim>\<open>log.c\<close> and \<^verbatim>\<open>monitor.c\<close> write text for
  people; \<^verbatim>\<open>libmod.c\<close> and \<^verbatim>\<open>libprotocol.c\<close> forward to functions that are modelled; \<^verbatim>\<open>common.c\<close> prints a help text.  The
  branches of \<^verbatim>\<open>tcp_sendfile\<close> for other systems than Linux are left out.
\<close>

end
